(* ===== verification/Go_Prelude.thy ===== *)
theory Go_Prelude
  imports Main "HOL-Library.Sublist" "HOL-Library.Monad_Syntax" "HOL-Library.Word"
begin

text \<open>
  The fragment of Go that the models of this development share.

  A Go function that may stop the process (an index out of range, a slice
  expression out of bounds, or a call of \<^verbatim>\<open>logger.Fatal\<close>) is a function into
  \<open>'a option\<close>: \<open>None\<close> is "the process died here", so every run-time panic of
  the source is a branch of its model. Go's \<^verbatim>\<open>int\<close> is 64 bits wide; terms and
  log indices are incremented one at a time from 0 and are modelled by \<open>int\<close>,
  while the conversions of the source that really narrow a value
  (\<^verbatim>\<open>int32(...)\<close> of the transport, \<^verbatim>\<open>uint64\<close> versions of the store) keep
  their width.

  The theory also holds the lemmas on list prefixes, counting and majorities
  that several components use.
\<close>

section \<open>Automation shared by the components\<close>

named_theorems go_defs \<open>slice and index operations of Go\<close>

section \<open>Slices\<close>

text \<open>\<^verbatim>\<open>xs[i]\<close>: panics outside \<open>0 \<le> i < len(xs)\<close>.\<close>

definition idx :: "'a list \<Rightarrow> int \<Rightarrow> 'a option" where
  "idx xs i = (if 0 \<le> i \<and> i < int (length xs) then Some (xs ! nat i) else None)"

text \<open>\<^verbatim>\<open>xs[i] = v\<close>: panics outside \<open>0 \<le> i < len(xs)\<close>.\<close>

definition set_idx :: "'a list \<Rightarrow> int \<Rightarrow> 'a \<Rightarrow> 'a list option" where
  "set_idx xs i v =
     (if 0 \<le> i \<and> i < int (length xs) then Some (xs[nat i := v]) else None)"

text \<open>
  \<^verbatim>\<open>xs[a:b]\<close>. Go allows \<open>b\<close> up to the capacity of the backing array; the
  model allows it up to the length only, so that a read into spare capacity
  counts as a failure too.
\<close>

definition slice :: "'a list \<Rightarrow> int \<Rightarrow> int \<Rightarrow> 'a list option" where
  "slice xs a b =
     (if 0 \<le> a \<and> a \<le> b \<and> b \<le> int (length xs)
      then Some (take (nat b - nat a) (drop (nat a) xs)) else None)"

definition slice_from :: "'a list \<Rightarrow> int \<Rightarrow> 'a list option" where
  "slice_from xs a = slice xs a (int (length xs))"

definition slice_to :: "'a list \<Rightarrow> int \<Rightarrow> 'a list option" where
  "slice_to xs b = slice xs 0 b"

lemmas [go_defs] = idx_def set_idx_def slice_def slice_from_def slice_to_def

lemma idx_eq_Some_iff: "idx xs i = Some x \<longleftrightarrow> 0 \<le> i \<and> i < int (length xs) \<and> xs ! nat i = x"
  by (auto simp: idx_def)

lemma idx_Some [simp]: "0 \<le> i \<Longrightarrow> i < int (length xs) \<Longrightarrow> idx xs i = Some (xs ! nat i)"
  by (simp add: idx_def)

lemma idx_0 [simp]: "xs \<noteq> [] \<Longrightarrow> idx xs 0 = Some (hd xs)"
  by (simp add: idx_def hd_conv_nth)

lemma slice_from_Some [simp]:
  "0 \<le> a \<Longrightarrow> a \<le> int (length xs) \<Longrightarrow> slice_from xs a = Some (drop (nat a) xs)"
  by (simp add: slice_from_def slice_def)

lemma slice_to_Some [simp]:
  "0 \<le> b \<Longrightarrow> b \<le> int (length xs) \<Longrightarrow> slice_to xs b = Some (take (nat b) xs)"
  by (simp add: slice_to_def slice_def)

lemma set_idx_Some [simp]:
  "0 \<le> i \<Longrightarrow> i < int (length xs) \<Longrightarrow> set_idx xs i v = Some (xs[nat i := v])"
  by (simp add: set_idx_def)

section \<open>Prefixes\<close>

lemma take_Suc_eq_nthD:
  "take (Suc i) xs = take (Suc i) ys \<Longrightarrow> i < length xs \<Longrightarrow> i < length ys \<Longrightarrow> xs ! i = ys ! i"
  by (metis lessI nth_take)

lemma prefix_nth: "prefix xs ys \<Longrightarrow> i < length xs \<Longrightarrow> ys ! i = xs ! i"
  by (auto simp: prefix_def nth_append)

lemma prefix_take_eq: "prefix xs ys \<Longrightarrow> n \<le> length xs \<Longrightarrow> take n ys = take n xs"
  by (auto simp: prefix_def)

lemma prefix_take_mono: "m \<le> n \<Longrightarrow> prefix (take m xs) (take n xs)"
  by (metis min.absorb1 take_is_prefix take_take)

lemma prefix_conv_take: "prefix xs ys \<longleftrightarrow> take (length xs) ys = xs"
  by (metis append_eq_conv_conj prefix_def take_is_prefix)

lemma prefix_take_iff:
  "n \<le> length xs \<Longrightarrow> prefix (take n xs) ys \<longleftrightarrow> n \<le> length ys \<and> take n ys = take n xs"
  by (metis length_take min.absorb2 prefix_conv_take prefix_length_le)

lemma prefix_comparable: "prefix xs zs \<Longrightarrow> prefix ys zs \<Longrightarrow> prefix xs ys \<or> prefix ys xs"
  by (rule prefix_same_cases) auto

lemma prefix_of_comparable:
  "prefix xs zs \<Longrightarrow> prefix ys zs \<Longrightarrow> length xs \<le> length ys \<Longrightarrow> prefix xs ys"
  by (rule prefix_length_prefix)

section \<open>Majorities\<close>

text \<open>A node is identified by its index in the configuration, a Go \<^verbatim>\<open>int\<close>.\<close>

definition node_set :: "nat \<Rightarrow> int set" where
  "node_set n = {0..<int n}"

definition majority :: "nat \<Rightarrow> int set \<Rightarrow> bool" where
  "majority n Q \<longleftrightarrow> Q \<subseteq> node_set n \<and> card Q > n div 2"

lemma finite_node_set [simp]: "finite (node_set n)"
  by (simp add: node_set_def)

lemma card_node_set [simp]: "card (node_set n) = n"
  by (simp add: node_set_def)

lemma majority_inter:
  assumes "majority n Q" "majority n R"
  obtains v where "v \<in> Q" "v \<in> R"
proof -
  have sub: "Q \<union> R \<subseteq> node_set n" and fin: "finite Q" "finite R"
    using assms by (auto simp: majority_def intro: finite_subset [OF _ finite_node_set])
  have "card (Q \<union> R) \<le> n"
    using card_mono [OF finite_node_set sub] by simp
  moreover have "card Q + card R = card (Q \<union> R) + card (Q \<inter> R)"
    by (rule card_Un_Int [OF fin])
  ultimately have "card (Q \<inter> R) \<noteq> 0"
    using assms by (auto simp: majority_def)
  then show ?thesis
    using that by (metis IntE card.empty ex_in_conv)
qed

end
