(* ===== verification/Kv_Types.thy ===== *)
theory Kv_Types
  imports Go_Prelude
begin

text \<open>
  The data types that the packages of the program exchange: the key/value API
  (\<^verbatim>\<open>kvraft/api/kv.go\<close>), the operations of the replicated state machine
  (\<^verbatim>\<open>kvraft/sm/sm.go\<close>), the log entries and RPC messages of Raft
  (\<^verbatim>\<open>kvraft/raft/raft.go\<close>), and the values that \<^verbatim>\<open>encoding/gob\<close> writes.
\<close>

section \<open>kvraft/api/kv.go\<close>

text \<open>\<^verbatim>\<open>type Err string\<close> and its constants.\<close>

type_synonym Err = string

definition OK :: Err where "OK = ''OK''"
definition ErrNoKey :: Err where "ErrNoKey = ''ErrNoKey''"
definition ErrVersion :: Err where "ErrVersion = ''ErrVersion''"
definition ErrMaybe :: Err where "ErrMaybe = ''ErrMaybe''"
definition ErrWrongLeader :: Err where "ErrWrongLeader = ''ErrWrongLeader''"

lemmas Err_defs = OK_def ErrNoKey_def ErrVersion_def ErrMaybe_def ErrWrongLeader_def

lemma Err_distinct [simp]:
  "OK \<noteq> ErrNoKey" "OK \<noteq> ErrVersion" "OK \<noteq> ErrMaybe" "OK \<noteq> ErrWrongLeader"
  "ErrNoKey \<noteq> OK" "ErrNoKey \<noteq> ErrVersion" "ErrNoKey \<noteq> ErrMaybe" "ErrNoKey \<noteq> ErrWrongLeader"
  "ErrVersion \<noteq> OK" "ErrVersion \<noteq> ErrNoKey" "ErrVersion \<noteq> ErrMaybe"
  "ErrVersion \<noteq> ErrWrongLeader"
  "ErrMaybe \<noteq> OK" "ErrMaybe \<noteq> ErrNoKey" "ErrMaybe \<noteq> ErrVersion" "ErrMaybe \<noteq> ErrWrongLeader"
  "ErrWrongLeader \<noteq> OK" "ErrWrongLeader \<noteq> ErrNoKey" "ErrWrongLeader \<noteq> ErrVersion"
  "ErrWrongLeader \<noteq> ErrMaybe"
  by (simp_all add: Err_defs)

text \<open>\<^verbatim>\<open>type TVersion uint64\<close>: addition wraps around.\<close>

type_synonym TVersion = "64 word"

record GetArgs =
  ga_Key :: string

record GetReply =
  gr_Value :: string
  gr_Version :: TVersion
  gr_Err :: Err

record PutArgs =
  pa_Key :: string
  pa_Value :: string
  pa_Version :: TVersion

record PutReply =
  pr_Err :: Err

section \<open>kvraft/sm/sm.go\<close>

text \<open>
  A Go value of type \<^verbatim>\<open>any\<close>: nil or a value of one of the types that the program
  stores in an interface, which are the ones \<^verbatim>\<open>RegisterRaftGobTypes\<close> registers
  (\<^verbatim>\<open>sm.Op\<close>, the four API structs, \<^verbatim>\<open>int\<close>), and strings, which the tests use as
  commands. \<^verbatim>\<open>sm.Op\<close> holds an \<^verbatim>\<open>any\<close> itself, so it is a constructor here.
\<close>

datatype any =
    AnyNil
  | AnyInt int
  | AnyString string
  | AnyGetArgs GetArgs
  | AnyPutArgs PutArgs
  | AnyGetReply GetReply
  | AnyPutReply PutReply
  | Op (Op_Me: int) (Op_Id: "64 word") (Op_Req: any)

section \<open>kvraft/raft/raft.go\<close>

record Entry =
  Index :: int
  Term :: int
  Command :: any

text \<open>The zero value of \<^verbatim>\<open>raft.Entry\<close>, the element that \<^verbatim>\<open>make([]raft.Entry, 1)\<close> holds.\<close>

definition zero_Entry :: Entry where
  "zero_Entry = \<lparr>Index = 0, Term = 0, Command = AnyNil\<rparr>"

record RequestVoteArgs =
  rva_Term :: int
  rva_CandidateId :: int
  rva_LastLogTerm :: int
  rva_LastLogIndex :: int

record RequestVoteReply =
  rvr_Term :: int
  rvr_VoteGranted :: bool

record AppendEntriesArgs =
  aea_Term :: int
  aea_LeaderId :: int
  aea_PrevLogIndex :: int
  aea_PrevLogTerm :: int
  aea_Entries :: "Entry list"
  aea_LeaderCommit :: int

record AppendEntriesReply =
  aer_Term :: int
  aer_Success :: bool
  aer_ConflictIndex :: int
  aer_ConflictTerm :: int

section \<open>Values written by encoding/gob\<close>

text \<open>
  A byte slice that a \<^verbatim>\<open>gob.Encoder\<close> produced is the sequence of the values
  that were encoded into it, each tagged with its type: this is what a
  \<^verbatim>\<open>gob.Decoder\<close> can observe of it. An empty slice has no value in it. The
  length in bytes is not a function of this view; the code that reads a length
  (\<^verbatim>\<open>RaftStateSize\<close>) takes the size function as a parameter.
\<close>

record KvVal =
  kv_Value :: string
  kv_Version :: TVersion

datatype gobval =
    GobInt int
  | GobEntries "Entry list"
  | GobAny any
  | GobAnys "any list"
  | GobKv "string \<rightharpoonup> KvVal"

type_synonym bytes = "gobval list"

text \<open>
  \<^verbatim>\<open>d.Decode(&x)\<close> reads the next value of the stream into a variable of a given
  type and fails at the end of the stream or on a value of another type.
\<close>

fun gob_decode_int :: "bytes \<Rightarrow> (int \<times> bytes) option" where
  "gob_decode_int (GobInt i # r) = Some (i, r)"
| "gob_decode_int _ = None"

fun gob_decode_entries :: "bytes \<Rightarrow> (Entry list \<times> bytes) option" where
  "gob_decode_entries (GobEntries es # r) = Some (es, r)"
| "gob_decode_entries _ = None"

fun gob_decode_any :: "bytes \<Rightarrow> (any \<times> bytes) option" where
  "gob_decode_any (GobAny a # r) = Some (a, r)"
| "gob_decode_any _ = None"

text \<open>A slice replaces the slice it is decoded into.\<close>

fun gob_decode_anys :: "bytes \<Rightarrow> (any list \<times> bytes) option" where
  "gob_decode_anys (GobAnys as # r) = Some (as, r)"
| "gob_decode_anys _ = None"

text \<open>
  Decoding into a map that is not nil updates the map it finds: keys of the
  stream are stored, the other keys of the destination stay. (The package
  documentation: if no allocation is required the decoder updates the
  destination variable with the values read.)
\<close>

fun gob_decode_kv :: "(string \<rightharpoonup> KvVal) \<Rightarrow> bytes \<Rightarrow> ((string \<rightharpoonup> KvVal) \<times> bytes) option" where
  "gob_decode_kv dst (GobKv m # r) = Some (dst ++ m, r)"
| "gob_decode_kv dst _ = None"

section \<open>Snapshot messages and applied messages\<close>

record InstallSnapshotArgs =
  isa_Term :: int
  isa_LeaderId :: int
  isa_LastIncludedIndex :: int
  isa_LastIncludedTerm :: int
  isa_Data :: bytes

record InstallSnapshotReply =
  isr_Term :: int

record ApplyMsg =
  CommandValid :: bool
  am_Command :: any
  CommandIndex :: int
  SnapshotValid :: bool
  am_Snapshot :: bytes
  SnapshotTerm :: int
  SnapshotIndex :: int

definition zero_ApplyMsg :: ApplyMsg where
  "zero_ApplyMsg = \<lparr>CommandValid = False, am_Command = AnyNil, CommandIndex = 0,
     SnapshotValid = False, am_Snapshot = [], SnapshotTerm = 0, SnapshotIndex = 0\<rparr>"

end
