(* ===== verification/Kv_Store.thy ===== *)
theory Kv_Store
  imports Kv_Types
begin

text \<open>
  The key/value store of \<^verbatim>\<open>kvraft/internal/kvserver/store.go\<close>, the state machine
  that the cluster replicates. \<open>DoOp\<close>, \<open>Snapshot\<close> and \<open>Restore\<close> run under
  the store's mutex and are therefore atomic functions on the map.
\<close>

record Store =
  kv :: "string \<rightharpoonup> KvVal"

definition NewStore :: Store where
  "NewStore = \<lparr>kv = Map.empty\<rparr>"

definition getOp :: "Store \<Rightarrow> GetArgs \<Rightarrow> any" where
  "getOp s x =
     (case kv s (ga_Key x) of
        None \<Rightarrow> AnyGetReply \<lparr>gr_Value = '''', gr_Version = 0, gr_Err = ErrNoKey\<rparr>
      | Some cur \<Rightarrow>
          AnyGetReply \<lparr>gr_Value = kv_Value cur, gr_Version = kv_Version cur, gr_Err = OK\<rparr>)"

definition putOp :: "Store \<Rightarrow> PutArgs \<Rightarrow> any \<times> Store" where
  "putOp s x =
     (case kv s (pa_Key x) of
        None \<Rightarrow>
          (if pa_Version x \<noteq> 0 then (AnyPutReply \<lparr>pr_Err = ErrVersion\<rparr>, s)
           else (AnyPutReply \<lparr>pr_Err = OK\<rparr>,
                 s\<lparr>kv := (kv s)(pa_Key x \<mapsto> \<lparr>kv_Value = pa_Value x, kv_Version = 1\<rparr>)\<rparr>))
      | Some cur \<Rightarrow>
          (if kv_Version cur \<noteq> pa_Version x then (AnyPutReply \<lparr>pr_Err = ErrVersion\<rparr>, s)
           else (AnyPutReply \<lparr>pr_Err = OK\<rparr>,
                 s\<lparr>kv := (kv s)(pa_Key x \<mapsto>
                        \<lparr>kv_Value = pa_Value x, kv_Version = kv_Version cur + 1\<rparr>)\<rparr>)))"

text \<open>\<^verbatim>\<open>DoOp\<close> switches on the dynamic type of the request.\<close>

definition DoOp :: "Store \<Rightarrow> any \<Rightarrow> any \<times> Store" where
  "DoOp s req =
     (case req of
        AnyGetArgs x \<Rightarrow> (getOp s x, s)
      | AnyPutArgs x \<Rightarrow> putOp s x
      | _ \<Rightarrow> (AnyPutReply \<lparr>pr_Err = ErrWrongLeader\<rparr>, s))"

definition store_Snapshot :: "Store \<Rightarrow> bytes" where
  "store_Snapshot s = [GobKv (kv s)]"

text \<open>The error of \<^verbatim>\<open>Restore\<close> is \<open>None\<close> here.\<close>

definition Restore :: "Store \<Rightarrow> bytes \<Rightarrow> Store option" where
  "Restore s data =
     (if data = [] then Some (s\<lparr>kv := Map.empty\<rparr>)
      else case gob_decode_kv (kv s) data of
             None \<Rightarrow> None
           | Some (m, _) \<Rightarrow> Some (s\<lparr>kv := m\<rparr>))"

text \<open>Running a sequence of requests, as a replica does with its committed commands.\<close>

fun do_ops :: "Store \<Rightarrow> any list \<Rightarrow> Store" where
  "do_ops s [] = s"
| "do_ops s (r # rs) = do_ops (snd (DoOp s r)) rs"

section \<open>The sequential specification\<close>

text \<open>
  \<^verbatim>\<open>KvModel\<close> of \<^verbatim>\<open>kvraft/internal/testutils/kvmodel.go\<close>, the specification of one
  key against which the repository's tests check the histories of the clients:
  \<open>model_Step st inp out\<close> says whether \<open>out\<close> is a legal answer to \<open>inp\<close> in
  state \<open>st\<close>, and gives the state after it.
\<close>

record KvInput =
  ki_Op :: "8 word"
  ki_Key :: string
  ki_Value :: string
  ki_Version :: "64 word"

record KvOutput =
  ko_Value :: string
  ko_Version :: "64 word"
  ko_Err :: string

record KvState =
  ks_Value :: string
  ks_Version :: "64 word"

definition model_Init :: KvState where
  "model_Init = \<lparr>ks_Value = '''', ks_Version = 0\<rparr>"

definition model_Step :: "KvState \<Rightarrow> KvInput \<Rightarrow> KvOutput \<Rightarrow> bool \<times> KvState" where
  "model_Step st inp out =
     (if ki_Op inp = 0
      then if ko_Err out = OK
           then (ko_Value out = ks_Value st \<and> ko_Version out = ks_Version st, st)
           else if ko_Err out = ErrNoKey then (ks_Version st = 0, st)
           else (True, st)
      else if ki_Op inp = 1
      then if ko_Err out = OK
           then if ks_Version st = ki_Version inp
                then (True, \<lparr>ks_Value = ki_Value inp, ks_Version = ks_Version st + 1\<rparr>)
                else (False, st)
           else if ko_Err out = ErrVersion then (ks_Version st \<noteq> ki_Version inp, st)
           else if ko_Err out = ErrMaybe
           then if ks_Version st = ki_Version inp
                then (True, \<lparr>ks_Value = ki_Value inp, ks_Version = ks_Version st + 1\<rparr>)
                else (True, st)
           else (True, st)
      else (False, st))"

text \<open>
  The history of one key, checked in order: \<^verbatim>\<open>Partition\<close> keeps the operations on
  that key, \<^verbatim>\<open>Step\<close> checks them one after the other.
\<close>

fun model_accepts :: "KvState \<Rightarrow> (KvInput \<times> KvOutput) list \<Rightarrow> bool" where
  "model_accepts st [] = True"
| "model_accepts st ((inp, out) # h) =
     (let (ok, st') = model_Step st inp out in ok \<and> model_accepts st' h)"

definition partition_key :: "string \<Rightarrow> (KvInput \<times> KvOutput) list \<Rightarrow> (KvInput \<times> KvOutput) list" where
  "partition_key k h = filter (\<lambda>(inp, out). ki_Key inp = k) h"

text \<open>A request and its answer as an operation of a client history.\<close>

definition observed :: "any \<Rightarrow> any \<Rightarrow> (KvInput \<times> KvOutput) list" where
  "observed req rep =
     (case req of
        AnyGetArgs x \<Rightarrow>
          (case rep of
             AnyGetReply y \<Rightarrow>
               [(\<lparr>ki_Op = 0, ki_Key = ga_Key x, ki_Value = [], ki_Version = 0\<rparr>,
                 \<lparr>ko_Value = gr_Value y, ko_Version = gr_Version y, ko_Err = gr_Err y\<rparr>)]
           | _ \<Rightarrow> [])
      | AnyPutArgs x \<Rightarrow>
          (case rep of
             AnyPutReply y \<Rightarrow>
               [(\<lparr>ki_Op = 1, ki_Key = pa_Key x, ki_Value = pa_Value x, ki_Version = pa_Version x\<rparr>,
                 \<lparr>ko_Value = [], ko_Version = 0, ko_Err = pr_Err y\<rparr>)]
           | _ \<Rightarrow> [])
      | _ \<Rightarrow> [])"

fun history :: "Store \<Rightarrow> any list \<Rightarrow> (KvInput \<times> KvOutput) list" where
  "history s [] = []"
| "history s (r # rs) = observed r (fst (DoOp s r)) @ history (snd (DoOp s r)) rs"

text \<open>The state of one key as the specification sees it.\<close>

definition key_state :: "Store \<Rightarrow> string \<Rightarrow> KvState" where
  "key_state s k =
     (case kv s k of
        None \<Rightarrow> model_Init
      | Some v \<Rightarrow> \<lparr>ks_Value = kv_Value v, ks_Version = kv_Version v\<rparr>)"

text \<open>How many requests of a run were successful writes of \<open>k\<close>.\<close>

definition writes_key :: "Store \<Rightarrow> string \<Rightarrow> any \<Rightarrow> bool" where
  "writes_key s k r =
     (case r of
        AnyPutArgs x \<Rightarrow> pa_Key x = k \<and> fst (putOp s x) = AnyPutReply \<lparr>pr_Err = OK\<rparr>
      | _ \<Rightarrow> False)"

fun count_writes :: "Store \<Rightarrow> string \<Rightarrow> any list \<Rightarrow> nat" where
  "count_writes s k [] = 0"
| "count_writes s k (r # rs) =
     (if writes_key s k r then 1 else 0) + count_writes (snd (DoOp s r)) k rs"

section \<open>One operation\<close>

lemma do_ops_append: "do_ops s (rs @ rs') = do_ops (do_ops s rs) rs'"
  by (induction rs arbitrary: s) auto

lemma key_state_other:
  "case r of AnyPutArgs x \<Rightarrow> pa_Key x \<noteq> k | _ \<Rightarrow> True \<Longrightarrow> key_state (snd (DoOp s r)) k = key_state s k"
  by (auto simp: DoOp_def putOp_def key_state_def split: any.splits option.splits)

lemma observed_step:
  assumes "observed r (fst (DoOp s r)) = [(inp, out)]"
  shows "model_Step (key_state s (ki_Key inp)) inp out =
    (True, key_state (snd (DoOp s r)) (ki_Key inp))"
proof -
  note defs = observed_def DoOp_def key_state_def model_Step_def model_Init_def
  consider (get) x where "r = AnyGetArgs x" | (put) x where "r = AnyPutArgs x"
    using assms by (cases r) (auto simp: observed_def)
  then show ?thesis
  proof cases
    case (get x)
    with assms show ?thesis by (cases "kv s (ga_Key x)") (auto simp: defs getOp_def)
  next
    case (put x)
    let ?v = "case kv s (pa_Key x) of None \<Rightarrow> 0 | Some cur \<Rightarrow> kv_Version cur"
    show ?thesis
      using assms put
      by (cases "kv s (pa_Key x)"; cases "?v = pa_Version x") (auto simp: defs putOp_def)
  qed
qed

lemma observed_cases:
  obtains "observed r (fst (DoOp s r)) = []" "\<And>k. key_state (snd (DoOp s r)) k = key_state s k"
  | inp out where "observed r (fst (DoOp s r)) = [(inp, out)]"
      "\<And>k. k \<noteq> ki_Key inp \<Longrightarrow> key_state (snd (DoOp s r)) k = key_state s k"
proof (cases r)
  case (AnyGetArgs x)
  then show ?thesis
    using that(2) key_state_other [where r = r and s = s]
    by (cases "kv s (ga_Key x)") (auto simp: observed_def DoOp_def getOp_def)
next
  case (AnyPutArgs x)
  have "\<exists>y. fst (putOp s x) = AnyPutReply y" by (auto simp: putOp_def split: option.splits)
  then obtain y where "fst (DoOp s r) = AnyPutReply y" using AnyPutArgs by (auto simp: DoOp_def)
  with AnyPutArgs show ?thesis
    using that(2) key_state_other [where r = r and s = s] by (simp add: observed_def)
qed (use that(1) key_state_other [where r = r and s = s] in \<open>auto simp: observed_def DoOp_def\<close>)

lemma dom_DoOp: "dom (kv s) \<subseteq> dom (kv (snd (DoOp s r)))"
  by (auto simp: DoOp_def putOp_def split: any.splits option.splits)

lemma dom_do_ops: "dom (kv s) \<subseteq> dom (kv (do_ops s rs))"
proof (induction rs arbitrary: s)
  case (Cons r rs)
  with dom_DoOp [of s r] show ?case by (metis do_ops.simps(2) subset_trans)
qed simp

lemma version_DoOp:
  "ks_Version (key_state (snd (DoOp s r)) k) =
     ks_Version (key_state s k) + (if writes_key s k r then 1 else 0)"
  by (auto simp: writes_key_def DoOp_def putOp_def key_state_def model_Init_def
      split: any.splits option.splits if_splits)

lemma version_do_ops:
  "ks_Version (key_state (do_ops s rs) k) =
     ks_Version (key_state s k) + of_nat (count_writes s k rs)"
  by (induction rs arbitrary: s) (auto simp: version_DoOp)

lemma count_writes_le: "count_writes s k rs \<le> length rs"
  by (induction rs arbitrary: s) (auto simp: le_SucI)

lemma putOp_ok_iff:
  "fst (putOp s x) = AnyPutReply \<lparr>pr_Err = OK\<rparr> \<longleftrightarrow>
     ks_Version (key_state s (pa_Key x)) = pa_Version x"
  by (auto simp: putOp_def key_state_def model_Init_def split: option.splits)

lemma put_refused:
  "ks_Version (key_state s (pa_Key x)) \<noteq> pa_Version x \<Longrightarrow>
   DoOp s (AnyPutArgs x) = (AnyPutReply \<lparr>pr_Err = ErrVersion\<rparr>, s)"
  by (auto simp: DoOp_def putOp_def key_state_def model_Init_def split: option.splits)

section \<open>The interface of a state machine\<close>

text \<open>
  What the replication layer relies on (\<^verbatim>\<open>kvraft/sm/sm.go\<close>): a snapshot taken after
  some commands, restored by a replica that has executed only a prefix of them,
  gives the state after all of them. Taking a snapshot may fail.
\<close>

locale state_machine =
  fixes do_op :: "'s \<Rightarrow> any \<Rightarrow> any \<times> 's"
    and snap :: "'s \<Rightarrow> bytes option"
    and restore :: "'s \<Rightarrow> bytes \<Rightarrow> 's option"
    and init :: 's
    and run :: "'s \<Rightarrow> any list \<Rightarrow> 's"
  assumes run_Nil: "run s [] = s"
    and run_Cons: "run s (c # cs) = run (snd (do_op s c)) cs"
    and restore_run: "snap (run init (cs @ cs')) = Some d \<Longrightarrow> restore (run init cs) d = Some (run init (cs @ cs'))"
begin

lemma run_append: "run s (cs @ cs') = run (run s cs) cs'"
  by (induction cs arbitrary: s) (auto simp: run_Nil run_Cons)

lemma run_snoc: "run s (cs @ [c]) = snd (do_op (run s cs) c)"
  by (simp add: run_append run_Cons run_Nil)

lemma restore_init: "snap (run init cs) = Some d \<Longrightarrow> restore init d = Some (run init cs)"
  using restore_run [of "[]" cs d] by (simp add: run_Nil)

text \<open>Catching up by a snapshot and the commands after it is the same as executing all of them.\<close>

lemma catch_up:
  "snap (run init (cs @ cs')) = Some d \<Longrightarrow>
   map_option (\<lambda>s. run s cs'') (restore (run init cs) d) = Some (run init (cs @ cs' @ cs''))"
  using restore_run [of cs cs' d] by (simp add: run_append)

end

lemma Restore_store_Snapshot:
  assumes "dom (kv s) \<subseteq> dom (kv s')"
  shows "Restore s (store_Snapshot s') = Some s'"
proof -
  have "kv s ++ kv s' = kv s'"
    using assms by (auto simp: map_add_def fun_eq_iff split: option.splits)
  then show ?thesis by (simp add: Restore_def store_Snapshot_def)
qed

interpretation store: state_machine DoOp "\<lambda>s. Some (store_Snapshot s)" Restore NewStore do_ops
proof
  show "Restore (do_ops NewStore cs) d = Some (do_ops NewStore (cs @ cs'))"
    if "Some (store_Snapshot (do_ops NewStore (cs @ cs'))) = Some d" for cs cs' d
    using that Restore_store_Snapshot dom_do_ops by (auto simp: do_ops_append)
qed simp_all

section \<open>Properties\<close>

text \<open>
  (C14) One operation of the store implements one step of the sequential
  specification: the answer is legal in the state of the key before it, and the
  state of every key after it is the one the specification prescribes.
\<close>

theorem DoOp_refines_model:
  "\<forall>(inp, out) \<in> set (observed r (fst (DoOp s r))).
     model_Step (key_state s (ki_Key inp)) inp out =
       (True, key_state (snd (DoOp s r)) (ki_Key inp)) \<and>
     (\<forall>k. k \<noteq> ki_Key inp \<longrightarrow> key_state (snd (DoOp s r)) k = key_state s k)"
  by (rule observed_cases [of r s]) (use observed_step [of r s] in fastforce)+

theorem DoOp_refines_model_witness:
  "\<exists>inp out. (inp, out) \<in> set (observed (AnyPutArgs \<lparr>pa_Key = ''k'', pa_Value = ''v'', pa_Version = 0\<rparr>)
       (fst (DoOp NewStore (AnyPutArgs \<lparr>pa_Key = ''k'', pa_Value = ''v'', pa_Version = 0\<rparr>)))) \<and>
     model_Step (key_state NewStore (ki_Key inp)) inp out =
       (True, \<lparr>ks_Value = ''v'', ks_Version = 1\<rparr>)"
  using DoOp_refines_model [of "AnyPutArgs \<lparr>pa_Key = ''k'', pa_Value = ''v'', pa_Version = 0\<rparr>" NewStore]
  by (auto simp: observed_def DoOp_def putOp_def NewStore_def key_state_def)

text \<open>
  (C15) Every run of the store, from any state, yields for every key a history that the
  sequential specification \<open>KvModel\<close> accepts.
\<close>

theorem history_accepted:
  "model_accepts (key_state s k) (partition_key k (history s rs))"
proof (induction rs arbitrary: s)
  case (Cons r rs)
  show ?case
  proof (rule observed_cases [of r s])
    assume "observed r (fst (DoOp s r)) = []" "\<And>k. key_state (snd (DoOp s r)) k = key_state s k"
    with Cons [of "snd (DoOp s r)"] show ?thesis by simp
  next
    fix inp out
    assume o: "observed r (fst (DoOp s r)) = [(inp, out)]"
      and k: "\<And>k. k \<noteq> ki_Key inp \<Longrightarrow> key_state (snd (DoOp s r)) k = key_state s k"
    show ?thesis
    proof (cases "ki_Key inp = k")
      case True
      with observed_step [OF o] Cons [of "snd (DoOp s r)"] o show ?thesis
        by (auto simp: partition_key_def)
    next
      case False
      with k [of k] Cons [of "snd (DoOp s r)"] o show ?thesis by (auto simp: partition_key_def)
    qed
  qed
qed (simp add: partition_key_def)

text \<open>
  (C16) At-most-once writes: after a successful \<open>Put\<close>, the same \<open>Put\<close> sent again is
  refused with \<open>ErrVersion\<close> and changes nothing, whatever other requests the store has
  executed in between, as long as they are fewer than the \<open>2^64 - 1\<close> that would make the
  version counter wrap around.
\<close>

theorem put_at_most_once:
  assumes "fst (DoOp s (AnyPutArgs x)) = AnyPutReply \<lparr>pr_Err = OK\<rparr>"
    and "length rs < 2 ^ 64 - 1"
  shows "DoOp (do_ops (snd (DoOp s (AnyPutArgs x))) rs) (AnyPutArgs x) =
    (AnyPutReply \<lparr>pr_Err = ErrVersion\<rparr>, do_ops (snd (DoOp s (AnyPutArgs x))) rs)"
proof -
  let ?k = "pa_Key x" and ?s = "snd (DoOp s (AnyPutArgs x))"
  let ?n = "count_writes ?s ?k rs"
  have "Suc ?n < 2 ^ 64" using assms(2) count_writes_le [of ?s ?k rs] by simp
  then have nz: "(of_nat (Suc ?n) :: 64 word) \<noteq> 0"
    unfolding word_of_nat_eq_0_iff using nat_dvd_not_less [of "Suc ?n"] by simp
  have v: "ks_Version (key_state s ?k) = pa_Version x" "writes_key s ?k (AnyPutArgs x)"
    using assms(1) by (simp_all add: DoOp_def putOp_ok_iff writes_key_def)
  have "ks_Version (key_state (do_ops ?s rs) ?k) = pa_Version x + of_nat (Suc ?n)"
    using version_do_ops [of ?s rs ?k] version_DoOp [of s "AnyPutArgs x" ?k] v by simp
  then have "ks_Version (key_state (do_ops ?s rs) ?k) \<noteq> pa_Version x"
    using nz by (metis add_cancel_left_right)
  then show ?thesis by (rule put_refused)
qed

theorem put_at_most_once_witness:
  "DoOp (do_ops (snd (DoOp NewStore (AnyPutArgs \<lparr>pa_Key = ''k'', pa_Value = ''a'', pa_Version = 0\<rparr>)))
      [AnyPutArgs \<lparr>pa_Key = ''k'', pa_Value = ''b'', pa_Version = 1\<rparr>])
     (AnyPutArgs \<lparr>pa_Key = ''k'', pa_Value = ''a'', pa_Version = 0\<rparr>) =
   (AnyPutReply \<lparr>pr_Err = ErrVersion\<rparr>,
    do_ops (snd (DoOp NewStore (AnyPutArgs \<lparr>pa_Key = ''k'', pa_Value = ''a'', pa_Version = 0\<rparr>)))
      [AnyPutArgs \<lparr>pa_Key = ''k'', pa_Value = ''b'', pa_Version = 1\<rparr>])"
  by (rule put_at_most_once) (simp_all add: DoOp_def putOp_def NewStore_def)

text \<open>
  (C17) Catching up: a replica that has executed only the first commands, restores the
  snapshot of a replica that is ahead of it and then executes the commands after the
  snapshot, ends in the state of a replica that executed all of them one by one. This
  holds although \<open>Restore\<close> decodes into the existing map, because no command removes a key.
\<close>

theorem store_catch_up:
  "map_option (\<lambda>s. do_ops s cs'')
     (Restore (do_ops NewStore cs) (store_Snapshot (do_ops NewStore (cs @ cs'))))
   = Some (do_ops NewStore (cs @ cs' @ cs''))"
  by (rule store.catch_up) simp

end
