(* ===== verification/Persister.thy ===== *)
theory Persister
  imports Kv_Types
begin

text \<open>
  The storage interface \<^verbatim>\<open>raft.Persister\<close> (\<^verbatim>\<open>kvraft/raft/raft.go\<close>) and its two
  implementations: \<^verbatim>\<open>FilePersister\<close> (\<^verbatim>\<open>kvraft/internal/raft/disk_persister.go\<close>),
  which the servers run on, and the in-memory \<^verbatim>\<open>MockPersister\<close>
  (\<^verbatim>\<open>kvraft/internal/testutils/persister.go\<close>).

  The operating system is the environment: \<open>plan\<close> holds the outcome of the next
  system calls, so a run with disk errors is a run with failures in the plan, and
  an empty plan is a disk on which every call succeeds.
\<close>

section \<open>The operating system calls\<close>

datatype os_err = NotExist | OsErr

text \<open>\<open>OsFail n\<close>: the call fails; a failing write has written \<open>n\<close> values before.\<close>

datatype os_outcome = OsOk | OsFail nat

record FilePersister =
  dir :: string
  files :: "string \<rightharpoonup> bytes"
  plan :: "os_outcome list"

definition os_next :: "FilePersister \<Rightarrow> os_outcome \<times> FilePersister" where
  "os_next ps = (case plan ps of [] \<Rightarrow> (OsOk, ps) | x # r \<Rightarrow> (x, ps\<lparr>plan := r\<rparr>))"

text \<open>\<^verbatim>\<open>filepath.Join\<close> of a clean, non-empty directory and a file name.\<close>

definition filepath_Join :: "string \<Rightarrow> string \<Rightarrow> string" where
  "filepath_Join d f = d @ ''/'' @ f"

definition os_ReadFile :: "FilePersister \<Rightarrow> string \<Rightarrow> (os_err + bytes) \<times> FilePersister" where
  "os_ReadFile ps path =
     (case os_next ps of
        (OsFail _, ps') \<Rightarrow> (Inl OsErr, ps')
      | (OsOk, ps') \<Rightarrow>
          (case files ps' path of None \<Rightarrow> (Inl NotExist, ps') | Some d \<Rightarrow> (Inr d, ps')))"

definition os_OpenTrunc :: "FilePersister \<Rightarrow> string \<Rightarrow> os_err option \<times> FilePersister" where
  "os_OpenTrunc ps path =
     (case os_next ps of
        (OsFail _, ps') \<Rightarrow> (Some OsErr, ps')
      | (OsOk, ps') \<Rightarrow> (None, ps'\<lparr>files := (files ps')(path \<mapsto> [])\<rparr>))"

definition os_Write :: "FilePersister \<Rightarrow> string \<Rightarrow> bytes \<Rightarrow> os_err option \<times> FilePersister" where
  "os_Write ps path data =
     (case os_next ps of
        (OsFail n, ps') \<Rightarrow> (Some OsErr, ps'\<lparr>files := (files ps')(path \<mapsto> take n data)\<rparr>)
      | (OsOk, ps') \<Rightarrow> (None, ps'\<lparr>files := (files ps')(path \<mapsto> data)\<rparr>))"

text \<open>\<^verbatim>\<open>f.Sync\<close> and \<^verbatim>\<open>f.Close\<close> do not change the visible contents.\<close>

definition os_Flush :: "FilePersister \<Rightarrow> os_err option \<times> FilePersister" where
  "os_Flush ps =
     (case os_next ps of (OsFail _, ps') \<Rightarrow> (Some OsErr, ps') | (OsOk, ps') \<Rightarrow> (None, ps'))"

text \<open>\<^verbatim>\<open>os.Rename\<close> replaces the target in one step.\<close>

definition os_Rename :: "FilePersister \<Rightarrow> string \<Rightarrow> string \<Rightarrow> os_err option \<times> FilePersister" where
  "os_Rename ps src tgt =
     (case os_next ps of
        (OsFail _, ps') \<Rightarrow> (Some OsErr, ps')
      | (OsOk, ps') \<Rightarrow>
          (case files ps' src of
             None \<Rightarrow> (Some NotExist, ps')
           | Some d \<Rightarrow> (None, ps'\<lparr>files := (files ps')(tgt := Some d, src := None)\<rparr>)))"

section \<open>FilePersister\<close>

definition MakeFilePersister :: "string \<Rightarrow> (string \<rightharpoonup> bytes) \<Rightarrow> FilePersister" where
  "MakeFilePersister d fs = \<lparr>dir = d, files = fs, plan = []\<rparr>"

definition ReadRaftState :: "FilePersister \<Rightarrow> (os_err + bytes) \<times> FilePersister" where
  "ReadRaftState ps =
     (case os_ReadFile ps (filepath_Join (dir ps) ''raft-state'') of
        (Inl NotExist, ps') \<Rightarrow> (Inr [], ps')
      | (r, ps') \<Rightarrow> (r, ps'))"

definition ReadSnapshot :: "FilePersister \<Rightarrow> (os_err + bytes) \<times> FilePersister" where
  "ReadSnapshot ps =
     (case os_ReadFile ps (filepath_Join (dir ps) ''snapshot'') of
        (Inl NotExist, ps') \<Rightarrow> (Inr [], ps')
      | (r, ps') \<Rightarrow> (r, ps'))"

text \<open>\<^verbatim>\<open>snapshot, _ := ps.ReadSnapshot()\<close>: on an error the slice is nil.\<close>

definition snapshot_or_nil :: "(os_err + bytes) \<Rightarrow> bytes" where
  "snapshot_or_nil r = (case r of Inl _ \<Rightarrow> [] | Inr d \<Rightarrow> d)"

definition file_size :: "(bytes \<Rightarrow> int) \<Rightarrow> FilePersister \<Rightarrow> string \<Rightarrow> int" where
  "file_size byte_size ps name =
     (case files ps (filepath_Join (dir ps) name) of None \<Rightarrow> 0 | Some d \<Rightarrow> byte_size d)"

definition RaftStateSize :: "(bytes \<Rightarrow> int) \<Rightarrow> FilePersister \<Rightarrow> int" where
  "RaftStateSize byte_size ps = file_size byte_size ps ''raft-state''"

definition SnapshotSize :: "(bytes \<Rightarrow> int) \<Rightarrow> FilePersister \<Rightarrow> int" where
  "SnapshotSize byte_size ps = file_size byte_size ps ''snapshot''"

text \<open>The system calls of \<^verbatim>\<open>atomicWrite\<close>, each followed by its error return.\<close>

definition atomicWrite :: "FilePersister \<Rightarrow> string \<Rightarrow> bytes \<Rightarrow> os_err option \<times> FilePersister" where
  "atomicWrite ps filename data =
     (let targetPath = filepath_Join (dir ps) filename;
          tempPath = targetPath @ ''.tmp''
      in case os_OpenTrunc ps tempPath of
           (Some e, ps1) \<Rightarrow> (Some e, ps1)
         | (None, ps1) \<Rightarrow>
       (case os_Write ps1 tempPath data of
           (Some e, ps2) \<Rightarrow> (Some e, snd (os_Flush ps2))
         | (None, ps2) \<Rightarrow>
       (case os_Flush ps2 of
           (Some e, ps3) \<Rightarrow> (Some e, snd (os_Flush ps3))
         | (None, ps3) \<Rightarrow>
       (case os_Flush ps3 of
           (Some e, ps4) \<Rightarrow> (Some e, ps4)
         | (None, ps4) \<Rightarrow> os_Rename ps4 tempPath targetPath))))"

definition Save :: "FilePersister \<Rightarrow> bytes \<Rightarrow> bytes \<Rightarrow> os_err option \<times> FilePersister" where
  "Save ps raftState snapshot =
     (case atomicWrite ps ''raft-state'' raftState of
        (Some e, ps1) \<Rightarrow> (Some e, ps1)
      | (None, ps1) \<Rightarrow> atomicWrite ps1 ''snapshot'' snapshot)"

section \<open>Crashes during a save\<close>

text \<open>
  The disk after each of the system calls of \<^verbatim>\<open>atomicWrite\<close> and \<^verbatim>\<open>Save\<close> when
  none of them fails: a crash of the process leaves one of these states.
\<close>

definition atomicWrite_trace :: "FilePersister \<Rightarrow> string \<Rightarrow> bytes \<Rightarrow> FilePersister list" where
  "atomicWrite_trace ps filename data =
     (let targetPath = filepath_Join (dir ps) filename;
          tempPath = targetPath @ ''.tmp'';
          ps1 = snd (os_OpenTrunc ps tempPath);
          ps2 = snd (os_Write ps1 tempPath data);
          ps3 = snd (os_Flush ps2);
          ps4 = snd (os_Flush ps3);
          ps5 = snd (os_Rename ps4 tempPath targetPath)
      in [ps, ps1, ps2, ps3, ps4, ps5])"

definition Save_trace :: "FilePersister \<Rightarrow> bytes \<Rightarrow> bytes \<Rightarrow> FilePersister list" where
  "Save_trace ps raftState snapshot =
     (let tr = atomicWrite_trace ps ''raft-state'' raftState
      in tr @ atomicWrite_trace (last tr) ''snapshot'' snapshot)"

section \<open>MockPersister\<close>

record MockPersister =
  mock_raftState :: bytes
  mock_snapshot :: bytes

definition NewMockPersister :: MockPersister where
  "NewMockPersister = \<lparr>mock_raftState = [], mock_snapshot = []\<rparr>"

definition mock_ReadRaftState :: "MockPersister \<Rightarrow> (os_err + bytes) \<times> MockPersister" where
  "mock_ReadRaftState p = (Inr (mock_raftState p), p)"

definition mock_ReadSnapshot :: "MockPersister \<Rightarrow> (os_err + bytes) \<times> MockPersister" where
  "mock_ReadSnapshot p = (Inr (mock_snapshot p), p)"

definition mock_Save :: "MockPersister \<Rightarrow> bytes \<Rightarrow> bytes \<Rightarrow> os_err option \<times> MockPersister" where
  "mock_Save p raftState snapshot =
     (None, p\<lparr>mock_raftState := raftState, mock_snapshot := snapshot\<rparr>)"

section \<open>The interface\<close>

text \<open>
  What the clients of a persister rely on: on a healthy persister a save
  succeeds, the two values read back are the ones saved last, and reading
  changes nothing.
\<close>

locale persister_iface =
  fixes save :: "'p \<Rightarrow> bytes \<Rightarrow> bytes \<Rightarrow> os_err option \<times> 'p"
    and read_state :: "'p \<Rightarrow> (os_err + bytes) \<times> 'p"
    and read_snapshot :: "'p \<Rightarrow> (os_err + bytes) \<times> 'p"
    and healthy :: "'p \<Rightarrow> bool"
  assumes save_ok: "healthy p \<Longrightarrow> fst (save p rs sn) = None"
    and healthy_save: "healthy p \<Longrightarrow> healthy (snd (save p rs sn))"
    and state_save: "healthy p \<Longrightarrow> fst (read_state (snd (save p rs sn))) = Inr rs"
    and snapshot_save: "healthy p \<Longrightarrow> fst (read_snapshot (snd (save p rs sn))) = Inr sn"
    and read_state_pure: "healthy p \<Longrightarrow> snd (read_state p) = p"
    and read_snapshot_pure: "healthy p \<Longrightarrow> snd (read_snapshot p) = p"
    and read_snapshot_ok: "healthy p \<Longrightarrow> \<exists>d. fst (read_snapshot p) = Inr d"
begin

text \<open>
  The pattern of \<^verbatim>\<open>Raft.persist\<close>: read the snapshot, then save the new state with
  the snapshot that was read.
\<close>

lemma resave_keeps_snapshot:
  assumes "healthy p"
  shows "fst (read_snapshot (snd (save (snd (read_snapshot p)) rs
           (snapshot_or_nil (fst (read_snapshot p)))))) = fst (read_snapshot p)"
proof -
  obtain d where "fst (read_snapshot p) = Inr d"
    using read_snapshot_ok [OF assms] by blast
  then show ?thesis
    by (simp add: assms snapshot_save read_snapshot_pure snapshot_or_nil_def)
qed

lemma resave_state:
  assumes "healthy p"
  shows "fst (read_state (snd (save (snd (read_snapshot p)) rs
           (snapshot_or_nil (fst (read_snapshot p)))))) = Inr rs"
  by (simp add: assms state_save read_snapshot_pure)

lemma last_save_wins:
  assumes "healthy p"
  shows "fst (read_state (snd (save (snd (save p rs sn)) rs' sn'))) = Inr rs'"
    and "fst (read_snapshot (snd (save (snd (save p rs sn)) rs' sn'))) = Inr sn'"
  by (simp_all add: assms healthy_save state_save snapshot_save)

end

interpretation mock: persister_iface mock_Save mock_ReadRaftState mock_ReadSnapshot "\<lambda>_. True"
  by unfold_locales (auto simp: mock_Save_def mock_ReadRaftState_def mock_ReadSnapshot_def)

section \<open>FilePersister on a disk without errors\<close>

definition no_faults :: "FilePersister \<Rightarrow> bool" where
  "no_faults ps \<longleftrightarrow> plan ps = []"

definition state_path :: "FilePersister \<Rightarrow> string" where
  "state_path ps = filepath_Join (dir ps) ''raft-state''"

definition snapshot_path :: "FilePersister \<Rightarrow> string" where
  "snapshot_path ps = filepath_Join (dir ps) ''snapshot''"

lemma paths_distinct [simp]:
  "filepath_Join d ''raft-state'' \<noteq> filepath_Join d ''snapshot''"
  "filepath_Join d ''snapshot'' \<noteq> filepath_Join d ''raft-state''"
  "filepath_Join d ''raft-state'' \<noteq> filepath_Join d ''snapshot'' @ ''.tmp''"
  "filepath_Join d ''snapshot'' @ ''.tmp'' \<noteq> filepath_Join d ''raft-state''"
  "filepath_Join d ''snapshot'' \<noteq> filepath_Join d ''raft-state'' @ ''.tmp''"
  "filepath_Join d ''raft-state'' @ ''.tmp'' \<noteq> filepath_Join d ''snapshot''"
  "filepath_Join d ''raft-state'' @ ''.tmp'' \<noteq> filepath_Join d ''snapshot'' @ ''.tmp''"
  by (simp_all add: filepath_Join_def)

lemmas os_defs = os_next_def os_ReadFile_def os_OpenTrunc_def os_Write_def os_Flush_def
  os_Rename_def

lemma os_next_plan:
  "plan (snd (os_next ps)) = tl (plan ps)" "files (snd (os_next ps)) = files ps"
  "dir (snd (os_next ps)) = dir ps"
  by (auto simp: os_next_def split: list.splits)

lemma atomicWrite_ok:
  assumes "no_faults ps"
  shows "atomicWrite ps f data =
    (None, ps\<lparr>files := (files ps)(filepath_Join (dir ps) f \<mapsto> data,
       filepath_Join (dir ps) f @ ''.tmp'' := None)\<rparr>)"
  using assms by (simp add: atomicWrite_def no_faults_def os_defs Let_def fun_upd_twist)

definition saved_files :: "FilePersister \<Rightarrow> bytes \<Rightarrow> bytes \<Rightarrow> string \<rightharpoonup> bytes" where
  "saved_files ps rs sn =
     (files ps)(filepath_Join (dir ps) ''raft-state'' \<mapsto> rs,
        filepath_Join (dir ps) ''raft-state'' @ ''.tmp'' := None,
        filepath_Join (dir ps) ''snapshot'' \<mapsto> sn,
        filepath_Join (dir ps) ''snapshot'' @ ''.tmp'' := None)"

lemma Save_ok:
  assumes "no_faults ps"
  shows "Save ps rs sn = (None, ps\<lparr>files := saved_files ps rs sn\<rparr>)"
proof -
  have "no_faults (ps\<lparr>files := (files ps)(filepath_Join (dir ps) ''raft-state'' \<mapsto> rs,
       filepath_Join (dir ps) ''raft-state'' @ ''.tmp'' := None)\<rparr>)"
    using assms by (simp add: no_faults_def)
  from atomicWrite_ok [OF this] atomicWrite_ok [OF assms] show ?thesis
    by (simp add: Save_def saved_files_def)
qed

lemma saved_files_paths:
  "saved_files ps rs sn (state_path ps) = Some rs"
  "saved_files ps rs sn (snapshot_path ps) = Some sn"
  by (simp_all add: saved_files_def state_path_def snapshot_path_def)

lemma read_files:
  assumes "no_faults ps"
  shows "ReadRaftState ps = (Inr (case files ps (state_path ps) of None \<Rightarrow> [] | Some d \<Rightarrow> d), ps)"
    and "ReadSnapshot ps = (Inr (case files ps (snapshot_path ps) of None \<Rightarrow> [] | Some d \<Rightarrow> d), ps)"
  using assms
  by (auto simp: ReadRaftState_def ReadSnapshot_def os_defs no_faults_def state_path_def
      snapshot_path_def split: option.splits)

interpretation disk: persister_iface Save ReadRaftState ReadSnapshot no_faults
proof
  fix p :: FilePersister and rs sn :: bytes
  assume h: "no_faults p"
  have h': "no_faults (p\<lparr>files := saved_files p rs sn\<rparr>)"
    using h by (simp add: no_faults_def)
  show "fst (Save p rs sn) = None" "no_faults (snd (Save p rs sn))"
    using h' by (simp_all add: Save_ok [OF h])
  show "fst (ReadRaftState (snd (Save p rs sn))) = Inr rs"
    "fst (ReadSnapshot (snd (Save p rs sn))) = Inr sn"
    using saved_files_paths [of p rs sn]
    by (simp_all add: Save_ok [OF h] read_files [OF h'] state_path_def snapshot_path_def)
  show "snd (ReadRaftState p) = p" "snd (ReadSnapshot p) = p"
    "\<exists>d. fst (ReadSnapshot p) = Inr d"
    by (simp_all add: read_files [OF h])
qed

section \<open>Failures and crashes\<close>

text \<open>
  For every plan of failures: \<^verbatim>\<open>atomicWrite\<close> touches its temporary file and its
  target only, and the target changes exactly when the call reports success.
\<close>

lemma atomicWrite_frame:
  assumes "path \<noteq> filepath_Join (dir ps) f" "path \<noteq> filepath_Join (dir ps) f @ ''.tmp''"
  shows "files (snd (atomicWrite ps f data)) path = files ps path"
  using assms
  by (auto simp: atomicWrite_def os_defs Let_def split: list.splits os_outcome.splits option.splits)

lemma atomicWrite_dir: "dir (snd (atomicWrite ps f data)) = dir ps"
  by (auto simp: atomicWrite_def os_defs Let_def split: list.splits os_outcome.splits option.splits)

lemma atomicWrite_target:
  "files (snd (atomicWrite ps f data)) (filepath_Join (dir ps) f) =
     (if fst (atomicWrite ps f data) = None then Some data
      else files ps (filepath_Join (dir ps) f))"
  by (auto simp: atomicWrite_def os_defs Let_def split: list.splits os_outcome.splits option.splits)

lemma atomicWrite_trace_files:
  assumes "no_faults ps" "q \<in> set (atomicWrite_trace ps f data)"
  shows "no_faults q \<and> dir q = dir ps
    \<and> (\<forall>path. path \<noteq> filepath_Join (dir ps) f \<and> path \<noteq> filepath_Join (dir ps) f @ ''.tmp''
           \<longrightarrow> files q path = files ps path)
    \<and> files q (filepath_Join (dir ps) f) \<in> {files ps (filepath_Join (dir ps) f), Some data}"
  using assms by (auto simp: atomicWrite_trace_def os_defs Let_def no_faults_def)

lemma atomicWrite_trace_last:
  assumes "no_faults ps"
  shows "last (atomicWrite_trace ps f data) = snd (atomicWrite ps f data)"
  using assms by (simp add: atomicWrite_def atomicWrite_trace_def os_defs Let_def no_faults_def)

lemma Save_trace_last:
  assumes "no_faults ps"
  shows "last (Save_trace ps rs sn) = snd (Save ps rs sn)"
proof -
  have ne: "atomicWrite_trace q f data \<noteq> []" for q f data
    by (simp add: atomicWrite_trace_def Let_def)
  have "no_faults (snd (atomicWrite ps ''raft-state'' rs))"
    using assms by (simp add: atomicWrite_ok [OF assms] no_faults_def)
  with assms show ?thesis
    by (simp add: Save_trace_def Save_def Let_def ne atomicWrite_trace_last
        atomicWrite_ok [OF assms] split: prod.splits option.splits)
qed

definition saved_pair :: "FilePersister \<Rightarrow> bytes option \<times> bytes option" where
  "saved_pair ps = (files ps (state_path ps), files ps (snapshot_path ps))"

lemma Save_trace_pairs:
  assumes "no_faults ps" "q \<in> set (Save_trace ps rs sn)"
  shows "saved_pair q \<in> {saved_pair ps, (Some rs, snd (saved_pair ps)), (Some rs, Some sn)}"
proof -
  let ?p1 = "snd (atomicWrite ps ''raft-state'' rs)"
  have p1: "no_faults ?p1" "dir ?p1 = dir ps" "files ?p1 (state_path ps) = Some rs"
      "files ?p1 (snapshot_path ps) = files ps (snapshot_path ps)"
    using assms(1)
    by (simp_all add: atomicWrite_ok no_faults_def state_path_def snapshot_path_def)
  from assms(2) consider (fst) "q \<in> set (atomicWrite_trace ps ''raft-state'' rs)"
    | (snd) "q \<in> set (atomicWrite_trace ?p1 ''snapshot'' sn)"
    by (auto simp: Save_trace_def Let_def atomicWrite_trace_last [OF assms(1)])
  then show ?thesis
  proof cases
    case fst
    from atomicWrite_trace_files [OF assms(1) fst] show ?thesis
      by (auto simp: saved_pair_def state_path_def snapshot_path_def)
  next
    case snd
    from atomicWrite_trace_files [OF p1(1) snd] p1 show ?thesis
      by (auto simp: saved_pair_def state_path_def snapshot_path_def)
  qed
qed

lemma Save_trace_torn:
  assumes "no_faults ps"
  shows "\<exists>q \<in> set (Save_trace ps rs sn). saved_pair q = (Some rs, snd (saved_pair ps))"
proof
  let ?p1 = "snd (atomicWrite ps ''raft-state'' rs)"
  show "?p1 \<in> set (Save_trace ps rs sn)"
    unfolding Save_trace_def Let_def set_append
    by (metis (no_types, lifting) UnI1 assms atomicWrite_trace_def atomicWrite_trace_last
        last_in_set list.discI)
  show "saved_pair ?p1 = (Some rs, snd (saved_pair ps))"
    using assms by (simp add: atomicWrite_ok saved_pair_def state_path_def snapshot_path_def)
qed

end
