(* ===== verification/Raft_Node.thy ===== *)
theory Raft_Node
  imports Persister
begin

text \<open>
  One Raft server: the struct \<^verbatim>\<open>Raft\<close> of \<^verbatim>\<open>kvraft/internal/raft/raft.go\<close> and all
  its methods (\<^verbatim>\<open>raft.go\<close>, \<^verbatim>\<open>storage.go\<close>, \<^verbatim>\<open>log_replication.go\<close>,
  \<^verbatim>\<open>ticker.go\<close>). Every RPC handler, reply handler and timer branch runs with
  \<^verbatim>\<open>rf.mu\<close> held from start to end, so each is one atomic function on the state.
  \<open>None\<close> is a run-time panic or a \<^verbatim>\<open>logger.Fatal\<close>.

  Timers, condition variables and goroutines are effects: a handler appends what
  it resets, signals and starts to \<open>eff\<close>, in order. Log lines and metrics are
  left out. The counter \<^verbatim>\<open>grantedVotes\<close> of an election is shared by the
  goroutines of that election through a pointer; \<open>grantedVotes\<close> is the heap
  of these counters and a pointer is an index into it.
\<close>

section \<open>State\<close>

datatype NodeState = StateFollower | StateCandidate | StateLeader

datatype effect =
    ResetElectionTimer
  | ResetHeartbeatTimer
  | SignalApplier
  | SignalReplication int
  | GoReplicateToPeer int
  | GoRequestVoteFromPeer int RequestVoteArgs int

record Raft =
  peers :: nat
  persister :: FilePersister
  me :: int
  dead :: int
  state :: NodeState
  currentTerm :: int
  votedFor :: int
  currentLeader :: int
  logs :: "Entry list"
  commitIndex :: int
  lastApplied :: int
  nextIndex :: "int list"
  matchIndex :: "int list"
  lastIncludedIndex :: int
  lastIncludedTerm :: int
  electionTimeoutMin :: int
  electionTimeoutRand :: int
  heartbeatTimeout :: int
  grantedVotes :: "int list"
  eff :: "effect list"

definition emit :: "Raft \<Rightarrow> effect \<Rightarrow> Raft" where
  "emit rf e = rf\<lparr>eff := eff rf @ [e]\<rparr>"

section \<open>raft.go: log access\<close>

definition State :: "Raft \<Rightarrow> int \<times> bool" where
  "State rf = (currentTerm rf, state rf = StateLeader)"

definition Leader :: "Raft \<Rightarrow> int" where
  "Leader rf = currentLeader rf"

definition PersistBytes :: "(bytes \<Rightarrow> int) \<Rightarrow> Raft \<Rightarrow> int" where
  "PersistBytes byte_size rf = RaftStateSize byte_size (persister rf)"

definition getLastLog :: "Raft \<Rightarrow> Entry option" where
  "getLastLog rf = idx (logs rf) (int (length (logs rf)) - 1)"

definition getLen :: "Raft \<Rightarrow> int" where
  "getLen rf = lastIncludedIndex rf + int (length (logs rf))"

definition getPhysicalIndex :: "Raft \<Rightarrow> int \<Rightarrow> int" where
  "getPhysicalIndex rf index = index - lastIncludedIndex rf"

definition getLog :: "Raft \<Rightarrow> int \<Rightarrow> Entry option" where
  "getLog rf index = idx (logs rf) (getPhysicalIndex rf index)"

definition hasEntryAt :: "Raft \<Rightarrow> int \<Rightarrow> int \<Rightarrow> bool option" where
  "hasEntryAt rf index tm =
     (if index < lastIncludedIndex rf \<or> index \<ge> getLen rf then Some False
      else do { e \<leftarrow> getLog rf index; Some (Term e = tm) })"

definition killed :: "Raft \<Rightarrow> bool" where
  "killed rf \<longleftrightarrow> dead rf = 1"

definition signalApplier :: "Raft \<Rightarrow> Raft" where
  "signalApplier rf = emit rf SignalApplier"

definition Kill :: "Raft \<Rightarrow> Raft" where
  "Kill rf = signalApplier (rf\<lparr>dead := 1\<rparr>)"

section \<open>Timers\<close>

text \<open>
  \<^verbatim>\<open>rand.Int63()\<close> is the argument \<open>r\<close>, a non-negative number. Go's \<^verbatim>\<open>%\<close> panics
  on a zero divisor and ignores the divisor's sign.
\<close>

definition randomizedElectionTimeout :: "Raft \<Rightarrow> int \<Rightarrow> int option" where
  "randomizedElectionTimeout rf r =
     (if electionTimeoutRand rf = 0 then None
      else Some (electionTimeoutMin rf + r mod \<bar>electionTimeoutRand rf\<bar>))"

definition stableHeartbeatTimeout :: "Raft \<Rightarrow> int" where
  "stableHeartbeatTimeout rf = heartbeatTimeout rf"

definition resetElectionTimer :: "Raft \<Rightarrow> Raft option" where
  "resetElectionTimer rf =
     (if electionTimeoutRand rf = 0 then None else Some (emit rf ResetElectionTimer))"

definition resetHeartbeatTimer :: "Raft \<Rightarrow> Raft" where
  "resetHeartbeatTimer rf = emit rf ResetHeartbeatTimer"

section \<open>storage.go: persistent state\<close>

definition encodeState :: "Raft \<Rightarrow> bytes" where
  "encodeState rf =
     [GobInt (currentTerm rf), GobInt (votedFor rf), GobEntries (logs rf),
      GobInt (lastIncludedIndex rf), GobInt (lastIncludedTerm rf)]"

text \<open>\<^verbatim>\<open>rf.persister.Save(...)\<close> followed by \<^verbatim>\<open>Fatal\<close> on an error.\<close>

definition save_or_fatal :: "Raft \<Rightarrow> bytes \<Rightarrow> Raft option" where
  "save_or_fatal rf snapshot =
     (case Save (persister rf) (encodeState rf) snapshot of
        (None, ps) \<Rightarrow> Some (rf\<lparr>persister := ps\<rparr>)
      | (Some _, _) \<Rightarrow> None)"

definition persist :: "Raft \<Rightarrow> Raft option" where
  "persist rf =
     (if killed rf then Some rf
      else let (r, ps) = ReadSnapshot (persister rf)
           in save_or_fatal (rf\<lparr>persister := ps\<rparr>) (snapshot_or_nil r))"

definition readPersist :: "Raft \<Rightarrow> os_err + bytes \<Rightarrow> Raft option" where
  "readPersist rf res =
     (case res of
        Inl _ \<Rightarrow> None
      | Inr data \<Rightarrow>
          if data = [] then Some rf
          else do {
            (ct, r1) \<leftarrow> gob_decode_int data;
            (vf, r2) \<leftarrow> gob_decode_int r1;
            (ls, r3) \<leftarrow> gob_decode_entries r2;
            (lii, r4) \<leftarrow> gob_decode_int r3;
            (lit, r5) \<leftarrow> gob_decode_int r4;
            let rf1 = rf\<lparr>currentTerm := ct, votedFor := vf, logs := ls,
                         lastIncludedIndex := lii, lastIncludedTerm := lit\<rparr>;
            let rf2 = (if lii > commitIndex rf1 then rf1\<lparr>commitIndex := lii\<rparr> else rf1);
            Some (if lii > lastApplied rf2 then rf2\<lparr>lastApplied := lii\<rparr> else rf2)
          })"

definition getFirstLog :: "Raft \<Rightarrow> Entry option" where
  "getFirstLog rf = idx (logs rf) 0"

definition Snapshot :: "Raft \<Rightarrow> int \<Rightarrow> bytes \<Rightarrow> Raft option" where
  "Snapshot rf index snapshot =
     (if index \<le> lastIncludedIndex rf \<or> index > commitIndex rf then Some rf
      else do {
        ls \<leftarrow> slice_from (logs rf) (getPhysicalIndex rf index);
        let rf1 = rf\<lparr>logs := ls, lastIncludedIndex := index\<rparr>;
        first \<leftarrow> getFirstLog rf1;
        let rf2 = rf1\<lparr>lastIncludedTerm := Term first\<rparr>;
        save_or_fatal rf2 snapshot
      })"

definition truncateLogWithSnapshot :: "Raft \<Rightarrow> int \<Rightarrow> int \<Rightarrow> Raft option" where
  "truncateLogWithSnapshot rf index tm =
     do {
       keep \<leftarrow> (if index < getLen rf
                then do { e \<leftarrow> getLog rf index; Some (Term e = tm) } else Some False);
       if keep
       then do { ls \<leftarrow> slice_from (logs rf) (getPhysicalIndex rf index);
                 Some (rf\<lparr>logs := ls\<rparr>) }
       else Some (rf\<lparr>logs := [\<lparr>Index = index, Term = tm, Command = AnyNil\<rparr>]\<rparr>)
     }"

definition InstallSnapshot ::
  "Raft \<Rightarrow> InstallSnapshotArgs \<Rightarrow> (Raft \<times> InstallSnapshotReply) option" where
  "InstallSnapshot rf args =
     (let reply = \<lparr>isr_Term = currentTerm rf\<rparr>
      in if isa_Term args < currentTerm rf then Some (rf, reply)
         else do {
           rf1 \<leftarrow> (if isa_Term args > currentTerm rf
                   then persist (rf\<lparr>currentTerm := isa_Term args, votedFor := -1\<rparr>)
                   else Some rf);
           let rf2 = rf1\<lparr>currentLeader := isa_LeaderId args\<rparr>;
           let rf3 = (if state rf2 \<noteq> StateFollower then rf2\<lparr>state := StateFollower\<rparr> else rf2);
           rf4 \<leftarrow> resetElectionTimer rf3;
           if isa_LastIncludedIndex args \<le> lastIncludedIndex rf4 then Some (rf4, reply)
           else do {
             rf5 \<leftarrow> truncateLogWithSnapshot rf4 (isa_LastIncludedIndex args)
                                               (isa_LastIncludedTerm args);
             let rf6 = rf5\<lparr>lastIncludedIndex := isa_LastIncludedIndex args,
                           lastIncludedTerm := isa_LastIncludedTerm args\<rparr>;
             let rf7 = (if isa_LastIncludedIndex args > commitIndex rf6
                        then rf6\<lparr>commitIndex := isa_LastIncludedIndex args\<rparr> else rf6);
             rf8 \<leftarrow> save_or_fatal rf7 (isa_Data args);
             Some (signalApplier rf8, reply)
           }
         })"

definition genInstallSnapshotArgs :: "Raft \<Rightarrow> InstallSnapshotArgs \<times> Raft" where
  "genInstallSnapshotArgs rf =
     (let (r, ps) = ReadSnapshot (persister rf)
      in (\<lparr>isa_Term = currentTerm rf, isa_LeaderId = me rf,
           isa_LastIncludedIndex = lastIncludedIndex rf,
           isa_LastIncludedTerm = lastIncludedTerm rf, isa_Data = snapshot_or_nil r\<rparr>,
          rf\<lparr>persister := ps\<rparr>))"

section \<open>raft.go: stepping down, applying\<close>

definition handleHigherTerm :: "Raft \<Rightarrow> int \<Rightarrow> (bool \<times> Raft) option" where
  "handleHigherTerm rf tm =
     (if tm > currentTerm rf
      then do {
        rf1 \<leftarrow> persist (rf\<lparr>currentTerm := tm, votedFor := -1, state := StateFollower\<rparr>);
        rf2 \<leftarrow> resetElectionTimer rf1;
        Some (True, rf2)
      }
      else Some (False, rf))"

text \<open>
  One round of the loop of \<^verbatim>\<open>applier\<close>: the messages it sends on \<^verbatim>\<open>applyCh\<close>, in
  order, after it has released the lock. While \<^verbatim>\<open>lastApplied >= commitIndex\<close> it
  waits, which is the round that does nothing.
\<close>

definition applier :: "Raft \<Rightarrow> (ApplyMsg list \<times> Raft) option" where
  "applier rf =
     (if killed rf \<or> lastApplied rf \<ge> commitIndex rf then Some ([], rf)
      else if lastApplied rf < lastIncludedIndex rf
      then let (r, ps) = ReadSnapshot (persister rf);
               msg = zero_ApplyMsg\<lparr>SnapshotValid := True, am_Snapshot := snapshot_or_nil r,
                       SnapshotTerm := lastIncludedTerm rf,
                       SnapshotIndex := lastIncludedIndex rf\<rparr>
           in Some ([msg], rf\<lparr>persister := ps, lastApplied := lastIncludedIndex rf\<rparr>)
      else do {
        let start = lastApplied rf + 1;
        let limit = commitIndex rf;
        entries \<leftarrow> slice (logs rf) (getPhysicalIndex rf start) (getPhysicalIndex rf limit + 1);
        Some (map (\<lambda>entry. zero_ApplyMsg\<lparr>CommandValid := True, am_Command := Command entry,
                             CommandIndex := Index entry\<rparr>) entries,
              rf\<lparr>lastApplied := limit\<rparr>)
      })"

section \<open>log_replication.go: the leader's side\<close>

definition signalReplication :: "Raft \<Rightarrow> int \<Rightarrow> Raft option" where
  "signalReplication rf peer =
     (if 0 \<le> peer \<and> peer < int (peers rf) then Some (emit rf (SignalReplication peer)) else None)"

definition peer_range :: "Raft \<Rightarrow> int list" where
  "peer_range rf = map int [0..<peers rf]"

definition signalBroadcastReplication :: "Raft \<Rightarrow> bool \<Rightarrow> Raft" where
  "signalBroadcastReplication rf isHeartbeat =
     foldl (\<lambda>r peer. if peer = me rf then r
                     else if isHeartbeat then emit r (GoReplicateToPeer peer)
                     else emit r (SignalReplication peer)) rf (peer_range rf)"

definition needsReplication :: "Raft \<Rightarrow> int \<Rightarrow> bool option" where
  "needsReplication rf peer =
     (if state rf \<noteq> StateLeader then Some False
      else do {
        m \<leftarrow> idx (matchIndex rf) peer;
        lastLog \<leftarrow> getLastLog rf;
        Some (m < Index lastLog)
      })"

definition genAppendEntriesArgs :: "Raft \<Rightarrow> int \<Rightarrow> AppendEntriesArgs option" where
  "genAppendEntriesArgs rf prevLogIndex =
     do {
       let pPrev = getPhysicalIndex rf prevLogIndex;
       entries \<leftarrow> slice_from (logs rf) (pPrev + 1);
       prev \<leftarrow> idx (logs rf) pPrev;
       Some \<lparr>aea_Term = currentTerm rf, aea_LeaderId = me rf, aea_PrevLogIndex = prevLogIndex,
             aea_PrevLogTerm = Term prev, aea_Entries = entries,
             aea_LeaderCommit = commitIndex rf\<rparr>
     }"

text \<open>
  \<^verbatim>\<open>replicateToPeer\<close> reads the state under the lock, sends one RPC without it, and
  handles the reply in a second critical section (\<open>handleAppendEntriesReply\<close>,
  \<open>handleInstallSnapshotReply\<close>). This is its first critical section.
\<close>

datatype rpc_request =
    NoRpc
  | SendInstallSnapshot InstallSnapshotArgs
  | SendAppendEntries AppendEntriesArgs

definition replicateToPeer :: "Raft \<Rightarrow> int \<Rightarrow> (rpc_request \<times> Raft) option" where
  "replicateToPeer rf peer =
     (if state rf \<noteq> StateLeader then Some (NoRpc, rf)
      else do {
        next \<leftarrow> idx (nextIndex rf) peer;
        if next \<le> lastIncludedIndex rf
        then let (args, rf1) = genInstallSnapshotArgs rf in Some (SendInstallSnapshot args, rf1)
        else do {
          args \<leftarrow> genAppendEntriesArgs rf (next - 1);
          Some (SendAppendEntries args, rf)
        }
      })"

text \<open>
  \<^verbatim>\<open>for i := startSearch; i > rf.lastIncludedIndex; i--\<close> with the return inside the
  loop; the result \<open>-1\<close> is the fall-through.
\<close>

function findLastIndexOfTerm :: "Raft \<Rightarrow> int \<Rightarrow> int \<Rightarrow> int option" where
  "findLastIndexOfTerm rf tm i =
     (if i > lastIncludedIndex rf
      then do {
        e \<leftarrow> getLog rf i;
        if Term e = tm then Some i else findLastIndexOfTerm rf tm (i - 1)
      }
      else Some (-1))"
  by pat_completeness auto
termination
  by (relation "measure (\<lambda>(rf, tm, i). nat (i - lastIncludedIndex rf))") auto

declare findLastIndexOfTerm.simps [simp del]

definition resolveConflict ::
  "Raft \<Rightarrow> int \<Rightarrow> AppendEntriesArgs \<Rightarrow> AppendEntriesReply \<Rightarrow> Raft option" where
  "resolveConflict rf peer args reply =
     (if aea_PrevLogIndex args < lastIncludedIndex rf then signalReplication rf peer
      else do {
        next \<leftarrow> (if aer_ConflictTerm reply = -1 then Some (aer_ConflictIndex reply)
                else do {
                  lastIdx \<leftarrow> findLastIndexOfTerm rf (aer_ConflictTerm reply)
                                                    (aea_PrevLogIndex args);
                  Some (if lastIdx > 0 then lastIdx + 1 else aer_ConflictIndex reply)
                });
        ns \<leftarrow> set_idx (nextIndex rf) peer next;
        signalReplication (rf\<lparr>nextIndex := ns\<rparr>) peer
      })"

definition shouldIgnoreReply :: "Raft \<Rightarrow> int \<Rightarrow> int \<Rightarrow> (bool \<times> Raft) option" where
  "shouldIgnoreReply rf argsTerm replyTerm =
     do {
       (isHigher, rf1) \<leftarrow> handleHigherTerm rf replyTerm;
       if isHigher then Some (True, rf1)
       else Some (state rf1 \<noteq> StateLeader \<or> currentTerm rf1 \<noteq> argsTerm, rf1)
     }"

definition advancePeerIndices :: "Raft \<Rightarrow> int \<Rightarrow> AppendEntriesArgs \<Rightarrow> Raft option" where
  "advancePeerIndices rf peer args =
     do {
       let newMatch = aea_PrevLogIndex args + int (length (aea_Entries args));
       m \<leftarrow> idx (matchIndex rf) peer;
       if newMatch > m
       then do {
         ms \<leftarrow> set_idx (matchIndex rf) peer newMatch;
         ns \<leftarrow> set_idx (nextIndex rf) peer (newMatch + 1);
         signalReplication (rf\<lparr>matchIndex := ms, nextIndex := ns\<rparr>) peer
       }
       else Some rf
     }"

definition countNodesWithLogAt :: "Raft \<Rightarrow> int \<Rightarrow> int" where
  "countNodesWithLogAt rf index =
     1 + int (length (filter (\<lambda>(i, mIndex). int i \<noteq> me rf \<and> mIndex \<ge> index)
                        (enumerate 0 (matchIndex rf))))"

function updateCommitLoop :: "Raft \<Rightarrow> int \<Rightarrow> Raft option" where
  "updateCommitLoop rf n =
     (if n > commitIndex rf
      then do {
        e \<leftarrow> getLog rf n;
        if Term e = currentTerm rf \<and> countNodesWithLogAt rf n > int (peers rf) div 2
        then Some (signalApplier (rf\<lparr>commitIndex := n\<rparr>))
        else updateCommitLoop rf (n - 1)
      }
      else Some rf)"
  by pat_completeness auto
termination
  by (relation "measure (\<lambda>(rf, n). nat (n - commitIndex rf))") auto

declare updateCommitLoop.simps [simp del]

definition updateCommitIndex :: "Raft \<Rightarrow> Raft option" where
  "updateCommitIndex rf = updateCommitLoop rf (getLen rf - 1)"

definition handleAppendEntriesReply ::
  "Raft \<Rightarrow> int \<Rightarrow> AppendEntriesArgs \<Rightarrow> AppendEntriesReply \<Rightarrow> Raft option" where
  "handleAppendEntriesReply rf peer args reply =
     do {
       (ignore, rf1) \<leftarrow> shouldIgnoreReply rf (aea_Term args) (aer_Term reply);
       if ignore then Some rf1
       else if \<not> aer_Success reply then resolveConflict rf1 peer args reply
       else do {
         rf2 \<leftarrow> advancePeerIndices rf1 peer args;
         updateCommitIndex rf2
       }
     }"

definition handleInstallSnapshotReply ::
  "Raft \<Rightarrow> int \<Rightarrow> InstallSnapshotArgs \<Rightarrow> InstallSnapshotReply \<Rightarrow> Raft option" where
  "handleInstallSnapshotReply rf peer args reply =
     do {
       (isHigher, rf1) \<leftarrow> handleHigherTerm rf (isr_Term reply);
       if isHigher then Some rf1
       else if state rf1 = StateLeader \<and> currentTerm rf1 = isa_Term args
       then do {
         let newMatch = isa_LastIncludedIndex args;
         let newNext = newMatch + 1;
         n \<leftarrow> idx (nextIndex rf1) peer;
         ns \<leftarrow> (if newNext > n then set_idx (nextIndex rf1) peer newNext
                else Some (nextIndex rf1));
         m \<leftarrow> idx (matchIndex rf1) peer;
         ms \<leftarrow> (if newMatch > m then set_idx (matchIndex rf1) peer newMatch
                else Some (matchIndex rf1));
         signalReplication (rf1\<lparr>nextIndex := ns, matchIndex := ms\<rparr>) peer
       }
       else Some rf1
     }"

section \<open>log_replication.go: the follower's side\<close>

definition advanceCommitIndex :: "Raft \<Rightarrow> int \<Rightarrow> Raft" where
  "advanceCommitIndex rf leaderCommit =
     (if leaderCommit > commitIndex rf
      then let lastIndex = getLen rf - 1
           in signalApplier
                (rf\<lparr>commitIndex := (if leaderCommit < lastIndex then leaderCommit else lastIndex)\<rparr>)
      else rf)"

text \<open>
  \<^verbatim>\<open>for index > rf.lastIncludedIndex && rf.getLog(index).Term == reply.ConflictTerm\<close>
  \<^verbatim>\<open>{ index-- }\<close>
\<close>

function conflictScan :: "Raft \<Rightarrow> int \<Rightarrow> int \<Rightarrow> int option" where
  "conflictScan rf tm index =
     (if index > lastIncludedIndex rf
      then do {
        e \<leftarrow> getLog rf index;
        if Term e = tm then conflictScan rf tm (index - 1) else Some index
      }
      else Some index)"
  by pat_completeness auto
termination
  by (relation "measure (\<lambda>(rf, tm, i). nat (i - lastIncludedIndex rf))") auto

declare conflictScan.simps [simp del]

definition handleConsistencyConflict ::
  "Raft \<Rightarrow> AppendEntriesArgs \<Rightarrow> AppendEntriesReply \<Rightarrow> (bool \<times> AppendEntriesReply) option" where
  "handleConsistencyConflict rf args reply =
     (if aea_PrevLogIndex args < lastIncludedIndex rf
      then Some (True, reply\<lparr>aer_ConflictIndex := lastIncludedIndex rf + 1,
                             aer_ConflictTerm := -1\<rparr>)
      else do {
        has \<leftarrow> hasEntryAt rf (aea_PrevLogIndex args) (aea_PrevLogTerm args);
        if has then Some (False, reply)
        else if aea_PrevLogIndex args \<ge> getLen rf
        then Some (True, reply\<lparr>aer_ConflictIndex := getLen rf, aer_ConflictTerm := -1\<rparr>)
        else do {
          e \<leftarrow> getLog rf (aea_PrevLogIndex args);
          index \<leftarrow> conflictScan rf (Term e) (aea_PrevLogIndex args);
          Some (True, reply\<lparr>aer_ConflictTerm := Term e, aer_ConflictIndex := index + 1\<rparr>)
        }
      })"

fun appendNewEntries :: "Raft \<Rightarrow> Entry list \<Rightarrow> Raft option" where
  "appendNewEntries rf [] = Some rf"
| "appendNewEntries rf (entry # rest) =
     (if Index entry < getLen rf
      then do {
        let pIdx = getPhysicalIndex rf (Index entry);
        old \<leftarrow> idx (logs rf) pIdx;
        if Term old \<noteq> Term entry
        then do {
          kept \<leftarrow> slice_to (logs rf) pIdx;
          Some (rf\<lparr>logs := kept @ (entry # rest)\<rparr>)
        }
        else appendNewEntries rf rest
      }
      else Some (rf\<lparr>logs := logs rf @ (entry # rest)\<rparr>))"

definition AppendEntries ::
  "Raft \<Rightarrow> AppendEntriesArgs \<Rightarrow> (Raft \<times> AppendEntriesReply) option" where
  "AppendEntries rf args =
     (let reply = \<lparr>aer_Term = currentTerm rf, aer_Success = False,
                   aer_ConflictIndex = 0, aer_ConflictTerm = 0\<rparr>
      in if aea_Term args < currentTerm rf then Some (rf, reply)
         else do {
           let rf1 = (if aea_Term args > currentTerm rf
                      then rf\<lparr>currentTerm := aea_Term args, votedFor := -1\<rparr> else rf);
           let rf2 = rf1\<lparr>currentLeader := aea_LeaderId args\<rparr>;
           let rf3 = (if state rf2 \<noteq> StateFollower then rf2\<lparr>state := StateFollower\<rparr> else rf2);
           rf4 \<leftarrow> resetElectionTimer rf3;
           (hasConflict, reply1) \<leftarrow> handleConsistencyConflict rf4 args reply;
           if hasConflict then do { rf5 \<leftarrow> persist rf4; Some (rf5, reply1) }
           else do {
             rf5 \<leftarrow> appendNewEntries rf4 (aea_Entries args);
             let rf6 = advanceCommitIndex rf5 (aea_LeaderCommit args);
             rf7 \<leftarrow> persist rf6;
             Some (rf7, reply1\<lparr>aer_Success := True\<rparr>)
           }
         })"

definition isLogUpToDate :: "Raft \<Rightarrow> int \<Rightarrow> int \<Rightarrow> bool option" where
  "isLogUpToDate rf candidateTerm candidateIndex =
     do {
       lastLog \<leftarrow> getLastLog rf;
       Some (if candidateTerm \<noteq> Term lastLog then candidateTerm > Term lastLog
             else candidateIndex \<ge> Index lastLog)
     }"

definition RequestVote ::
  "Raft \<Rightarrow> RequestVoteArgs \<Rightarrow> (Raft \<times> RequestVoteReply) option" where
  "RequestVote rf args =
     (let reply = \<lparr>rvr_Term = currentTerm rf, rvr_VoteGranted = False\<rparr>
      in if rva_Term args < currentTerm rf then Some (rf, reply)
         else do {
           let rf1 = (if rva_Term args > currentTerm rf
                      then rf\<lparr>state := StateFollower, currentTerm := rva_Term args,
                              votedFor := -1\<rparr>
                      else rf);
           let canVote = (votedFor rf1 = -1 \<or> votedFor rf1 = rva_CandidateId args);
           logUpToDate \<leftarrow> isLogUpToDate rf1 (rva_LastLogTerm args) (rva_LastLogIndex args);
           if canVote \<and> logUpToDate
           then do {
             rf2 \<leftarrow> resetElectionTimer (rf1\<lparr>votedFor := rva_CandidateId args\<rparr>);
             rf3 \<leftarrow> persist rf2;
             Some (rf3, reply\<lparr>rvr_VoteGranted := True\<rparr>)
           }
           else do { rf2 \<leftarrow> persist rf1; Some (rf2, reply) }
         })"

section \<open>raft.go: Start\<close>

definition Start :: "Raft \<Rightarrow> any \<Rightarrow> ((int \<times> int \<times> bool) \<times> Raft) option" where
  "Start rf command =
     (if state rf \<noteq> StateLeader then Some ((-1, -1, False), rf)
      else do {
        let newIndex = getLen rf;
        let newTerm = currentTerm rf;
        let entry = \<lparr>Index = newIndex, Term = newTerm, Command = command\<rparr>;
        rf1 \<leftarrow> persist (rf\<lparr>logs := logs rf @ [entry]\<rparr>);
        Some ((newIndex, newTerm, True), signalBroadcastReplication rf1 False)
      })"

section \<open>ticker.go: elections\<close>

definition genRequestVoteArgs :: "Raft \<Rightarrow> RequestVoteArgs option" where
  "genRequestVoteArgs rf =
     do {
       lastLog \<leftarrow> getLastLog rf;
       Some \<lparr>rva_Term = currentTerm rf, rva_CandidateId = me rf,
             rva_LastLogTerm = Term lastLog, rva_LastLogIndex = Index lastLog\<rparr>
     }"

definition isStillValidCandidate :: "Raft \<Rightarrow> int \<Rightarrow> bool" where
  "isStillValidCandidate rf electionTerm \<longleftrightarrow>
     state rf = StateCandidate \<and> currentTerm rf = electionTerm"

definition startElection :: "Raft \<Rightarrow> Raft option" where
  "startElection rf =
     do {
       rf1 \<leftarrow> persist (rf\<lparr>votedFor := me rf, currentLeader := -1\<rparr>);
       args \<leftarrow> genRequestVoteArgs rf1;
       let addr = int (length (grantedVotes rf1));
       let rf2 = rf1\<lparr>grantedVotes := grantedVotes rf1 @ [1]\<rparr>;
       Some (foldl (\<lambda>r peer. if peer = me rf2 then r
                             else emit r (GoRequestVoteFromPeer peer args addr))
               rf2 (peer_range rf2))
     }"

text \<open>The part of \<^verbatim>\<open>becomeCandidate\<close> up to its first write to disk.\<close>

definition enterCandidate :: "Raft \<Rightarrow> Raft option" where
  "enterCandidate rf =
     persist (rf\<lparr>state := StateCandidate, currentTerm := currentTerm rf + 1\<rparr>)"

definition becomeCandidate :: "Raft \<Rightarrow> Raft option" where
  "becomeCandidate rf =
     do {
       rf1 \<leftarrow> enterCandidate rf;
       rf2 \<leftarrow> startElection rf1;
       resetElectionTimer rf2
     }"

text \<open>The slices \<^verbatim>\<open>nextIndex\<close> and \<^verbatim>\<open>matchIndex\<close> have one element per peer.\<close>

definition becomeLeader :: "Raft \<Rightarrow> Raft option" where
  "becomeLeader rf =
     do {
       let rf1 = rf\<lparr>state := StateLeader, currentLeader := me rf\<rparr>;
       lastLog \<leftarrow> getLastLog rf1;
       let lastIndex = Index lastLog;
       let rf2 = rf1\<lparr>nextIndex := replicate (peers rf1) (lastIndex + 1)\<rparr>;
       ms \<leftarrow> set_idx (replicate (peers rf2) (lastIncludedIndex rf2)) (me rf2) lastIndex;
       let rf3 = signalBroadcastReplication (rf2\<lparr>matchIndex := ms\<rparr>) True;
       Some (resetHeartbeatTimer rf3)
     }"

text \<open>
  \<^verbatim>\<open>requestVoteFromPeer\<close> after its RPC: \<open>None\<close> for the reply is a failed call.
\<close>

definition requestVoteFromPeer ::
  "Raft \<Rightarrow> RequestVoteArgs \<Rightarrow> int \<Rightarrow> RequestVoteReply option \<Rightarrow> Raft option" where
  "requestVoteFromPeer rf args votes res =
     (case res of
        None \<Rightarrow> Some rf
      | Some reply \<Rightarrow>
          if \<not> isStillValidCandidate rf (rva_Term args) then Some rf
          else do {
            (isHigher, rf1) \<leftarrow> handleHigherTerm rf (rvr_Term reply);
            if isHigher then Some rf1
            else if rvr_VoteGranted reply
            then do {
              g \<leftarrow> idx (grantedVotes rf1) votes;
              gs \<leftarrow> set_idx (grantedVotes rf1) votes (g + 1);
              let rf2 = rf1\<lparr>grantedVotes := gs\<rparr>;
              if g + 1 = int (peers rf2) div 2 + 1 then becomeLeader rf2 else Some rf2
            }
            else Some rf1
          })"

definition ticker_election :: "Raft \<Rightarrow> Raft option" where
  "ticker_election rf =
     (if state rf = StateLeader then resetElectionTimer rf else becomeCandidate rf)"

definition ticker_heartbeat :: "Raft \<Rightarrow> Raft" where
  "ticker_heartbeat rf =
     (if state rf = StateLeader
      then resetHeartbeatTimer (signalBroadcastReplication rf True) else rf)"

section \<open>raft.go: Make\<close>

definition fresh_Raft ::
  "nat \<Rightarrow> int \<Rightarrow> FilePersister \<Rightarrow> int \<Rightarrow> int \<Rightarrow> int \<Rightarrow> Raft" where
  "fresh_Raft n i ps electionMin electionRand hb =
     \<lparr>peers = n, persister = ps, me = i, dead = 0, state = StateFollower, currentTerm = 0,
      votedFor = -1, currentLeader = -1, logs = [zero_Entry], commitIndex = 0, lastApplied = 0,
      nextIndex = replicate n 0, matchIndex = replicate n 0, lastIncludedIndex = 0,
      lastIncludedTerm = 0, electionTimeoutMin = electionMin, electionTimeoutRand = electionRand,
      heartbeatTimeout = hb, grantedVotes = [], eff = []\<rparr>"

text \<open>
  \<^verbatim>\<open>Make\<close> arms both timers, so it panics on a zero jitter, and then reads the
  persistent state.
\<close>

definition Make ::
  "nat \<Rightarrow> int \<Rightarrow> FilePersister \<Rightarrow> int \<Rightarrow> int \<Rightarrow> int \<Rightarrow> Raft option" where
  "Make n i ps electionMin electionRand hb =
     (if electionRand = 0 then None
      else let (r, ps1) = ReadRaftState ps
           in readPersist (fresh_Raft n i ps1 electionMin electionRand hb) r)"

end
