(* ===== verification/Raft_Abstract.thy ===== *)
theory Raft_Abstract
  imports Kv_Types
begin

text \<open>
  The consensus protocol at the level of whole logs: the abstract specification
  that the handlers of \<^verbatim>\<open>kvraft/internal/raft\<close> implement. A log is the complete
  list of entries from index 0 (the dummy entry of \<^verbatim>\<open>make([]raft.Entry, 1)\<close>);
  there are no snapshots, no messages and no volatile state. The state keeps the
  history that the safety argument needs: who voted for whom, with which log, the
  log with which each leader was elected, the log of each leader now, and how much
  of a leader's log each server has accepted in that leader's term.

  The invariants lead to the two facts everything else rests on: committed
  prefixes are prefixes of every later leader's log (\<open>leader_completeness\<close>), and
  committed prefixes are totally ordered (\<open>committed_chain\<close>).
\<close>

section \<open>State and steps\<close>

record abs =
  aterm :: "int \<Rightarrow> int"
  avote :: "int \<Rightarrow> int \<Rightarrow> int option"
  avlog :: "int \<Rightarrow> int \<Rightarrow> Entry list option"
  acand :: "int \<Rightarrow> int \<Rightarrow> Entry list option"
  alog :: "int \<Rightarrow> Entry list"
  elog :: "int \<Rightarrow> Entry list option"
  llog :: "int \<Rightarrow> Entry list"
  aleader :: "int \<Rightarrow> int"
  acked :: "int \<Rightarrow> int \<Rightarrow> nat"

text \<open>
  \<open>avote v t\<close> and \<open>avlog v t\<close>: the vote of server \<open>v\<close> in term \<open>t\<close> and its log
  at that moment; \<open>acand c t\<close>: the log with which \<open>c\<close> stood in term \<open>t\<close>;
  \<open>elog t\<close>, \<open>llog t\<close>, \<open>aleader t\<close>: the log of the leader of term \<open>t\<close> when it
  was elected, its log now, and who it is; \<open>acked v t\<close>: how many entries of the
  log of that leader \<open>v\<close> has accepted in term \<open>t\<close>.
\<close>

definition ainit :: abs where
  "ainit = \<lparr>aterm = (\<lambda>_. 0), avote = (\<lambda>_ _. None), avlog = (\<lambda>_ _. None),
     acand = (\<lambda>_ _. None), alog = (\<lambda>_. [zero_Entry]),
     elog = (\<lambda>t. if t = 0 then Some [zero_Entry] else None), llog = (\<lambda>_. [zero_Entry]),
     aleader = (\<lambda>_. -1), acked = (\<lambda>_ _. 0)\<rparr>"

text \<open>The comparison of \<^verbatim>\<open>isLogUpToDate\<close>, on whole logs.\<close>

definition upToDate :: "Entry list \<Rightarrow> Entry list \<Rightarrow> bool" where
  "upToDate C V \<longleftrightarrow> Term (last V) < Term (last C)
     \<or> Term (last V) = Term (last C) \<and> length V \<le> length C"

text \<open>
  What accepting a prefix \<open>M\<close> of the leader's log does to a server's log: nothing
  if it is there already, otherwise \<open>M\<close> becomes the log.
\<close>

definition amerge :: "Entry list \<Rightarrow> Entry list \<Rightarrow> Entry list" where
  "amerge L M = (if prefix M L then L else M)"

abbreviation upd2 :: "('a \<Rightarrow> 'b \<Rightarrow> 'c) \<Rightarrow> 'a \<Rightarrow> 'b \<Rightarrow> 'c \<Rightarrow> ('a \<Rightarrow> 'b \<Rightarrow> 'c)" where
  "upd2 f x y z \<equiv> f(x := (f x)(y := z))"

definition abs_bump :: "abs \<Rightarrow> int \<Rightarrow> int \<Rightarrow> abs" where
  "abs_bump a v t = a\<lparr>aterm := (aterm a)(v := t)\<rparr>"

definition abs_vote :: "abs \<Rightarrow> int \<Rightarrow> int \<Rightarrow> abs" where
  "abs_vote a v c = a\<lparr>avote := upd2 (avote a) v (aterm a v) (Some c),
     avlog := upd2 (avlog a) v (aterm a v)
       (if elog a (aterm a v) = None then Some (alog a v) else None)\<rparr>"

definition abs_stand :: "abs \<Rightarrow> int \<Rightarrow> abs" where
  "abs_stand a c = a\<lparr>acand := upd2 (acand a) c (aterm a c) (Some (alog a c))\<rparr>"

definition abs_elect :: "abs \<Rightarrow> int \<Rightarrow> abs" where
  "abs_elect a c = (let t = aterm a c in
     a\<lparr>elog := (elog a)(t := Some (alog a c)), llog := (llog a)(t := alog a c),
       aleader := (aleader a)(t := c), acked := upd2 (acked a) c t (length (alog a c))\<rparr>)"

definition abs_append :: "abs \<Rightarrow> int \<Rightarrow> Entry \<Rightarrow> abs" where
  "abs_append a p e = (let t = aterm a p; L = alog a p @ [e] in
     a\<lparr>alog := (alog a)(p := L), llog := (llog a)(t := L),
       acked := upd2 (acked a) p t (length L)\<rparr>)"

definition abs_accept :: "abs \<Rightarrow> int \<Rightarrow> Entry list \<Rightarrow> abs" where
  "abs_accept a v M = (let t = aterm a v in
     a\<lparr>alog := (alog a)(v := amerge (alog a v) M),
       acked := upd2 (acked a) v t (max (acked a v t) (length M))\<rparr>)"

inductive astep :: "nat \<Rightarrow> abs \<Rightarrow> abs \<Rightarrow> bool" for N where
  bump: "aterm a v < t \<Longrightarrow> astep N a (abs_bump a v t)"
| stand: "0 < aterm a c \<Longrightarrow> acand a c (aterm a c) = None \<Longrightarrow> avote a c (aterm a c) = None \<Longrightarrow>
    \<forall>e \<in> set (alog a c). Term e < aterm a c \<Longrightarrow>
    astep N a (abs_vote (abs_stand a c) c c)"
| vote: "avote a v (aterm a v) = None \<Longrightarrow> acand a c (aterm a v) = Some C \<Longrightarrow>
    upToDate C (alog a v) \<Longrightarrow> astep N a (abs_vote a v c)"
| elect: "majority N Q \<Longrightarrow> \<forall>q \<in> Q. avote a q (aterm a c) = Some c \<Longrightarrow>
    elog a (aterm a c) = None \<Longrightarrow> acand a c (aterm a c) = Some (alog a c) \<Longrightarrow>
    astep N a (abs_elect a c)"
| append: "0 < aterm a p \<Longrightarrow> elog a (aterm a p) \<noteq> None \<Longrightarrow> aleader a (aterm a p) = p \<Longrightarrow>
    alog a p = llog a (aterm a p) \<Longrightarrow> Term e = aterm a p \<Longrightarrow>
    Index e = int (length (alog a p)) \<Longrightarrow> astep N a (abs_append a p e)"
| accept: "elog a (aterm a v) \<noteq> None \<Longrightarrow> prefix M (llog a (aterm a v)) \<Longrightarrow> M \<noteq> [] \<Longrightarrow>
    astep N a (abs_accept a v M)"

inductive areach :: "nat \<Rightarrow> abs \<Rightarrow> bool" for N where
  init: "areach N ainit"
| step: "areach N a \<Longrightarrow> astep N a b \<Longrightarrow> areach N b"

section \<open>Invariants\<close>

text \<open>
  Every log is, up to each of its entries, the log of the leader of that entry's
  term. This one condition gives the Log Matching property.
\<close>

definition wfl :: "abs \<Rightarrow> Entry list \<Rightarrow> bool" where
  "wfl a X \<longleftrightarrow> X \<noteq> [] \<and> X ! 0 = zero_Entry \<and>
     (\<forall>i < length X. Index (X ! i) = int i \<and> elog a (Term (X ! i)) \<noteq> None \<and>
        i < length (llog a (Term (X ! i))) \<and>
        take (Suc i) X = take (Suc i) (llog a (Term (X ! i))))"

definition terms_below :: "Entry list \<Rightarrow> int \<Rightarrow> bool" where
  "terms_below X t \<longleftrightarrow> (\<forall>e \<in> set X. Term e < t)"

definition terms_upto :: "Entry list \<Rightarrow> int \<Rightarrow> bool" where
  "terms_upto X t \<longleftrightarrow> (\<forall>e \<in> set X. Term e \<le> t)"

definition inv_logs :: "abs \<Rightarrow> bool" where
  "inv_logs a \<longleftrightarrow> (\<forall>v. wfl a (alog a v) \<and> terms_upto (alog a v) (aterm a v) \<and> 0 \<le> aterm a v)"

definition inv_cands :: "abs \<Rightarrow> bool" where
  "inv_cands a \<longleftrightarrow> (\<forall>c t X. acand a c t = Some X \<longrightarrow>
      wfl a X \<and> terms_below X t \<and> t \<le> aterm a c \<and> 0 < t)"

definition inv_leaders :: "abs \<Rightarrow> bool" where
  "inv_leaders a \<longleftrightarrow> elog a 0 = Some [zero_Entry] \<and> llog a 0 = [zero_Entry] \<and>
     (\<forall>t E. elog a t = Some E \<longrightarrow> 0 \<le> t \<and> E \<noteq> [] \<and> prefix E (llog a t) \<and> wfl a (llog a t) \<and>
        terms_upto (llog a t) t \<and> (0 < t \<longrightarrow> terms_below E t) \<and>
        (0 < t \<longrightarrow> (\<forall>i < length (llog a t). length E \<le> i \<longrightarrow> Term (llog a t ! i) = t)))"

definition inv_votes :: "abs \<Rightarrow> bool" where
  "inv_votes a \<longleftrightarrow> (\<forall>v t c. avote a v t = Some c \<longrightarrow> t \<le> aterm a v \<and> 0 < t \<and>
      (elog a t = None \<longrightarrow> avlog a v t \<noteq> None) \<and>
      (\<exists>C. acand a c t = Some C \<and> (\<forall>V. avlog a v t = Some V \<longrightarrow> upToDate C V)))"

definition inv_vlogs :: "abs \<Rightarrow> bool" where
  "inv_vlogs a \<longleftrightarrow> (\<forall>v t V. avlog a v t = Some V \<longrightarrow>
      avote a v t \<noteq> None \<and> wfl a V \<and> terms_upto V t)"

definition inv_elected :: "nat \<Rightarrow> abs \<Rightarrow> bool" where
  "inv_elected N a \<longleftrightarrow> (\<forall>t E. elog a t = Some E \<and> 0 < t \<longrightarrow>
     acand a (aleader a t) t = Some E \<and>
     (\<exists>Q. majority N Q \<and> (\<forall>q \<in> Q. avote a q t = Some (aleader a t) \<and>
           (\<exists>V. avlog a q t = Some V \<and> upToDate E V))))"

definition inv_acks :: "abs \<Rightarrow> bool" where
  "inv_acks a \<longleftrightarrow> (\<forall>v t. acked a v t \<le> length (llog a t) \<and>
     (0 < acked a v t \<longrightarrow> elog a t \<noteq> None \<and> t \<le> aterm a v))"

text \<open>
  \<open>survives a X t u\<close>: the prefix \<open>X\<close> of the log of term \<open>t\<close> was in the log of every
  leader elected between \<open>t\<close> and \<open>u\<close>.
\<close>

definition survives :: "abs \<Rightarrow> Entry list \<Rightarrow> int \<Rightarrow> int \<Rightarrow> bool" where
  "survives a X t u \<longleftrightarrow> (\<forall>s E. t < s \<and> s \<le> u \<and> elog a s = Some E \<longrightarrow> prefix X E)"

text \<open>
  What a server has accepted stays in its log, and was in its log when it voted
  later, as long as the leaders in between had it.
\<close>

definition inv_kept :: "abs \<Rightarrow> bool" where
  "inv_kept a \<longleftrightarrow> (\<forall>v t n. n \<le> acked a v t \<and> survives a (take n (llog a t)) t (aterm a v)
     \<longrightarrow> prefix (take n (llog a t)) (alog a v))"

definition inv_kept_vote :: "abs \<Rightarrow> bool" where
  "inv_kept_vote a \<longleftrightarrow> (\<forall>v t u V n. avlog a v u = Some V \<and> t < u \<and> n \<le> acked a v t \<and>
     survives a (take n (llog a t)) t (u - 1) \<longrightarrow> prefix (take n (llog a t)) V)"

definition ainv :: "nat \<Rightarrow> abs \<Rightarrow> bool" where
  "ainv N a \<longleftrightarrow> inv_logs a \<and> inv_cands a \<and> inv_leaders a \<and> inv_votes a \<and> inv_vlogs a \<and>
     inv_elected N a \<and> inv_acks a \<and> inv_kept a \<and> inv_kept_vote a"

lemmas inv_defs = inv_logs_def inv_cands_def inv_leaders_def inv_votes_def inv_vlogs_def
  inv_elected_def inv_acks_def

section \<open>Extension of the leaders' logs\<close>

definition ext :: "abs \<Rightarrow> abs \<Rightarrow> bool" where
  "ext a b \<longleftrightarrow> (\<forall>t E. elog a t = Some E \<longrightarrow> elog b t = Some E \<and> prefix (llog a t) (llog b t))"

lemma wfl_ext:
  assumes "wfl a X" "ext a b"
  shows "wfl b X"
  unfolding wfl_def
proof (intro conjI allI impI)
  show "X \<noteq> []" "X ! 0 = zero_Entry" using assms(1) by (auto simp: wfl_def)
  fix i assume i: "i < length X"
  let ?t = "Term (X ! i)"
  from assms(1) i have a: "Index (X ! i) = int i" "elog a ?t \<noteq> None" "i < length (llog a ?t)"
    "take (Suc i) X = take (Suc i) (llog a ?t)"
    by (auto simp: wfl_def)
  with assms(2) have b: "elog b ?t \<noteq> None" "prefix (llog a ?t) (llog b ?t)"
    by (auto simp: ext_def)
  show "Index (X ! i) = int i" "elog b ?t \<noteq> None" using a b by auto
  show "i < length (llog b ?t)" using a(3) prefix_length_le [OF b(2)] by simp
  show "take (Suc i) X = take (Suc i) (llog b ?t)"
    using a(3,4) prefix_take_eq [OF b(2), of "Suc i"] by simp
qed

lemma ext_refl: "elog b = elog a \<Longrightarrow> llog b = llog a \<Longrightarrow> ext a b"
  by (simp add: ext_def)

lemma wfl_prefix: "wfl a X \<Longrightarrow> prefix Y X \<Longrightarrow> Y \<noteq> [] \<Longrightarrow> wfl a Y"
proof -
  assume X: "wfl a X" and p: "prefix Y X" and ne: "Y \<noteq> []"
  have "length Y \<le> length X" using p by (rule prefix_length_le)
  moreover have "Y ! i = X ! i" if "i < length Y" for i
    using prefix_nth [OF p that] by simp
  moreover have "take (Suc i) Y = take (Suc i) X" if "i < length Y" for i
    using prefix_take_eq [OF p, of "Suc i"] that by simp
  ultimately show ?thesis
    using X ne unfolding wfl_def by (metis length_greater_0_conv less_le_trans)
qed

text \<open>Log Matching: two logs that agree on the term at an index agree up to it.\<close>

lemma log_matching:
  assumes "wfl a X" "wfl a Y" "i < length X" "i < length Y" "Term (X ! i) = Term (Y ! i)"
  shows "take (Suc i) X = take (Suc i) Y"
  using assms by (auto simp: wfl_def)

section \<open>Committed prefixes\<close>

text \<open>
  A prefix of the log of the leader of term \<open>t\<close> is committed when its last entry is of
  term \<open>t\<close> and a majority has accepted it in term \<open>t\<close>: the condition of
  \<^verbatim>\<open>updateCommitIndex\<close>. \<open>u\<close> bounds the term in which this happened.
\<close>

definition committed :: "nat \<Rightarrow> abs \<Rightarrow> int \<Rightarrow> Entry list \<Rightarrow> bool" where
  "committed N a u P \<longleftrightarrow> P = [zero_Entry] \<or>
     (\<exists>t n Q. t \<le> u \<and> majority N Q \<and> 0 < n \<and> n \<le> length (llog a t) \<and>
        Term (llog a t ! (n - 1)) = t \<and> (\<forall>q \<in> Q. n \<le> acked a q t) \<and> P = take n (llog a t))"

definition cprefix :: "nat \<Rightarrow> abs \<Rightarrow> int \<Rightarrow> Entry list \<Rightarrow> bool" where
  "cprefix N a u X \<longleftrightarrow> (\<exists>P. committed N a u P \<and> prefix X P)"

lemma wfl_last:
  assumes "wfl a X"
  shows "X = take (length X) (llog a (Term (last X)))" "elog a (Term (last X)) \<noteq> None"
    "length X \<le> length (llog a (Term (last X)))"
proof -
  have ne: "X \<noteq> []" using assms by (simp add: wfl_def)
  then have i: "length X - 1 < length X" "Suc (length X - 1) = length X" by auto
  from assms [unfolded wfl_def, THEN conjunct2, THEN conjunct2, rule_format, OF i(1)]
  show "X = take (length X) (llog a (Term (last X)))" "elog a (Term (last X)) \<noteq> None"
    "length X \<le> length (llog a (Term (last X)))"
    using i(2) by (auto simp only: last_conv_nth [OF ne] take_all_iff take_all [OF order_refl])
qed

lemma wfl_prefix_leader:
  assumes "wfl a X" shows "prefix X (llog a (Term (last X)))"
  by (metis assms take_is_prefix wfl_last(1))

lemma terms_upto_mono: "terms_upto X t \<Longrightarrow> t \<le> u \<Longrightarrow> terms_upto X u"
  by (auto simp: terms_upto_def)

lemma terms_upto_prefix: "terms_upto X t \<Longrightarrow> prefix Y X \<Longrightarrow> terms_upto Y t"
  by (auto simp: terms_upto_def dest: set_mono_prefix)

text \<open>Terms do not decrease along a log.\<close>

lemma wfl_term_le_last:
  assumes "wfl a X" "inv_leaders a" "e \<in> set X"
  shows "Term e \<le> Term (last X)"
proof -
  from wfl_last(2) [OF assms(1)] assms(2)
  have "terms_upto (llog a (Term (last X))) (Term (last X))"
    by (auto simp: inv_leaders_def)
  with wfl_prefix_leader [OF assms(1)] assms(3) show ?thesis
    by (metis set_mono_prefix subsetD terms_upto_def)
qed

lemma leader_completeness:
  assumes inv: "ainv N a"
    and com: "majority N Q" "0 < n" "n \<le> length (llog a t)" "Term (llog a t ! (n - 1)) = t"
      "\<forall>q \<in> Q. n \<le> acked a q t"
    and el: "elog a u = Some E" "t < u"
  shows "prefix (take n (llog a t)) E"
  using el
proof (induction "nat u" arbitrary: u E rule: less_induct)
  case less
  let ?P = "take n (llog a t)"
  from inv have L: "inv_leaders a" by (simp add: ainv_def)
  obtain q0 where "q0 \<in> Q"
    using com(1) by (auto simp: majority_def) (metis card.empty ex_in_conv not_less_zero)
  with com(2,5) inv have el_t: "elog a t \<noteq> None"
    by (auto simp: ainv_def inv_acks_def) (metis less_le_trans option.simps(3))
  then have t: "0 \<le> t" "terms_upto (llog a t) t" using L by (auto simp: inv_leaders_def)
  with less.prems have u: "0 < u" by simp
  from inv less.prems u obtain R where R: "majority N R"
    "\<forall>q \<in> R. \<exists>V. avlog a q u = Some V \<and> upToDate E V" and E: "acand a (aleader a u) u = Some E"
    unfolding ainv_def inv_elected_def by blast
  obtain v where "v \<in> Q" "v \<in> R" using majority_inter [OF com(1) R(1)] .
  then obtain V where V: "avlog a v u = Some V" "upToDate E V" "n \<le> acked a v t"
    using R(2) com(5) by blast
  from inv E have wE: "wfl a E" "terms_below E u" by (auto simp: ainv_def inv_cands_def)
  from inv V(1) have wV: "wfl a V" by (auto simp: ainv_def inv_vlogs_def)
  have IH: "prefix ?P F" if "t < s" "s < u" "elog a s = Some F" for s F
    using less.hyps [of s F] that t(1) by simp
  then have "survives a ?P t (u - 1)" by (auto simp: survives_def)
  with inv V(1,3) less.prems(2) have PV: "prefix ?P V"
    unfolding ainv_def inv_kept_vote_def by blast
  have lP: "length ?P = n" using com(3) by simp
  have nV: "n - 1 < length V" "n - 1 < length ?P"
    using prefix_length_le [OF PV] lP com(2) by simp_all
  have tV: "V ! (n - 1) \<in> set V" "Term (V ! (n - 1)) = t"
    using nth_mem [OF nV(1)] prefix_nth [OF PV nV(2)] com(2,4) by simp_all
  have tv: "t \<le> Term (last V)" using wfl_term_le_last [OF wV L tV(1)] tV(2) by simp
  show ?case
  proof (cases "Term (last E) = Term (last V)")
    case True
    with V(2) have "length V \<le> length E" by (simp add: upToDate_def)
    with wfl_prefix_leader [OF wE(1)] wfl_prefix_leader [OF wV] True have "prefix V E"
      using prefix_of_comparable by metis
    with PV show ?thesis by (rule prefix_order.trans)
  next
    case False
    with V(2) tv have lt: "t < Term (last E)" by (simp add: upToDate_def)
    have neE: "E \<noteq> []" using wE(1) by (simp add: wfl_def)
    then have "Term (last E) < u" using wE(2) by (simp add: terms_below_def)
    with IH lt wfl_last(2) [OF wE(1)] obtain F where
      F: "elog a (Term (last E)) = Some F" "prefix ?P F" by blast
    with L have "prefix ?P (llog a (Term (last E)))"
      unfolding inv_leaders_def using prefix_order.trans by blast
    from prefix_comparable [OF this wfl_prefix_leader [OF wE(1)]] show ?thesis
    proof
      assume "prefix E ?P"
      then have "last E \<in> set ?P" using neE by (meson last_in_set set_mono_prefix subsetD)
      then have "Term (last E) \<le> t" using t(2) by (auto simp: terms_upto_def dest: in_set_takeD)
      with lt show ?thesis by simp
    qed
  qed
qed

text \<open>A committed prefix is in the log of every leader of a later (or the same) term.\<close>

lemma committed_in_leader:
  assumes "ainv N a" "committed N a u P" "elog a s = Some E" "u \<le> s"
  shows "prefix P (llog a s)"
proof (cases "P = [zero_Entry]")
  case True
  with assms(1,3) have "llog a s \<noteq> []" "llog a s ! 0 = zero_Entry"
    by (auto simp: ainv_def inv_leaders_def wfl_def)
  with True show ?thesis by (cases "llog a s") auto
next
  case False
  with assms(2) obtain t n Q where c: "t \<le> u" "majority N Q" "0 < n" "n \<le> length (llog a t)"
    "Term (llog a t ! (n - 1)) = t" "\<forall>q \<in> Q. n \<le> acked a q t" "P = take n (llog a t)"
    by (auto simp: committed_def)
  show ?thesis
  proof (cases "t = s")
    case True
    with c show ?thesis by (simp add: take_is_prefix)
  next
    case False
    with c assms(4) have "t < s" by simp
    from leader_completeness [OF assms(1) c(2-6) assms(3) this]
    have "prefix P E" by (simp add: c(7))
    also have "prefix E (llog a s)" using assms(1,3) by (auto simp: ainv_def inv_leaders_def)
    finally show ?thesis .
  qed
qed

lemma committed_cases:
  assumes "ainv N a" "committed N a u P"
  shows "\<exists>t E. elog a t = Some E \<and> prefix P (llog a t) \<and> committed N a t P \<and> (t \<le> u \<or> t = 0)"
proof (cases "P = [zero_Entry]")
  case True
  with assms(1) show ?thesis
    by (intro exI [of _ 0]) (auto simp: ainv_def inv_leaders_def committed_def)
next
  case False
  with assms(2) obtain t n Q where c: "t \<le> u" "majority N Q" "0 < n" "n \<le> length (llog a t)"
    "Term (llog a t ! (n - 1)) = t" "\<forall>q \<in> Q. n \<le> acked a q t" "P = take n (llog a t)"
    by (auto simp: committed_def)
  obtain q0 where "q0 \<in> Q"
    using c(2) by (auto simp: majority_def) (metis card.empty ex_in_conv not_less_zero)
  with c(3,6) assms(1) obtain E where "elog a t = Some E"
    by (auto simp: ainv_def inv_acks_def) (metis less_le_trans option.exhaust)
  with c show ?thesis
    by (intro exI [of _ t] exI [of _ E]) (auto simp: committed_def take_is_prefix)
qed

lemma committed_chain:
  assumes "ainv N a" "committed N a u P" "committed N a u' P'"
  shows "prefix P P' \<or> prefix P' P"
proof -
  obtain t E where t: "elog a t = Some E" "committed N a t P" "prefix P (llog a t)"
    using committed_cases [OF assms(1,2)] by blast
  obtain t' E' where t': "elog a t' = Some E'" "committed N a t' P'" "prefix P' (llog a t')"
    using committed_cases [OF assms(1,3)] by blast
  show ?thesis
  proof (cases "t \<le> t'")
    case True
    from prefix_comparable [OF committed_in_leader [OF assms(1) t(2) t'(1) True] t'(3)]
    show ?thesis .
  next
    case False
    then have "t' \<le> t" by simp
    from prefix_comparable [OF t(3) committed_in_leader [OF assms(1) t'(2) t(1) this]]
    show ?thesis .
  qed
qed

lemma cprefix_chain:
  assumes "ainv N a" "cprefix N a u X" "cprefix N a u' Y"
  shows "prefix X Y \<or> prefix Y X"
proof -
  from assms(2,3) obtain P Q where PQ: "committed N a u P" "prefix X P" "committed N a u' Q"
    "prefix Y Q" by (auto simp: cprefix_def)
  from committed_chain [OF assms(1) PQ(1,3)] PQ(2,4) show ?thesis
    by (metis prefix_comparable prefix_order.trans)
qed

lemma cprefix_in_leader:
  assumes "ainv N a" "cprefix N a u X" "elog a s = Some E" "u \<le> s"
  shows "prefix X (llog a s)"
  using assms committed_in_leader unfolding cprefix_def by (meson prefix_order.trans)

section \<open>Every step keeps the invariants\<close>

lemma wfl_upd [simp]:
  "wfl (a\<lparr>aterm := f1\<rparr>) X = wfl a X" "wfl (a\<lparr>avote := f2\<rparr>) X = wfl a X"
  "wfl (a\<lparr>avlog := f3\<rparr>) X = wfl a X" "wfl (a\<lparr>acand := f4\<rparr>) X = wfl a X"
  "wfl (a\<lparr>alog := f5\<rparr>) X = wfl a X" "wfl (a\<lparr>aleader := f6\<rparr>) X = wfl a X"
  "wfl (a\<lparr>acked := f7\<rparr>) X = wfl a X"
  by (simp_all add: wfl_def)

lemma survives_upd [simp]:
  "survives (a\<lparr>aterm := f1\<rparr>) X = survives a X" "survives (a\<lparr>avote := f2\<rparr>) X = survives a X"
  "survives (a\<lparr>avlog := f3\<rparr>) X = survives a X" "survives (a\<lparr>acand := f4\<rparr>) X = survives a X"
  "survives (a\<lparr>alog := f5\<rparr>) X = survives a X" "survives (a\<lparr>aleader := f6\<rparr>) X = survives a X"
  "survives (a\<lparr>acked := f7\<rparr>) X = survives a X" "survives (a\<lparr>llog := f8\<rparr>) X = survives a X"
  by (simp_all add: survives_def fun_eq_iff)

lemma survives_antimono: "survives a X t u \<Longrightarrow> u' \<le> u \<Longrightarrow> survives a X t u'"
  by (force simp: survives_def)

lemma ainit_ainv: "ainv N ainit"
  by (auto simp: ainv_def ainit_def inv_defs inv_kept_def inv_kept_vote_def wfl_def
      terms_upto_def terms_below_def zero_Entry_def)

lemma ainv_bump:
  assumes inv: "ainv N a" and t: "aterm a v < t"
  shows "ainv N (abs_bump a v t)"
proof -
  have le: "aterm a w \<le> aterm (abs_bump a v t) w" for w
    using t by (simp add: abs_bump_def)
  show ?thesis
    unfolding ainv_def
  proof (intro conjI)
    show "inv_logs (abs_bump a v t)"
      unfolding inv_logs_def
    proof
      fix w
      have w: "wfl a (alog a w)" "terms_upto (alog a w) (aterm a w)" "0 \<le> aterm a w"
        using inv by (simp_all add: ainv_def inv_logs_def)
      then have "terms_upto (alog a w) (aterm (abs_bump a v t) w)"
        using le terms_upto_mono by blast
      with w le [of w] show "wfl (abs_bump a v t) (alog (abs_bump a v t) w) \<and>
          terms_upto (alog (abs_bump a v t) w) (aterm (abs_bump a v t) w) \<and>
          0 \<le> aterm (abs_bump a v t) w"
        by (simp add: abs_bump_def)
    qed
    show "inv_cands (abs_bump a v t)"
      using inv t unfolding ainv_def inv_cands_def
      by (simp add: abs_bump_def) (meson less_imp_le order_trans)
    show "inv_votes (abs_bump a v t)"
      using inv t unfolding ainv_def inv_votes_def
      by (simp add: abs_bump_def) (meson less_imp_le order_trans)
    show "inv_acks (abs_bump a v t)"
      using inv t unfolding ainv_def inv_acks_def
      by (simp add: abs_bump_def) (meson less_imp_le order_trans)
    show "inv_leaders (abs_bump a v t)" "inv_vlogs (abs_bump a v t)"
      "inv_elected N (abs_bump a v t)"
      using inv by (simp_all add: ainv_def inv_defs abs_bump_def)
    show "inv_kept (abs_bump a v t)"
      unfolding inv_kept_def
    proof (intro allI impI, elim conjE)
      fix w s n
      assume n: "n \<le> acked (abs_bump a v t) w s"
        and "survives (abs_bump a v t) (take n (llog (abs_bump a v t) s)) s (aterm (abs_bump a v t) w)"
      then have "survives (abs_bump a v t) (take n (llog (abs_bump a v t) s)) s (aterm a w)"
        using le survives_antimono by blast
      with n inv show "prefix (take n (llog (abs_bump a v t) s)) (alog (abs_bump a v t) w)"
        by (simp add: ainv_def inv_kept_def abs_bump_def)
    qed
    show "inv_kept_vote (abs_bump a v t)"
      using inv by (simp add: ainv_def inv_kept_vote_def abs_bump_def)
  qed
qed

lemma ainv_vote:
  assumes inv: "ainv N a" and none: "avote a v (aterm a v) = None"
    and C: "acand a c (aterm a v) = Some C" "upToDate C (alog a v)"
  shows "ainv N (abs_vote a v c)"
proof -
  let ?b = "abs_vote a v c" and ?t = "aterm a v"
  have nl: "avlog a v ?t = None"
    using inv none by (metis ainv_def inv_vlogs_def not_None_eq)
  show ?thesis
    unfolding ainv_def
  proof (intro conjI)
    show "inv_logs ?b" "inv_cands ?b" "inv_leaders ?b" "inv_acks ?b" "inv_kept ?b"
      using inv by (simp_all add: ainv_def inv_defs inv_kept_def abs_vote_def)
    show "inv_votes ?b"
      using inv C by (auto simp: ainv_def inv_votes_def inv_cands_def abs_vote_def)
    show "inv_vlogs ?b"
      using inv by (auto simp: ainv_def inv_vlogs_def inv_logs_def abs_vote_def)
    show "inv_elected N ?b"
      unfolding inv_elected_def
    proof (intro allI impI)
      fix t E assume "elog ?b t = Some E \<and> 0 < t"
      then have e: "elog a t = Some E" "0 < t" by (simp_all add: abs_vote_def)
      with inv obtain Q where "acand a (aleader a t) t = Some E" "majority N Q"
        and Q: "\<forall>q \<in> Q. avote a q t = Some (aleader a t) \<and> (\<exists>V. avlog a q t = Some V \<and> upToDate E V)"
        unfolding ainv_def inv_elected_def by blast
      moreover have "\<forall>q \<in> Q. avote ?b q t = Some (aleader a t) \<and>
          (\<exists>V. avlog ?b q t = Some V \<and> upToDate E V)"
        using Q none by (auto simp: abs_vote_def)
      moreover have same: "acand ?b = acand a" "aleader ?b = aleader a"
        by (simp_all add: abs_vote_def)
      ultimately show "acand ?b (aleader ?b t) t = Some E \<and> (\<exists>Q. majority N Q \<and>
          (\<forall>q \<in> Q. avote ?b q t = Some (aleader ?b t) \<and> (\<exists>V. avlog ?b q t = Some V \<and> upToDate E V)))"
        unfolding same by blast
    qed
    show "inv_kept_vote ?b"
      unfolding inv_kept_vote_def
    proof (intro allI impI, elim conjE)
      fix w t u V n
      assume V: "avlog ?b w u = Some V" and n: "t < u" "n \<le> acked ?b w t"
        "survives ?b (take n (llog ?b t)) t (u - 1)"
      then have n': "n \<le> acked a w t" "survives a (take n (llog a t)) t (u - 1)"
        by (simp_all add: abs_vote_def)
      show "prefix (take n (llog ?b t)) V"
      proof (cases "w = v \<and> u = ?t")
        case True
        with V have eV: "V = alog a v" "elog a ?t = None"
          by (auto simp: abs_vote_def split: if_splits)
        have "survives a (take n (llog a t)) t ?t"
          unfolding survives_def
        proof (intro allI impI, elim conjE)
          fix s E assume s: "t < s" "s \<le> ?t" "elog a s = Some E"
          with eV(2) have "s \<noteq> ?t" by auto
          with s True have "s \<le> u - 1" by simp
          with s n'(2) show "prefix (take n (llog a t)) E" unfolding survives_def by blast
        qed
        with inv n' True eV show ?thesis by (auto simp: ainv_def inv_kept_def abs_vote_def)
      next
        case False
        with V have "avlog a w u = Some V" by (auto simp: abs_vote_def split: if_splits)
        with inv n n' show ?thesis by (simp add: ainv_def inv_kept_vote_def abs_vote_def)
      qed
    qed
  qed
qed

lemma ainv_stand:
  assumes inv: "ainv N a" and t: "0 < aterm a c" and none: "acand a c (aterm a c) = None"
    and below: "\<forall>e \<in> set (alog a c). Term e < aterm a c"
  shows "ainv N (abs_stand a c)"
proof -
  let ?b = "abs_stand a c"
  have nv: "avote a v (aterm a c) \<noteq> Some c" for v
    using inv none unfolding ainv_def inv_votes_def by (metis option.distinct(1))
  have ne: "aleader a (aterm a c) \<noteq> c" if "elog a (aterm a c) = Some E" for E
    using inv none t that unfolding ainv_def inv_elected_def by (metis option.distinct(1))
  show ?thesis
    unfolding ainv_def
  proof (intro conjI)
    show "inv_logs ?b" "inv_leaders ?b" "inv_vlogs ?b" "inv_acks ?b" "inv_kept ?b"
      "inv_kept_vote ?b"
      using inv by (simp_all add: ainv_def inv_defs inv_kept_def inv_kept_vote_def abs_stand_def)
    show "inv_cands ?b"
      using inv t below
      by (auto simp: ainv_def inv_cands_def inv_logs_def abs_stand_def terms_below_def)
    show "inv_votes ?b"
      using inv nv unfolding ainv_def inv_votes_def by (force simp: abs_stand_def)
    show "inv_elected N ?b"
      using inv ne unfolding ainv_def inv_elected_def by (auto simp: abs_stand_def)
  qed
qed

lemma ainv_elect:
  assumes inv: "ainv N a" and Q: "majority N Q" "\<forall>q \<in> Q. avote a q (aterm a c) = Some c"
    and none: "elog a (aterm a c) = None" and cand: "acand a c (aterm a c) = Some (alog a c)"
  shows "ainv N (abs_elect a c)"
proof -
  let ?b = "abs_elect a c" and ?t = "aterm a c" and ?L = "alog a c"
  note I = inv [unfolded ainv_def]
  have ex: "ext a ?b" using none by (auto simp: ext_def abs_elect_def Let_def)
  have t0: "0 < ?t" "terms_below ?L ?t" using I cand by (auto simp: inv_cands_def)
  have wL: "wfl ?b ?L" using I wfl_ext [OF _ ex] by (simp add: inv_logs_def)
  have acks: "acked ?b w s = (if w = c \<and> s = ?t then length ?L else acked a w s)" for w s
    by (simp add: abs_elect_def Let_def)
  have ll: "llog ?b s = (if s = ?t then ?L else llog a s)" for s
    by (simp add: abs_elect_def Let_def)
  have el: "elog ?b s = (if s = ?t then Some ?L else elog a s)" for s
    by (simp add: abs_elect_def Let_def)
  have same: "aterm ?b = aterm a" "avote ?b = avote a" "avlog ?b = avlog a" "acand ?b = acand a"
    "alog ?b = alog a" by (simp_all add: abs_elect_def Let_def)
  have acked0: "acked a w ?t = 0" for w using I none unfolding inv_acks_def by (metis not_gr_zero)
  have surv: "survives a X s u" if "survives ?b X s u" for X s u
    using that none unfolding survives_def el by (metis option.distinct(1))
  show ?thesis
    unfolding ainv_def
  proof (intro conjI)
    show "inv_logs ?b" "inv_cands ?b" "inv_vlogs ?b"
      using I wfl_ext [OF _ ex] by (auto simp: inv_defs same)
    show "inv_leaders ?b"
      unfolding inv_leaders_def
    proof (intro conjI allI impI)
      show "elog ?b 0 = Some [zero_Entry]" "llog ?b 0 = [zero_Entry]"
        using I t0 by (auto simp: inv_leaders_def el ll)
      fix s E assume s: "elog ?b s = Some E"
      have "0 \<le> s \<and> E \<noteq> [] \<and> prefix E (llog ?b s) \<and> wfl ?b (llog ?b s) \<and>
        terms_upto (llog ?b s) s \<and> (0 < s \<longrightarrow> terms_below E s) \<and>
        (0 < s \<longrightarrow> (\<forall>i < length (llog ?b s). length E \<le> i \<longrightarrow> Term (llog ?b s ! i) = s))"
      proof (cases "s = ?t")
        case True
        have "?L \<noteq> []" "terms_upto ?L ?t"
          using wL t0(2) by (auto simp: wfl_def terms_upto_def terms_below_def less_imp_le)
        with True s t0 wL show ?thesis by (simp add: el ll)
      next
        case False
        with s have "elog a s = Some E" by (simp add: el)
        with I have "0 \<le> s \<and> E \<noteq> [] \<and> prefix E (llog a s) \<and> wfl a (llog a s) \<and>
          terms_upto (llog a s) s \<and> (0 < s \<longrightarrow> terms_below E s) \<and>
          (0 < s \<longrightarrow> (\<forall>i < length (llog a s). length E \<le> i \<longrightarrow> Term (llog a s ! i) = s))"
          by (simp add: inv_leaders_def)
        with False wfl_ext [OF _ ex] show ?thesis by (simp add: ll)
      qed
      then show "0 \<le> s" "E \<noteq> []" "prefix E (llog ?b s)" "wfl ?b (llog ?b s)"
        "terms_upto (llog ?b s) s" "0 < s \<Longrightarrow> terms_below E s"
        "\<And>i. \<lbrakk>0 < s; i < length (llog ?b s); length E \<le> i\<rbrakk> \<Longrightarrow> Term (llog ?b s ! i) = s"
        by auto
    qed
    show "inv_votes ?b"
      using I unfolding inv_votes_def same el by (metis option.distinct(1))
    show "inv_elected N ?b"
      unfolding inv_elected_def
    proof (intro allI impI)
      fix s E assume s: "elog ?b s = Some E \<and> 0 < s"
      have vl: "\<exists>V. avlog a q ?t = Some V \<and> upToDate ?L V" if "q \<in> Q" for q
        using that Q(2) I none cand unfolding inv_votes_def
        by (metis option.exhaust option.inject)
      show "acand ?b (aleader ?b s) s = Some E \<and> (\<exists>Q. majority N Q \<and>
          (\<forall>q \<in> Q. avote ?b q s = Some (aleader ?b s) \<and> (\<exists>V. avlog ?b q s = Some V \<and> upToDate E V)))"
      proof (cases "s = ?t")
        case True
        with s have Ec: "E = ?L" "aleader ?b s = c" by (simp_all add: el abs_elect_def Let_def)
        show ?thesis unfolding same Ec unfolding True using Q vl cand by blast
      next
        case False
        with s I have "acand a (aleader a s) s = Some E \<and> (\<exists>Q. majority N Q \<and>
          (\<forall>q \<in> Q. avote a q s = Some (aleader a s) \<and> (\<exists>V. avlog a q s = Some V \<and> upToDate E V)))"
          by (auto simp: inv_elected_def el)
        moreover from False have "aleader ?b s = aleader a s"
          by (simp add: abs_elect_def Let_def)
        ultimately show ?thesis by (simp add: same)
      qed
    qed
    show "inv_acks ?b"
      using I by (auto simp: inv_acks_def acks ll el same acked0)
    show "inv_kept ?b"
      unfolding inv_kept_def
    proof (intro allI impI, elim conjE)
      fix w s n assume n: "n \<le> acked ?b w s" "survives ?b (take n (llog ?b s)) s (aterm ?b w)"
      show "prefix (take n (llog ?b s)) (alog ?b w)"
      proof (cases "s = ?t")
        case True
        with n acked0 show ?thesis by (auto simp: acks ll same take_is_prefix split: if_splits)
      next
        case False
        with n surv [OF n(2)] I show ?thesis by (simp add: inv_kept_def acks ll same)
      qed
    qed
    show "inv_kept_vote ?b"
      unfolding inv_kept_vote_def
    proof (intro allI impI, elim conjE)
      fix w s u V n assume V: "avlog ?b w u = Some V" "s < u"
        and n: "n \<le> acked ?b w s" "survives ?b (take n (llog ?b s)) s (u - 1)"
      show "prefix (take n (llog ?b s)) V"
      proof (cases "s = ?t")
        case True
        from V I have "u \<le> aterm a w" unfolding inv_vlogs_def inv_votes_def same
          by (metis not_None_eq)
        with True V n acked0 show ?thesis by (auto simp: acks split: if_splits)
      next
        case False
        with V n surv [OF n(2)] I show ?thesis by (simp add: inv_kept_vote_def acks ll same)
      qed
    qed
  qed
qed

lemma ainv_append:
  assumes inv: "ainv N a" and t0: "0 < aterm a p" and el: "elog a (aterm a p) \<noteq> None"
    and lead: "alog a p = llog a (aterm a p)"
    and e: "Term e = aterm a p" "Index e = int (length (alog a p))"
  shows "ainv N (abs_append a p e)"
proof -
  let ?b = "abs_append a p e" and ?t = "aterm a p" and ?L = "alog a p @ [e]"
  note I = inv [unfolded ainv_def]
  have ll: "llog ?b s = (if s = ?t then ?L else llog a s)" for s
    by (simp add: abs_append_def Let_def)
  have acks: "acked ?b w s = (if w = p \<and> s = ?t then length ?L else acked a w s)" for w s
    by (simp add: abs_append_def Let_def)
  have al: "alog ?b w = (if w = p then ?L else alog a w)" for w
    by (simp add: abs_append_def Let_def)
  have same: "aterm ?b = aterm a" "avote ?b = avote a" "avlog ?b = avlog a" "acand ?b = acand a"
    "elog ?b = elog a" "aleader ?b = aleader a" by (simp_all add: abs_append_def Let_def)
  have surv: "survives ?b X s u = survives a X s u" for X s u
    by (simp add: survives_def same)
  have ex: "ext a ?b" using lead by (auto simp: ext_def same ll)
  have wp: "wfl ?b (alog a p)" using I wfl_ext [OF _ ex] by (simp add: inv_logs_def)
  have wL: "wfl ?b ?L"
    unfolding wfl_def
  proof (intro conjI allI impI)
    show "?L \<noteq> []" "?L ! 0 = zero_Entry" using wp by (auto simp: wfl_def nth_append)
    fix i assume "i < length ?L"
    then consider "i < length (alog a p)" | "i = length (alog a p)" by fastforce
    then have "Index (?L ! i) = int i \<and> elog ?b (Term (?L ! i)) \<noteq> None \<and>
        i < length (llog ?b (Term (?L ! i))) \<and>
        take (Suc i) ?L = take (Suc i) (llog ?b (Term (?L ! i)))"
    proof cases
      case 1
      with wp show ?thesis by (simp add: wfl_def nth_append)
    next
      case 2
      with el show ?thesis by (simp add: e ll same)
    qed
    then show "Index (?L ! i) = int i" "elog ?b (Term (?L ! i)) \<noteq> None"
        "i < length (llog ?b (Term (?L ! i)))"
        "take (Suc i) ?L = take (Suc i) (llog ?b (Term (?L ! i)))" by auto
  qed
  have tk: "take n (llog ?b s) = take n (llog a s)" if "n \<le> acked a w s" for n w s
  proof -
    have "n \<le> length (llog a s)" using that I unfolding inv_acks_def by (meson order_trans)
    with lead show ?thesis by (auto simp: ll)
  qed
  show ?thesis
    unfolding ainv_def
  proof (intro conjI)
    show "inv_logs ?b"
      using I wfl_ext [OF _ ex] wL e by (auto simp: inv_logs_def al same terms_upto_def)
    show "inv_cands ?b" "inv_vlogs ?b"
      using I wfl_ext [OF _ ex] by (auto simp: inv_defs same)
    show "inv_votes ?b" "inv_elected N ?b"
      using I by (simp_all add: inv_votes_def inv_elected_def same)
    show "inv_leaders ?b"
      unfolding inv_leaders_def
    proof (intro conjI allI impI)
      show "elog ?b 0 = Some [zero_Entry]" "llog ?b 0 = [zero_Entry]"
        using I t0 by (auto simp: inv_leaders_def same ll)
      fix s E assume "elog ?b s = Some E"
      then have s: "elog a s = Some E" by (simp add: same)
      with I have p: "0 \<le> s" "E \<noteq> []" "prefix E (llog a s)" "wfl ?b (llog a s)"
        "terms_upto (llog a s) s" "0 < s \<longrightarrow> terms_below E s"
        "0 < s \<longrightarrow> (\<forall>i < length (llog a s). length E \<le> i \<longrightarrow> Term (llog a s ! i) = s)"
        using wfl_ext [OF _ ex] by (auto simp: inv_leaders_def)
      show "0 \<le> s" "E \<noteq> []" "0 < s \<Longrightarrow> terms_below E s" using p by auto
      show "prefix E (llog ?b s)" using p(3) lead by (auto simp: ll)
      show "wfl ?b (llog ?b s)" using p(4) wL by (simp add: ll)
      show "terms_upto (llog ?b s) s" using p(5) e lead by (auto simp: ll terms_upto_def)
      fix i assume "0 < s" "i < length (llog ?b s)" "length E \<le> i"
      then show "Term (llog ?b s ! i) = s"
        using p(7) e lead by (auto simp: ll nth_append less_Suc_eq split: if_splits)
    qed
    show "inv_acks ?b"
      unfolding inv_acks_def
    proof (intro allI)
      fix w s
      have "acked a w s \<le> length (llog a s) \<and> (0 < acked a w s \<longrightarrow> elog a s \<noteq> None \<and> s \<le> aterm a w)"
        using I by (simp add: inv_acks_def)
      then show "acked ?b w s \<le> length (llog ?b s) \<and>
          (0 < acked ?b w s \<longrightarrow> elog ?b s \<noteq> None \<and> s \<le> aterm ?b w)"
        using el lead by (auto simp: acks ll same)
    qed
    show "inv_kept ?b"
      unfolding inv_kept_def
    proof (intro allI impI, elim conjE)
      fix w s n assume n: "n \<le> acked ?b w s" "survives ?b (take n (llog ?b s)) s (aterm ?b w)"
      show "prefix (take n (llog ?b s)) (alog ?b w)"
      proof (cases "w = p \<and> s = ?t")
        case True
        then have "llog ?b s = alog ?b w" by (simp add: ll al)
        then show ?thesis by (simp add: take_is_prefix)
      next
        case False
        with n(1) have n': "n \<le> acked a w s" by (auto simp: acks split: if_splits)
        with n(2) I have "prefix (take n (llog a s)) (alog a w)"
          by (auto simp: inv_kept_def surv same tk [OF n'])
        then show ?thesis by (auto simp: tk [OF n'] al)
      qed
    qed
    show "inv_kept_vote ?b"
      unfolding inv_kept_vote_def
    proof (intro allI impI, elim conjE)
      fix w s u V n assume V: "avlog ?b w u = Some V" "s < u"
        and n: "n \<le> acked ?b w s" "survives ?b (take n (llog ?b s)) s (u - 1)"
      from V I have "u \<le> aterm a w" unfolding inv_vlogs_def inv_votes_def same
        by (metis not_None_eq)
      with V have "\<not> (w = p \<and> s = ?t)" by auto
      with n(1) have n': "n \<le> acked a w s" by (auto simp: acks split: if_splits)
      with n(2) V I show "prefix (take n (llog ?b s)) V"
        by (simp add: inv_kept_vote_def surv same tk [OF n'])
    qed
  qed
qed

lemma ainv_accept:
  assumes inv: "ainv N a" and el: "elog a (aterm a v) \<noteq> None"
    and M: "prefix M (llog a (aterm a v))" "M \<noteq> []"
  shows "ainv N (abs_accept a v M)"
proof -
  let ?b = "abs_accept a v M" and ?t = "aterm a v" and ?L = "amerge (alog a v) M"
  note I = inv [unfolded ainv_def]
  have acks: "acked ?b w s =
      (if w = v \<and> s = ?t then max (acked a v ?t) (length M) else acked a w s)" for w s
    by (simp add: abs_accept_def Let_def)
  have al: "alog ?b w = (if w = v then ?L else alog a w)" for w
    by (simp add: abs_accept_def Let_def)
  have same: "aterm ?b = aterm a" "avote ?b = avote a" "avlog ?b = avlog a" "acand ?b = acand a"
    "elog ?b = elog a" "llog ?b = llog a" "aleader ?b = aleader a"
    by (simp_all add: abs_accept_def Let_def)
  have wfb: "wfl ?b X = wfl a X" for X by (simp add: wfl_def same)
  have surv: "survives ?b X s u = survives a X s u" for X s u
    by (simp add: survives_def same)
  obtain E where E: "elog a ?t = Some E" using el by auto
  have Lt: "wfl a (llog a ?t)" "terms_upto (llog a ?t) ?t" "prefix E (llog a ?t)"
    using I E by (auto simp: inv_leaders_def)
  have wM: "wfl a M" "terms_upto M ?t"
    using Lt M wfl_prefix terms_upto_prefix by blast+
  have pML: "prefix M ?L" by (simp add: amerge_def)
  show ?thesis
    unfolding ainv_def
  proof (intro conjI)
    show "inv_logs ?b"
      using I wM by (auto simp: inv_logs_def al same wfb amerge_def)
    show "inv_cands ?b" "inv_leaders ?b" "inv_votes ?b" "inv_vlogs ?b" "inv_elected N ?b"
      using I by (simp_all add: inv_defs same wfb)
    show "inv_acks ?b"
      unfolding inv_acks_def
    proof (intro allI)
      fix w s
      have "acked a w s \<le> length (llog a s) \<and> (0 < acked a w s \<longrightarrow> elog a s \<noteq> None \<and> s \<le> aterm a w)"
        using I by (simp add: inv_acks_def)
      then show "acked ?b w s \<le> length (llog ?b s) \<and>
          (0 < acked ?b w s \<longrightarrow> elog ?b s \<noteq> None \<and> s \<le> aterm ?b w)"
        using el prefix_length_le [OF M(1)] by (auto simp: acks same)
    qed
    show "inv_kept ?b"
      unfolding inv_kept_def
    proof (intro allI impI, elim conjE)
      fix w s n assume n: "n \<le> acked ?b w s" "survives ?b (take n (llog ?b s)) s (aterm ?b w)"
      let ?P = "take n (llog a s)"
      have sv: "survives a ?P s (aterm a w)" using n(2) by (simp add: surv same)
      have old: "prefix ?P (alog a w)" if "n \<le> acked a w s"
        using that sv I by (simp add: inv_kept_def)
      have "prefix ?P (alog ?b w)"
      proof (cases "w = v")
        case False
        with n old show ?thesis by (simp add: al acks)
      next
        case True
        have Pt: "prefix ?P (llog a ?t)" if "n \<le> acked a w s"
        proof (cases "s = ?t")
          case True
          then show ?thesis by (simp add: take_is_prefix)
        next
          case False
          show ?thesis
          proof (cases "n = 0")
            case False
            with that have "0 < acked a w s" by simp
            with I True have "s \<le> ?t" unfolding inv_acks_def by blast
            with \<open>s \<noteq> ?t\<close> have "s < ?t" by simp
            with sv True E have "prefix ?P E" unfolding survives_def by blast
            with Lt(3) show ?thesis by (rule prefix_order.trans [rotated])
          qed simp
        qed
        show ?thesis
        proof (cases "n \<le> acked a w s")
          case True
          have "prefix ?P M \<or> prefix M ?P" by (rule prefix_comparable [OF Pt [OF True] M(1)])
          then show ?thesis
          proof
            assume "prefix ?P M"
            with pML \<open>w = v\<close> show ?thesis using prefix_order.trans by (auto simp: al)
          next
            assume "prefix M ?P"
            with old [OF True] have "prefix M (alog a v)" using \<open>w = v\<close> prefix_order.trans by blast
            with old [OF True] \<open>w = v\<close> show ?thesis by (simp add: al amerge_def)
          qed
        next
          case False
          with n(1) have s: "s = ?t" "n \<le> length M" by (auto simp: acks split: if_splits)
          then have "prefix ?P M" using M(1) prefix_take_eq [OF M(1), of n] take_is_prefix by metis
          with pML \<open>w = v\<close> show ?thesis using prefix_order.trans by (auto simp: al)
        qed
      qed
      then show "prefix (take n (llog ?b s)) (alog ?b w)" by (simp add: same)
    qed
    show "inv_kept_vote ?b"
      unfolding inv_kept_vote_def
    proof (intro allI impI, elim conjE)
      fix w s u V n assume V: "avlog ?b w u = Some V" "s < u"
        and n: "n \<le> acked ?b w s" "survives ?b (take n (llog ?b s)) s (u - 1)"
      from V I have "u \<le> aterm a w" unfolding inv_vlogs_def inv_votes_def same
        by (metis not_None_eq)
      with V n(1) have "n \<le> acked a w s" by (auto simp: acks split: if_splits)
      with n(2) V I show "prefix (take n (llog ?b s)) V"
        by (simp add: inv_kept_vote_def surv same)
    qed
  qed
qed

lemma astep_ainv: "astep N a b \<Longrightarrow> ainv N a \<Longrightarrow> ainv N b"
proof (induction rule: astep.induct)
  case (stand a c)
  have "ainv N (abs_stand a c)" using stand by (intro ainv_stand) auto
  moreover have "avote (abs_stand a c) c (aterm (abs_stand a c) c) = None"
    "acand (abs_stand a c) c (aterm (abs_stand a c) c) = Some (alog a c)"
    "alog (abs_stand a c) c = alog a c"
    using stand by (simp_all add: abs_stand_def)
  ultimately show ?case by (intro ainv_vote) (auto simp: upToDate_def)
qed (auto intro: ainv_bump ainv_vote ainv_elect ainv_append ainv_accept)

theorem areach_ainv: "areach N a \<Longrightarrow> ainv N a"
  by (induction rule: areach.induct) (auto intro: ainit_ainv astep_ainv)

section \<open>History only grows\<close>

definition aext :: "abs \<Rightarrow> abs \<Rightarrow> bool" where
  "aext a b \<longleftrightarrow> ext a b \<and> (\<forall>v t. acked a v t \<le> acked b v t) \<and> (\<forall>v. aterm a v \<le> aterm b v) \<and>
     (\<forall>v t c. avote a v t = Some c \<longrightarrow> avote b v t = Some c) \<and>
     (\<forall>c t X. acand a c t = Some X \<longrightarrow> acand b c t = Some X) \<and>
     (\<forall>t. elog a t \<noteq> None \<longrightarrow> aleader b t = aleader a t)"

lemma aext_refl [simp]: "aext a a"
  by (simp add: aext_def ext_def)

lemma ext_trans: "ext a b \<Longrightarrow> ext b c \<Longrightarrow> ext a c"
  unfolding ext_def using prefix_order.trans by blast

lemma aext_trans:
  assumes "aext a b" "aext b c"
  shows "aext a c"
  unfolding aext_def
proof (intro conjI allI impI)
  show "ext a c" using assms ext_trans by (auto simp: aext_def)
  show "acked a v t \<le> acked c v t" "aterm a v \<le> aterm c v" for v t
    using assms by (meson aext_def order_trans)+
  show "avote c v t = Some d" if "avote a v t = Some d" for v t d
    using assms that by (simp add: aext_def)
  show "acand c v t = Some X" if "acand a v t = Some X" for v t X
    using assms that by (simp add: aext_def)
  show "aleader c t = aleader a t" if "elog a t \<noteq> None" for t
    using assms that by (auto simp: aext_def ext_def)
qed

lemma astep_aext:
  assumes "astep N a b" "ainv N a"
  shows "aext a b"
  using assms
proof (induction rule: astep.induct)
  case (elect Q a c)
  then have "acked a c (aterm a c) = 0"
    unfolding ainv_def inv_acks_def by (metis not_gr_zero)
  with elect show ?case
    by (auto simp: aext_def ext_def abs_elect_def Let_def)
next
  case (append a p e)
  then have "acked a p (aterm a p) \<le> length (llog a (aterm a p))"
    by (simp add: ainv_def inv_acks_def)
  with append show ?case
    by (auto simp: aext_def ext_def abs_append_def Let_def)
qed (auto simp: aext_def ext_def abs_bump_def abs_vote_def abs_stand_def abs_accept_def Let_def)

lemma committed_aext:
  assumes "ainv N a" "aext a b" "committed N a u P"
  shows "committed N b u P"
proof (cases "P = [zero_Entry]")
  case False
  with assms(3) obtain t n Q where c: "t \<le> u" "majority N Q" "0 < n" "n \<le> length (llog a t)"
    "Term (llog a t ! (n - 1)) = t" "\<forall>q \<in> Q. n \<le> acked a q t" "P = take n (llog a t)"
    by (auto simp: committed_def)
  obtain q0 where "q0 \<in> Q"
    using c(2) by (auto simp: majority_def) (metis card.empty ex_in_conv not_less_zero)
  with c(3,6) assms(1) obtain E where "elog a t = Some E"
    by (auto simp: ainv_def inv_acks_def) (metis less_le_trans option.exhaust)
  with assms(2) have p: "prefix (llog a t) (llog b t)" by (auto simp: aext_def ext_def)
  then have "n \<le> length (llog b t)" "take n (llog b t) = take n (llog a t)"
    "llog b t ! (n - 1) = llog a t ! (n - 1)"
    using c(3,4) prefix_length_le [OF p] prefix_take_eq [OF p, of n] prefix_nth [OF p, of "n - 1"]
    by auto
  moreover have "\<forall>q \<in> Q. n \<le> acked b q t"
    using c(6) assms(2) unfolding aext_def by (meson order_trans)
  ultimately show ?thesis
    unfolding committed_def using c
    by (intro disjI2 exI [of _ t] exI [of _ n] exI [of _ Q]) simp
qed (simp add: committed_def)

lemma committed_mono: "committed N a u P \<Longrightarrow> u \<le> w \<Longrightarrow> committed N a w P"
  unfolding committed_def using order_trans by blast

lemma cprefix_aext: "ainv N a \<Longrightarrow> aext a b \<Longrightarrow> cprefix N a u X \<Longrightarrow> cprefix N b u X"
  using committed_aext unfolding cprefix_def by blast

lemma cprefix_mono: "cprefix N a u X \<Longrightarrow> u \<le> w \<Longrightarrow> cprefix N a w X"
  using committed_mono unfolding cprefix_def by blast

lemma cprefix_prefix: "cprefix N a u X \<Longrightarrow> prefix Y X \<Longrightarrow> cprefix N a u Y"
  unfolding cprefix_def using prefix_order.trans by blast

end
