(* ===== verification/Raft_Node_Props.thy ===== *)
theory Raft_Node_Props
  imports Raft_Node Raft_Abstract
begin

text \<open>
  What the methods of one Raft server do, stated without the panics and the index
  arithmetic: how \<open>persist\<close> and a restart relate, how the compacted log
  (\<open>logs\<close> behind \<open>lastIncludedIndex\<close>) represents a complete log, and what each
  handler does to the complete log it represents. The cluster proof rests on
  these lemmas only.
\<close>

section \<open>Persistence\<close>

definition healthy :: "Raft \<Rightarrow> bool" where
  "healthy rf \<longleftrightarrow> dead rf = 0 \<and> no_faults (persister rf) \<and> electionTimeoutRand rf \<noteq> 0"

definition disk_snapshot :: "FilePersister \<Rightarrow> bytes" where
  "disk_snapshot ps = (case files ps (snapshot_path ps) of None \<Rightarrow> [] | Some d \<Rightarrow> d)"

text \<open>The server after a save of its state and a given snapshot.\<close>

definition stored :: "Raft \<Rightarrow> bytes \<Rightarrow> Raft" where
  "stored rf sn = rf\<lparr>persister := (persister rf)\<lparr>files :=
     saved_files (persister rf) (encodeState rf) sn\<rparr>\<rparr>"

text \<open>The disk holds the persistent state of the server.\<close>

definition synced :: "Raft \<Rightarrow> bool" where
  "synced rf \<longleftrightarrow>
     (case files (persister rf) (state_path (persister rf)) of
        None \<Rightarrow> currentTerm rf = 0 \<and> votedFor rf = -1 \<and> logs rf = [zero_Entry] \<and>
                lastIncludedIndex rf = 0 \<and> lastIncludedTerm rf = 0
      | Some d \<Rightarrow> d = encodeState rf)"

lemma stored_sel [simp]:
  "peers (stored rf sn) = peers rf" "me (stored rf sn) = me rf" "dead (stored rf sn) = dead rf"
  "state (stored rf sn) = state rf" "currentTerm (stored rf sn) = currentTerm rf"
  "votedFor (stored rf sn) = votedFor rf" "currentLeader (stored rf sn) = currentLeader rf"
  "logs (stored rf sn) = logs rf" "commitIndex (stored rf sn) = commitIndex rf"
  "lastApplied (stored rf sn) = lastApplied rf" "nextIndex (stored rf sn) = nextIndex rf"
  "matchIndex (stored rf sn) = matchIndex rf"
  "lastIncludedIndex (stored rf sn) = lastIncludedIndex rf"
  "lastIncludedTerm (stored rf sn) = lastIncludedTerm rf"
  "electionTimeoutMin (stored rf sn) = electionTimeoutMin rf"
  "electionTimeoutRand (stored rf sn) = electionTimeoutRand rf"
  "heartbeatTimeout (stored rf sn) = heartbeatTimeout rf"
  "grantedVotes (stored rf sn) = grantedVotes rf" "eff (stored rf sn) = eff rf"
  "no_faults (persister (stored rf sn)) = no_faults (persister rf)"
  "dir (persister (stored rf sn)) = dir (persister rf)"
  by (simp_all add: stored_def no_faults_def)

lemma healthy_stored [simp]: "healthy (stored rf sn) = healthy rf"
  by (simp add: healthy_def)

lemma disk_snapshot_stored [simp]: "disk_snapshot (persister (stored rf sn)) = sn"
  using saved_files_paths(2) [of "persister rf" "encodeState rf" sn]
  by (simp add: disk_snapshot_def stored_def snapshot_path_def)

lemma encodeState_cong:
  "currentTerm r = currentTerm rf \<Longrightarrow> votedFor r = votedFor rf \<Longrightarrow> logs r = logs rf \<Longrightarrow>
   lastIncludedIndex r = lastIncludedIndex rf \<Longrightarrow> lastIncludedTerm r = lastIncludedTerm rf \<Longrightarrow>
   encodeState r = encodeState rf"
  by (simp add: encodeState_def)

lemma synced_stored [simp]: "synced (stored rf sn)"
proof -
  have "files (persister (stored rf sn)) (state_path (persister (stored rf sn)))
      = Some (encodeState rf)"
    using saved_files_paths(1) [of "persister rf" "encodeState rf" sn]
    by (simp add: stored_def state_path_def)
  moreover have "encodeState (stored rf sn) = encodeState rf" by (simp add: encodeState_def)
  ultimately show ?thesis by (simp add: synced_def)
qed

lemma synced_cong:
  assumes "synced rf" "persister r = persister rf" "currentTerm r = currentTerm rf"
    "votedFor r = votedFor rf" "logs r = logs rf" "lastIncludedIndex r = lastIncludedIndex rf"
    "lastIncludedTerm r = lastIncludedTerm rf"
  shows "synced r"
  using assms by (simp add: synced_def encodeState_def split: option.splits)

lemma save_or_fatal_ok:
  "no_faults (persister rf) \<Longrightarrow> save_or_fatal rf sn = Some (stored rf sn)"
  by (simp add: save_or_fatal_def Save_ok stored_def)

lemma persist_ok:
  assumes "healthy rf"
  shows "persist rf = Some (stored rf (disk_snapshot (persister rf)))"
proof -
  have "no_faults (persister rf)" "\<not> killed rf" using assms by (simp_all add: healthy_def killed_def)
  then show ?thesis
    by (simp add: persist_def read_files save_or_fatal_ok disk_snapshot_def snapshot_or_nil_def)
qed

lemma resetElectionTimer_ok: "healthy rf \<Longrightarrow> resetElectionTimer rf = Some (emit rf ResetElectionTimer)"
  by (simp add: resetElectionTimer_def healthy_def)

text \<open>The state of a server that starts on the disk of another one.\<close>

definition restarted :: "Raft \<Rightarrow> int \<Rightarrow> int \<Rightarrow> int \<Rightarrow> Raft" where
  "restarted rf emin erand hb =
     (fresh_Raft (peers rf) (me rf) (persister rf) emin erand hb)
       \<lparr>currentTerm := currentTerm rf, votedFor := votedFor rf, logs := logs rf,
        lastIncludedIndex := lastIncludedIndex rf, lastIncludedTerm := lastIncludedTerm rf,
        commitIndex := lastIncludedIndex rf, lastApplied := lastIncludedIndex rf\<rparr>"

lemma Make_restarts:
  assumes "no_faults (persister rf)" "synced rf" "0 \<le> lastIncludedIndex rf" "erand \<noteq> 0"
  shows "Make (peers rf) (me rf) (persister rf) emin erand hb = Some (restarted rf emin erand hb)"
proof (cases "files (persister rf) (state_path (persister rf))")
  case None
  with assms show ?thesis
    by (simp add: Make_def read_files readPersist_def synced_def restarted_def fresh_Raft_def)
next
  case (Some d)
  with assms have d: "d = encodeState rf" by (simp add: synced_def)
  with Some assms show ?thesis
    by (auto simp: Make_def read_files readPersist_def encodeState_def restarted_def
        fresh_Raft_def Let_def)
qed

section \<open>Complete logs\<close>

text \<open>
  \<open>log_rel rf X\<close>: the compacted log of \<open>rf\<close> represents the complete log \<open>X\<close>. The
  entry at position 0 of \<open>logs\<close> stands for the last entry of the snapshot; only its
  index and term are known, because \<^verbatim>\<open>truncateLogWithSnapshot\<close> drops its command.
\<close>

definition log_rel :: "Raft \<Rightarrow> Entry list \<Rightarrow> bool" where
  "log_rel rf X \<longleftrightarrow> 0 \<le> lastIncludedIndex rf \<and> lastIncludedIndex rf < int (length X) \<and>
     logs rf \<noteq> [] \<and> tl (logs rf) = drop (Suc (nat (lastIncludedIndex rf))) X \<and>
     Index (hd (logs rf)) = lastIncludedIndex rf \<and>
     Term (hd (logs rf)) = Term (X ! nat (lastIncludedIndex rf)) \<and>
     lastIncludedTerm rf = Term (X ! nat (lastIncludedIndex rf))"

definition indexed :: "Entry list \<Rightarrow> bool" where
  "indexed X \<longleftrightarrow> X \<noteq> [] \<and> (\<forall>i < length X. Index (X ! i) = int i)"

lemma log_rel_cong:
  assumes "log_rel rf X" "logs r = logs rf" "lastIncludedIndex r = lastIncludedIndex rf"
    "lastIncludedTerm r = lastIncludedTerm rf"
  shows "log_rel r X"
  using assms by (simp add: log_rel_def)

lemma log_rel_length:
  assumes "log_rel rf X"
  shows "length (logs rf) = length X - nat (lastIncludedIndex rf)"
proof -
  have "length (tl (logs rf)) = length X - Suc (nat (lastIncludedIndex rf))"
    using assms by (simp add: log_rel_def)
  moreover have "0 < length (logs rf)" "nat (lastIncludedIndex rf) < length X"
    using assms by (auto simp: log_rel_def)
  ultimately show ?thesis unfolding length_tl by linarith
qed

lemma log_rel_getLen: "log_rel rf X \<Longrightarrow> getLen rf = int (length X)"
  using log_rel_length [of rf X] by (auto simp: getLen_def log_rel_def)

lemma log_rel_logs_nth:
  assumes "log_rel rf X" "0 < k" "k < length (logs rf)"
  shows "logs rf ! k = X ! (nat (lastIncludedIndex rf) + k)"
proof -
  have "logs rf ! k = tl (logs rf) ! (k - 1)"
    using assms by (simp add: nth_tl)
  also have "\<dots> = X ! (nat (lastIncludedIndex rf) + k)"
    using assms log_rel_length [OF assms(1)] by (simp add: log_rel_def)
  finally show ?thesis .
qed

lemma log_rel_getLog:
  assumes "log_rel rf X" "indexed X" "lastIncludedIndex rf \<le> i" "i < int (length X)"
  obtains e where "getLog rf i = Some e" "Term e = Term (X ! nat i)" "Index e = i"
    "lastIncludedIndex rf < i \<Longrightarrow> e = X ! nat i"
proof -
  let ?k = "nat (i - lastIncludedIndex rf)"
  have L: "0 \<le> lastIncludedIndex rf" "int (length (logs rf)) = int (length X) - lastIncludedIndex rf"
    using assms(1) log_rel_length [OF assms(1)] by (auto simp: log_rel_def)
  have k: "?k < length (logs rf)" using assms L by linarith
  have g: "getLog rf i = Some (logs rf ! ?k)"
    using assms L by (simp add: getLog_def getPhysicalIndex_def)
  show ?thesis
  proof (cases "i = lastIncludedIndex rf")
    case True
    then have "logs rf ! ?k = hd (logs rf)" using assms(1) by (simp add: log_rel_def hd_conv_nth)
    with True g assms(1) show ?thesis by (intro that [of "logs rf ! ?k"]) (auto simp: log_rel_def)
  next
    case False
    with assms(3) have "0 < ?k" by simp
    moreover have "nat (lastIncludedIndex rf) + ?k = nat i" using assms(3) L(1) by linarith
    ultimately have "logs rf ! ?k = X ! nat i" using log_rel_logs_nth [OF assms(1) _ k] by simp
    with g assms(2,4) L(1) assms(3) show ?thesis
      by (intro that [of "logs rf ! ?k"]) (auto simp: indexed_def)
  qed
qed

lemma log_rel_getLastLog:
  assumes "log_rel rf X" "indexed X"
  obtains e where "getLastLog rf = Some e" "Term e = Term (last X)" "Index e = int (length X) - 1"
proof -
  have ne: "X \<noteq> []" and b: "lastIncludedIndex rf \<le> int (length X) - 1"
    using assms by (auto simp: log_rel_def)
  obtain e where e: "getLog rf (int (length X) - 1) = Some e"
    "Term e = Term (X ! nat (int (length X) - 1))" "Index e = int (length X) - 1"
    using log_rel_getLog [OF assms b] by auto
  have eq: "int (length X) - 1 - lastIncludedIndex rf = int (length (logs rf)) - 1"
    using log_rel_length [OF assms(1)] assms(1) by (auto simp: log_rel_def)
  have "getLastLog rf = Some e"
    using e(1) unfolding getLastLog_def getLog_def getPhysicalIndex_def eq .
  moreover have "nat (int (length X) - 1) = length X - 1" by simp
  ultimately show ?thesis using that e(2,3) ne by (simp add: last_conv_nth)
qed

text \<open>Logs of the same history agree up to an index where their terms agree.\<close>

definition compat :: "Entry list \<Rightarrow> Entry list \<Rightarrow> bool" where
  "compat X M \<longleftrightarrow> (\<forall>i < length X. i < length M \<longrightarrow> Term (X ! i) = Term (M ! i) \<longrightarrow>
      take (Suc i) X = take (Suc i) M)"

lemma wfl_indexed: "wfl a X \<Longrightarrow> indexed X"
  by (simp add: wfl_def indexed_def)

lemma wfl_compat: "wfl a X \<Longrightarrow> wfl a M \<Longrightarrow> compat X M"
  unfolding compat_def using log_matching by blast

section \<open>appendNewEntries merges logs\<close>

lemma log_rel_extend:
  assumes "log_rel rf X" "take k X = take k M" "lastIncludedIndex rf < int k" "k \<le> length X"
    "k < length M"
  shows "log_rel (rf\<lparr>logs := take (k - nat (lastIncludedIndex rf)) (logs rf) @ drop k M\<rparr>) M"
proof -
  let ?L = "nat (lastIncludedIndex rf)" and ?j = "k - nat (lastIncludedIndex rf)"
  have j: "0 < ?j" "?L + ?j = k" using assms(1,3) by (auto simp: log_rel_def)
  have ne: "logs rf \<noteq> []" and tl: "tl (logs rf) = drop (Suc ?L) X"
    using assms(1) by (auto simp: log_rel_def)
  obtain h r where hr: "logs rf = h # r" using ne by (cases "logs rf") auto
  obtain j' where j': "?j = Suc j'" using j(1) by (cases ?j) auto
  have "r = drop (Suc ?L) X" using tl hr by simp
  then have "take j' r = take j' (drop (Suc ?L) X)" by simp
  also have "\<dots> = drop (Suc ?L) (take k X)"
  proof -
    have "k - Suc ?L = j'" using j' by arith
    then show ?thesis by (simp add: drop_take)
  qed
  also have "\<dots> = drop (Suc ?L) (take k M)" by (simp add: assms(2))
  finally have "take j' r @ drop k M = drop (Suc ?L) (take k M) @ drop k M" by simp
  also have "\<dots> = drop (Suc ?L) (take k M @ drop k M)"
  proof -
    have z: "Suc ?L - length (take k M) = 0" using j j' assms(5) by simp
    show ?thesis by (simp only: drop_append z drop_0)
  qed
  finally have t: "take j' r @ drop k M = drop (Suc ?L) M" by simp
  have "X ! ?L = M ! ?L"
    using j assms(2) by (metis less_add_same_cancel1 nth_take)
  moreover have "?L < length M" using j assms(5) by linarith
  ultimately show ?thesis
    using assms(1) t hr j' by (auto simp: log_rel_def)
qed

lemma appendNewEntries_merges:
  assumes "log_rel rf X" "indexed X" "indexed M" "compat X M"
    and "take k X = take k M" "lastIncludedIndex rf < int k" "k \<le> length X" "k \<le> length M"
  shows "\<exists>ls. appendNewEntries rf (drop k M) = Some (rf\<lparr>logs := ls\<rparr>) \<and>
    log_rel (rf\<lparr>logs := ls\<rparr>) (amerge X M)"
  using assms(5-8)
proof (induction "length M - k" arbitrary: k)
  case 0
  then have "drop k M = []" "k = length M" by simp_all
  with 0 have "prefix M X" by (metis order_refl take_all take_is_prefix)
  with \<open>drop k M = []\<close> assms(1) show ?case
    by (intro exI [of _ "logs rf"]) (simp add: amerge_def)
next
  case (Suc n)
  then have k: "k < length M" by simp
  then have d: "drop k M = M ! k # drop (Suc k) M" by (simp add: Cons_nth_drop_Suc)
  have ix: "Index (M ! k) = int k" using assms(3) k by (simp add: indexed_def)
  have gl: "getLen rf = int (length X)" using assms(1) by (rule log_rel_getLen)
  have L: "0 \<le> lastIncludedIndex rf" using assms(1) by (simp add: log_rel_def)
  have len: "length (logs rf) = length X - nat (lastIncludedIndex rf)"
    using assms(1) by (rule log_rel_length)
  have ext: "log_rel (rf\<lparr>logs := take (k - nat (lastIncludedIndex rf)) (logs rf) @ drop k M\<rparr>) M"
    using log_rel_extend [OF assms(1)] Suc.prems k by blast
  show ?case
  proof (cases "k < length X")
    case True
    let ?j = "nat (int k - lastIncludedIndex rf)"
    have j: "0 < ?j" "?j < length (logs rf)" "nat (lastIncludedIndex rf) + ?j = k"
      "?j = k - nat (lastIncludedIndex rf)"
      using True Suc.prems(2) L len by linarith+
    have old: "logs rf ! ?j = X ! k" using log_rel_logs_nth [OF assms(1) j(1,2)] j(3) by simp
    have io: "idx (logs rf) (int k - lastIncludedIndex rf) = Some (X ! k)"
      using old j(2) Suc.prems(2) by (simp add: idx_def)
    show ?thesis
    proof (cases "Term (X ! k) = Term (M ! k)")
      case t: True
      then have tk: "take (Suc k) X = take (Suc k) M"
        using assms(4) True k by (simp add: compat_def)
      have n: "n = length M - Suc k" "lastIncludedIndex rf < int (Suc k)"
        "Suc k \<le> length X" "Suc k \<le> length M"
        using Suc.hyps(2) Suc.prems True k by simp_all
      obtain ls where
        "appendNewEntries rf (drop (Suc k) M) = Some (rf\<lparr>logs := ls\<rparr>)"
        "log_rel (rf\<lparr>logs := ls\<rparr>) (amerge X M)"
        using Suc.hyps(1) [OF n(1) tk n(2-4)] by blast
      with d ix gl True io t show ?thesis
        by (intro exI [of _ ls]) (simp add: getPhysicalIndex_def Let_def)
    next
      case f: False
      have "slice_to (logs rf) (int k - lastIncludedIndex rf) = Some (take ?j (logs rf))"
        using j Suc.prems(2) by simp
      moreover have "\<not> prefix M X" using f k prefix_nth [of M X k] by auto
      ultimately show ?thesis
        using d ix gl True io f ext j(4)
        by (intro exI [of _ "take ?j (logs rf) @ drop k M"])
          (simp add: getPhysicalIndex_def Let_def amerge_def)
    qed
  next
    case False
    with Suc.prems have kX: "k = length X" by simp
    then have "\<not> prefix M X" using k prefix_length_le by fastforce
    moreover have "take (k - nat (lastIncludedIndex rf)) (logs rf) = logs rf"
      using len kX by simp
    ultimately show ?thesis
      using d ix gl kX ext
      by (intro exI [of _ "logs rf @ drop k M"]) (simp add: amerge_def)
  qed
qed

section \<open>Searches through the log\<close>

lemma conflictScan_spec:
  assumes "log_rel rf X" "indexed X" "lastIncludedIndex rf \<le> i" "i < int (length X)"
  shows "\<exists>j. conflictScan rf tm i = Some j \<and> lastIncludedIndex rf \<le> j \<and> j \<le> i \<and>
     (\<forall>k. j < k \<and> k \<le> i \<longrightarrow> Term (X ! nat k) = tm) \<and>
     (lastIncludedIndex rf < j \<longrightarrow> Term (X ! nat j) \<noteq> tm)"
  using assms(3,4)
proof (induction "nat (i - lastIncludedIndex rf)" arbitrary: i)
  case 0
  then have "i = lastIncludedIndex rf" by simp
  then show ?case by (subst conflictScan.simps) auto
next
  case (Suc n)
  then have i: "lastIncludedIndex rf < i" by simp
  obtain e where e: "getLog rf i = Some e" "Term e = Term (X ! nat i)"
    using log_rel_getLog [OF assms(1,2) Suc.prems] by metis
  show ?case
  proof (cases "Term e = tm")
    case True
    have "n = nat (i - 1 - lastIncludedIndex rf)" "lastIncludedIndex rf \<le> i - 1"
      "i - 1 < int (length X)" using Suc i by auto
    from Suc.hyps(1) [OF this] obtain j where j: "conflictScan rf tm (i - 1) = Some j"
      "lastIncludedIndex rf \<le> j" "j \<le> i - 1" "\<forall>k. j < k \<and> k \<le> i - 1 \<longrightarrow> Term (X ! nat k) = tm"
      "lastIncludedIndex rf < j \<longrightarrow> Term (X ! nat j) \<noteq> tm" by blast
    have "Term (X ! nat k) = tm" if "j < k" "k \<le> i" for k
      using j(4) that e(2) True by (cases "k = i") auto
    moreover have "conflictScan rf tm i = Some j"
      using i e True j(1) by (subst conflictScan.simps) simp
    ultimately show ?thesis using j(2,3,5) by (intro exI [of _ j]) auto
  next
    case False
    then have "conflictScan rf tm i = Some i"
      using i e by (subst conflictScan.simps) simp
    with False i e show ?thesis by auto
  qed
qed

lemma findLastIndexOfTerm_spec:
  assumes "log_rel rf X" "indexed X" "i < int (length X)"
  shows "\<exists>j. findLastIndexOfTerm rf tm i = Some j \<and>
     (j = -1 \<and> (\<forall>k. lastIncludedIndex rf < k \<and> k \<le> i \<longrightarrow> Term (X ! nat k) \<noteq> tm) \<or>
      lastIncludedIndex rf < j \<and> j \<le> i \<and> Term (X ! nat j) = tm \<and>
      (\<forall>k. j < k \<and> k \<le> i \<longrightarrow> Term (X ! nat k) \<noteq> tm))"
  using assms(3)
proof (induction "nat (i - lastIncludedIndex rf)" arbitrary: i)
  case 0
  then have "\<not> lastIncludedIndex rf < i" by simp
  then show ?case by (subst findLastIndexOfTerm.simps) auto
next
  case (Suc n)
  then have i: "lastIncludedIndex rf < i" by simp
  obtain e where e: "getLog rf i = Some e" "Term e = Term (X ! nat i)"
    using log_rel_getLog [OF assms(1,2) less_imp_le [OF i] Suc.prems] by metis
  show ?case
  proof (cases "Term e = tm")
    case True
    then have "findLastIndexOfTerm rf tm i = Some i"
      using i e by (subst findLastIndexOfTerm.simps) simp
    with True i e show ?thesis by (intro exI [of _ i]) auto
  next
    case False
    have "n = nat (i - 1 - lastIncludedIndex rf)" "i - 1 < int (length X)" using Suc i by auto
    from Suc.hyps(1) [OF this] obtain j where j: "findLastIndexOfTerm rf tm (i - 1) = Some j"
      "j = -1 \<and> (\<forall>k. lastIncludedIndex rf < k \<and> k \<le> i - 1 \<longrightarrow> Term (X ! nat k) \<noteq> tm) \<or>
      lastIncludedIndex rf < j \<and> j \<le> i - 1 \<and> Term (X ! nat j) = tm \<and>
      (\<forall>k. j < k \<and> k \<le> i - 1 \<longrightarrow> Term (X ! nat k) \<noteq> tm)" by blast
    have ext: "\<forall>k. l < k \<and> k \<le> i \<longrightarrow> Term (X ! nat k) \<noteq> tm"
      if "\<forall>k. l < k \<and> k \<le> i - 1 \<longrightarrow> Term (X ! nat k) \<noteq> tm" for l
    proof (intro allI impI)
      fix k assume "l < k \<and> k \<le> i"
      with that e(2) False show "Term (X ! nat k) \<noteq> tm" by (cases "k = i") auto
    qed
    have "findLastIndexOfTerm rf tm i = Some j"
      using i e False j(1) by (subst findLastIndexOfTerm.simps) simp
    moreover have "j = -1 \<and> (\<forall>k. lastIncludedIndex rf < k \<and> k \<le> i \<longrightarrow> Term (X ! nat k) \<noteq> tm) \<or>
      lastIncludedIndex rf < j \<and> j \<le> i \<and> Term (X ! nat j) = tm \<and>
      (\<forall>k. j < k \<and> k \<le> i \<longrightarrow> Term (X ! nat k) \<noteq> tm)"
      using j(2) ext by auto
    ultimately show ?thesis by blast
  qed
qed

lemma updateCommitLoop_spec:
  assumes "log_rel rf X" "indexed X" "n < int (length X)" "lastIncludedIndex rf \<le> commitIndex rf"
  shows "updateCommitLoop rf n = Some rf \<and>
      (\<forall>k. commitIndex rf < k \<and> k \<le> n \<longrightarrow> \<not> (Term (X ! nat k) = currentTerm rf \<and>
          countNodesWithLogAt rf k > int (peers rf) div 2)) \<or>
    (\<exists>m. updateCommitLoop rf n = Some (signalApplier (rf\<lparr>commitIndex := m\<rparr>)) \<and>
      commitIndex rf < m \<and> m \<le> n \<and> Term (X ! nat m) = currentTerm rf \<and>
      countNodesWithLogAt rf m > int (peers rf) div 2 \<and>
      (\<forall>k. m < k \<and> k \<le> n \<longrightarrow> \<not> (Term (X ! nat k) = currentTerm rf \<and>
          countNodesWithLogAt rf k > int (peers rf) div 2)))"
  using assms(3)
proof (induction "nat (n - commitIndex rf)" arbitrary: n)
  case 0
  then have "\<not> commitIndex rf < n" by simp
  then show ?case by (subst updateCommitLoop.simps) auto
next
  case (Suc d)
  then have n: "commitIndex rf < n" by simp
  obtain e where e: "getLog rf n = Some e" "Term e = Term (X ! nat n)"
    using log_rel_getLog [OF assms(1,2) _ Suc.prems] n assms(4) by (metis less_imp_le order_trans)
  let ?c = "\<lambda>k. Term (X ! nat k) = currentTerm rf \<and> countNodesWithLogAt rf k > int (peers rf) div 2"
  show ?case
  proof (cases "?c n")
    case True
    then have "updateCommitLoop rf n = Some (signalApplier (rf\<lparr>commitIndex := n\<rparr>))"
      using n e by (subst updateCommitLoop.simps) simp
    with True n show ?thesis by auto
  next
    case False
    have "d = nat (n - 1 - commitIndex rf)" "n - 1 < int (length X)" using Suc n by auto
    note IH = Suc.hyps(1) [OF this]
    have eq: "updateCommitLoop rf n = updateCommitLoop rf (n - 1)"
      using n e False by (subst updateCommitLoop.simps) auto
    have ext: "\<forall>k. l < k \<and> k \<le> n \<longrightarrow> \<not> ?c k" if "\<forall>k. l < k \<and> k \<le> n - 1 \<longrightarrow> \<not> ?c k" for l
    proof (intro allI impI)
      fix k assume "l < k \<and> k \<le> n"
      with that False show "\<not> ?c k" by (cases "k = n") auto
    qed
    from IH show ?thesis
    proof (elim disjE exE conjE)
      assume "updateCommitLoop rf (n - 1) = Some rf" "\<forall>k. commitIndex rf < k \<and> k \<le> n - 1 \<longrightarrow> \<not> ?c k"
      then show ?thesis using eq ext by simp
    next
      fix m
      assume m: "updateCommitLoop rf (n - 1) = Some (signalApplier (rf\<lparr>commitIndex := m\<rparr>))"
        "commitIndex rf < m" "m \<le> n - 1" "Term (X ! nat m) = currentTerm rf"
        "int (peers rf) div 2 < countNodesWithLogAt rf m" "\<forall>k. m < k \<and> k \<le> n - 1 \<longrightarrow> \<not> ?c k"
      show ?thesis
        by (intro disjI2 exI [of _ m] conjI ext [OF m(6)]) (use m eq in simp_all)
    qed
  qed
qed

end
