(* ===== verification/Raft_Handlers.thy ===== *)
theory Raft_Handlers
  imports Raft_Node_Props
begin

text \<open>
  The handlers of a healthy server in closed form: which state each returns on each
  of its branches, in terms of the complete log that the server's compacted log
  represents. A handler that returns \<open>Some\<close> here did not panic.
\<close>

section \<open>Effects\<close>

lemma emit_sel [simp]:
  "peers (emit rf x) = peers rf" "persister (emit rf x) = persister rf" "me (emit rf x) = me rf"
  "dead (emit rf x) = dead rf" "state (emit rf x) = state rf"
  "currentTerm (emit rf x) = currentTerm rf" "votedFor (emit rf x) = votedFor rf"
  "currentLeader (emit rf x) = currentLeader rf" "logs (emit rf x) = logs rf"
  "commitIndex (emit rf x) = commitIndex rf" "lastApplied (emit rf x) = lastApplied rf"
  "nextIndex (emit rf x) = nextIndex rf" "matchIndex (emit rf x) = matchIndex rf"
  "lastIncludedIndex (emit rf x) = lastIncludedIndex rf"
  "lastIncludedTerm (emit rf x) = lastIncludedTerm rf"
  "electionTimeoutMin (emit rf x) = electionTimeoutMin rf"
  "electionTimeoutRand (emit rf x) = electionTimeoutRand rf"
  "heartbeatTimeout (emit rf x) = heartbeatTimeout rf"
  "grantedVotes (emit rf x) = grantedVotes rf" "eff (emit rf x) = eff rf @ [x]"
  by (simp_all add: emit_def)

lemma healthy_emit [simp]: "healthy (emit rf x) = healthy rf"
  by (simp add: healthy_def)

lemma log_rel_emit [simp]: "log_rel (emit rf x) X = log_rel rf X"
  by (simp add: log_rel_def)

lemma log_rel_stored [simp]: "log_rel (stored rf sn) X = log_rel rf X"
  by (simp add: log_rel_def)

lemma synced_emit [simp]: "synced (emit rf x) = synced rf"
  by (simp add: synced_def encodeState_def split: option.splits)

definition add_effects :: "Raft \<Rightarrow> effect list \<Rightarrow> Raft" where
  "add_effects rf es = rf\<lparr>eff := eff rf @ es\<rparr>"

definition other_peers :: "Raft \<Rightarrow> int list" where
  "other_peers rf = filter (\<lambda>p. p \<noteq> me rf) (peer_range rf)"

lemma foldl_emit:
  "foldl (\<lambda>r peer. if peer = m then r else emit r (f peer)) rf ps =
     add_effects rf (map f (filter (\<lambda>p. p \<noteq> m) ps))"
  by (induction ps arbitrary: rf) (auto simp: add_effects_def emit_def)

lemma signalBroadcastReplication_eq:
  "signalBroadcastReplication rf hb =
     add_effects rf (map (if hb then GoReplicateToPeer else SignalReplication) (other_peers rf))"
  by (cases hb)
    (simp_all add: signalBroadcastReplication_def foldl_emit other_peers_def cong: if_cong)

lemma add_effects_sel [simp]:
  "peers (add_effects rf x) = peers rf" "persister (add_effects rf x) = persister rf"
  "me (add_effects rf x) = me rf" "dead (add_effects rf x) = dead rf"
  "state (add_effects rf x) = state rf" "currentTerm (add_effects rf x) = currentTerm rf"
  "votedFor (add_effects rf x) = votedFor rf" "currentLeader (add_effects rf x) = currentLeader rf"
  "logs (add_effects rf x) = logs rf" "commitIndex (add_effects rf x) = commitIndex rf"
  "lastApplied (add_effects rf x) = lastApplied rf" "nextIndex (add_effects rf x) = nextIndex rf"
  "matchIndex (add_effects rf x) = matchIndex rf"
  "lastIncludedIndex (add_effects rf x) = lastIncludedIndex rf"
  "lastIncludedTerm (add_effects rf x) = lastIncludedTerm rf"
  "electionTimeoutMin (add_effects rf x) = electionTimeoutMin rf"
  "electionTimeoutRand (add_effects rf x) = electionTimeoutRand rf"
  "heartbeatTimeout (add_effects rf x) = heartbeatTimeout rf"
  "grantedVotes (add_effects rf x) = grantedVotes rf" "eff (add_effects rf x) = eff rf @ x"
  by (simp_all add: add_effects_def)

lemma log_rel_add_effects [simp]: "log_rel (add_effects rf x) X = log_rel rf X"
  by (simp add: log_rel_def)

lemma synced_add_effects [simp]: "synced (add_effects rf x) = synced rf"
  by (simp add: synced_def encodeState_def split: option.splits)

lemma healthy_add_effects [simp]: "healthy (add_effects rf x) = healthy rf"
  by (simp add: healthy_def)

section \<open>AppendEntries\<close>

text \<open>The server after it has accepted the sender as the leader of its term.\<close>

definition ae_enter :: "Raft \<Rightarrow> AppendEntriesArgs \<Rightarrow> Raft" where
  "ae_enter rf args =
     emit (rf\<lparr>currentTerm := aea_Term args,
              votedFor := (if aea_Term args > currentTerm rf then -1 else votedFor rf),
              currentLeader := aea_LeaderId args, state := StateFollower\<rparr>) ResetElectionTimer"

lemma ae_enter_sel [simp]:
  "logs (ae_enter rf args) = logs rf" "persister (ae_enter rf args) = persister rf"
  "lastIncludedIndex (ae_enter rf args) = lastIncludedIndex rf"
  "lastIncludedTerm (ae_enter rf args) = lastIncludedTerm rf"
  "commitIndex (ae_enter rf args) = commitIndex rf"
  "currentTerm (ae_enter rf args) = aea_Term args"
  "healthy (ae_enter rf args) = healthy rf"
  "log_rel (ae_enter rf args) X = log_rel rf X"
  by (simp_all add: ae_enter_def healthy_def log_rel_def)

lemma AppendEntries_stale:
  "aea_Term args < currentTerm rf \<Longrightarrow> AppendEntries rf args = Some (rf,
     \<lparr>aer_Term = currentTerm rf, aer_Success = False, aer_ConflictIndex = 0, aer_ConflictTerm = 0\<rparr>)"
  by (simp add: AppendEntries_def)

definition ae_reply0 :: "Raft \<Rightarrow> AppendEntriesReply" where
  "ae_reply0 rf = \<lparr>aer_Term = currentTerm rf, aer_Success = False, aer_ConflictIndex = 0,
     aer_ConflictTerm = 0\<rparr>"

lemma AppendEntries_eq:
  assumes "healthy rf" "currentTerm rf \<le> aea_Term args"
  shows "AppendEntries rf args =
    do {
      (hasConflict, reply1) \<leftarrow> handleConsistencyConflict (ae_enter rf args) args (ae_reply0 rf);
      if hasConflict then do { rf5 \<leftarrow> persist (ae_enter rf args); Some (rf5, reply1) }
      else do {
        rf5 \<leftarrow> appendNewEntries (ae_enter rf args) (aea_Entries args);
        rf7 \<leftarrow> persist (advanceCommitIndex rf5 (aea_LeaderCommit args));
        Some (rf7, reply1\<lparr>aer_Success := True\<rparr>)
      }
    }"
proof -
  let ?rf1 = "if aea_Term args > currentTerm rf
              then rf\<lparr>currentTerm := aea_Term args, votedFor := -1\<rparr> else rf"
  let ?rf2 = "?rf1\<lparr>currentLeader := aea_LeaderId args\<rparr>"
  let ?rf3 = "if state ?rf2 \<noteq> StateFollower then ?rf2\<lparr>state := StateFollower\<rparr> else ?rf2"
  have "resetElectionTimer ?rf3 = Some (ae_enter rf args)"
    using assms by (auto simp: resetElectionTimer_def healthy_def ae_enter_def)
  with assms show ?thesis
    by (simp add: AppendEntries_def Let_def ae_reply0_def cong: if_cong)
qed

lemma handleConsistencyConflict_ok:
  assumes "log_rel rf X" "indexed X" "lastIncludedIndex rf \<le> aea_PrevLogIndex args"
    "aea_PrevLogIndex args < int (length X)"
    "Term (X ! nat (aea_PrevLogIndex args)) = aea_PrevLogTerm args"
  shows "handleConsistencyConflict rf args reply = Some (False, reply)"
proof -
  obtain e where "getLog rf (aea_PrevLogIndex args) = Some e" "Term e = aea_PrevLogTerm args"
    using log_rel_getLog [OF assms(1-4)] assms(5) by metis
  with assms log_rel_getLen [OF assms(1)] show ?thesis
    by (simp add: handleConsistencyConflict_def hasEntryAt_def)
qed

lemma handleConsistencyConflict_reject:
  assumes "log_rel rf X" "indexed X"
    "\<not> (lastIncludedIndex rf \<le> aea_PrevLogIndex args \<and> aea_PrevLogIndex args < int (length X) \<and>
        Term (X ! nat (aea_PrevLogIndex args)) = aea_PrevLogTerm args)"
  shows "\<exists>r. handleConsistencyConflict rf args reply = Some (True, r) \<and>
     aer_Term r = aer_Term reply \<and> aer_Success r = aer_Success reply \<and>
     lastIncludedIndex rf < aer_ConflictIndex r \<and>
     aer_ConflictIndex r \<le> max (aea_PrevLogIndex args) (lastIncludedIndex rf) + 1"
proof -
  let ?prev = "aea_PrevLogIndex args"
  have gl: "getLen rf = int (length X)" "lastIncludedIndex rf < int (length X)"
    using assms(1) log_rel_getLen by (auto simp: log_rel_def)
  consider "?prev < lastIncludedIndex rf" | "int (length X) \<le> ?prev"
    | "lastIncludedIndex rf \<le> ?prev" "?prev < int (length X)" by linarith
  then show ?thesis
  proof cases
    case 1
    then show ?thesis by (simp add: handleConsistencyConflict_def)
  next
    case 2
    with gl show ?thesis by (simp add: handleConsistencyConflict_def hasEntryAt_def)
  next
    case 3
    obtain e where e: "getLog rf ?prev = Some e" "Term e = Term (X ! nat ?prev)"
      using log_rel_getLog [OF assms(1,2) 3] by metis
    obtain j where "conflictScan rf (Term e) ?prev = Some j" "lastIncludedIndex rf \<le> j" "j \<le> ?prev"
      using conflictScan_spec [OF assms(1,2) 3] by blast
    with 3 e gl assms(3) show ?thesis by (simp add: handleConsistencyConflict_def hasEntryAt_def)
  qed
qed

lemma AppendEntries_reject:
  assumes "healthy rf" "currentTerm rf \<le> aea_Term args" "log_rel rf X" "indexed X"
    "\<not> (lastIncludedIndex rf \<le> aea_PrevLogIndex args \<and> aea_PrevLogIndex args < int (length X) \<and>
        Term (X ! nat (aea_PrevLogIndex args)) = aea_PrevLogTerm args)"
  shows "\<exists>r. AppendEntries rf args =
      Some (stored (ae_enter rf args) (disk_snapshot (persister rf)), r) \<and>
     aer_Term r = currentTerm rf \<and> \<not> aer_Success r \<and>
     lastIncludedIndex rf < aer_ConflictIndex r \<and>
     aer_ConflictIndex r \<le> max (aea_PrevLogIndex args) (lastIncludedIndex rf) + 1"
proof -
  have "log_rel (ae_enter rf args) X" using assms(3) by simp
  from handleConsistencyConflict_reject [OF this assms(4), of args "ae_reply0 rf"] assms(5)
  obtain r where "handleConsistencyConflict (ae_enter rf args) args (ae_reply0 rf) = Some (True, r)"
     "aer_Term r = currentTerm rf \<and> \<not> aer_Success r \<and>
     lastIncludedIndex rf < aer_ConflictIndex r \<and>
     aer_ConflictIndex r \<le> max (aea_PrevLogIndex args) (lastIncludedIndex rf) + 1"
    by (auto simp: ae_reply0_def)
  with assms(1,2) show ?thesis
    by (intro exI [of _ r]) (simp add: AppendEntries_eq persist_ok)
qed

lemma advanceCommitIndex_sel [simp]:
  "logs (advanceCommitIndex rf n) = logs rf" "persister (advanceCommitIndex rf n) = persister rf"
  "lastIncludedIndex (advanceCommitIndex rf n) = lastIncludedIndex rf"
  "lastIncludedTerm (advanceCommitIndex rf n) = lastIncludedTerm rf"
  "currentTerm (advanceCommitIndex rf n) = currentTerm rf"
  "votedFor (advanceCommitIndex rf n) = votedFor rf" "state (advanceCommitIndex rf n) = state rf"
  "peers (advanceCommitIndex rf n) = peers rf" "me (advanceCommitIndex rf n) = me rf"
  "nextIndex (advanceCommitIndex rf n) = nextIndex rf"
  "matchIndex (advanceCommitIndex rf n) = matchIndex rf"
  "lastApplied (advanceCommitIndex rf n) = lastApplied rf"
  "grantedVotes (advanceCommitIndex rf n) = grantedVotes rf"
  "healthy (advanceCommitIndex rf n) = healthy rf"
  "log_rel (advanceCommitIndex rf n) X = log_rel rf X"
  by (simp_all add: advanceCommitIndex_def signalApplier_def Let_def healthy_def log_rel_def)

lemma advanceCommitIndex_commit:
  "commitIndex (advanceCommitIndex rf n) =
     (if n > commitIndex rf then min n (getLen rf - 1) else commitIndex rf)"
  by (auto simp: advanceCommitIndex_def signalApplier_def Let_def)

lemma AppendEntries_accept:
  assumes "healthy rf" "currentTerm rf \<le> aea_Term args" "log_rel rf X" "indexed X"
    and M: "indexed M" "compat X M"
    and prev: "lastIncludedIndex rf \<le> aea_PrevLogIndex args" "aea_PrevLogIndex args < int (length X)"
      "Term (X ! nat (aea_PrevLogIndex args)) = aea_PrevLogTerm args"
    and args: "aea_PrevLogIndex args < int (length M)"
      "Term (M ! nat (aea_PrevLogIndex args)) = aea_PrevLogTerm args"
      "aea_Entries args = drop (Suc (nat (aea_PrevLogIndex args))) M"
  shows "\<exists>ls. AppendEntries rf args =
      Some (stored (advanceCommitIndex ((ae_enter rf args)\<lparr>logs := ls\<rparr>) (aea_LeaderCommit args))
              (disk_snapshot (persister rf)),
            (ae_reply0 rf)\<lparr>aer_Success := True\<rparr>) \<and>
     log_rel ((ae_enter rf args)\<lparr>logs := ls\<rparr>) (amerge X M)"
proof -
  let ?p = "nat (aea_PrevLogIndex args)" and ?rf = "ae_enter rf args"
  have p0: "0 \<le> aea_PrevLogIndex args" using assms(3) prev(1) by (simp add: log_rel_def)
  have p: "?p < length X" "?p < length M" using p0 prev(2) args(1) by auto
  have tk: "take (Suc ?p) X = take (Suc ?p) M"
    using M(2) p prev(3) args(2) by (simp add: compat_def)
  have L: "lastIncludedIndex ?rf < int (Suc ?p)" using prev(1) p0 by simp
  have "log_rel ?rf X" using assms(3) by simp
  from appendNewEntries_merges [OF this assms(4) M tk L] p obtain ls where
    ls: "appendNewEntries ?rf (aea_Entries args) = Some (?rf\<lparr>logs := ls\<rparr>)"
    "log_rel (?rf\<lparr>logs := ls\<rparr>) (amerge X M)" by (auto simp: args(3))
  have h: "healthy (?rf\<lparr>logs := ls\<rparr>)"
    using assms(1) by (simp add: healthy_def ae_enter_def)
  have "handleConsistencyConflict ?rf args (ae_reply0 rf) = Some (False, ae_reply0 rf)"
    using handleConsistencyConflict_ok [of ?rf X args] assms(3,4) prev by simp
  with ls h assms(1,2) show ?thesis
    by (intro exI [of _ ls]) (simp add: AppendEntries_eq persist_ok)
qed

section \<open>RequestVote\<close>

definition rv_enter :: "Raft \<Rightarrow> RequestVoteArgs \<Rightarrow> Raft" where
  "rv_enter rf args =
     (if rva_Term args > currentTerm rf
      then rf\<lparr>state := StateFollower, currentTerm := rva_Term args, votedFor := -1\<rparr> else rf)"

lemma rv_enter_sel [simp]:
  "logs (rv_enter rf args) = logs rf" "persister (rv_enter rf args) = persister rf"
  "lastIncludedIndex (rv_enter rf args) = lastIncludedIndex rf"
  "lastIncludedTerm (rv_enter rf args) = lastIncludedTerm rf"
  "commitIndex (rv_enter rf args) = commitIndex rf" "lastApplied (rv_enter rf args) = lastApplied rf"
  "peers (rv_enter rf args) = peers rf" "me (rv_enter rf args) = me rf"
  "nextIndex (rv_enter rf args) = nextIndex rf" "matchIndex (rv_enter rf args) = matchIndex rf"
  "grantedVotes (rv_enter rf args) = grantedVotes rf" "eff (rv_enter rf args) = eff rf"
  "healthy (rv_enter rf args) = healthy rf" "log_rel (rv_enter rf args) X = log_rel rf X"
  by (simp_all add: rv_enter_def healthy_def log_rel_def)

lemma rv_enter_term:
  "currentTerm rf \<le> rva_Term args \<Longrightarrow> currentTerm (rv_enter rf args) = rva_Term args"
  by (auto simp: rv_enter_def)

text \<open>The vote condition on complete logs.\<close>

definition rv_grants :: "Raft \<Rightarrow> RequestVoteArgs \<Rightarrow> Entry list \<Rightarrow> bool" where
  "rv_grants rf args X \<longleftrightarrow>
     (votedFor (rv_enter rf args) = -1 \<or> votedFor (rv_enter rf args) = rva_CandidateId args) \<and>
     (Term (last X) < rva_LastLogTerm args \<or>
      Term (last X) = rva_LastLogTerm args \<and> int (length X) - 1 \<le> rva_LastLogIndex args)"

lemma RequestVote_eq:
  assumes "healthy rf" "log_rel rf X" "indexed X"
  shows "RequestVote rf args =
    (if rva_Term args < currentTerm rf
     then Some (rf, \<lparr>rvr_Term = currentTerm rf, rvr_VoteGranted = False\<rparr>)
     else if rv_grants rf args X
     then Some (stored (emit ((rv_enter rf args)\<lparr>votedFor := rva_CandidateId args\<rparr>)
                          ResetElectionTimer) (disk_snapshot (persister rf)),
                \<lparr>rvr_Term = currentTerm rf, rvr_VoteGranted = True\<rparr>)
     else Some (stored (rv_enter rf args) (disk_snapshot (persister rf)),
                \<lparr>rvr_Term = currentTerm rf, rvr_VoteGranted = False\<rparr>))"
proof -
  have "log_rel (rv_enter rf args) X" using assms(2) by simp
  then obtain e where e: "getLastLog (rv_enter rf args) = Some e" "Term e = Term (last X)"
    "Index e = int (length X) - 1" using log_rel_getLastLog [OF _ assms(3)] by metis
  have up: "isLogUpToDate (rv_enter rf args) (rva_LastLogTerm args) (rva_LastLogIndex args) =
    Some (Term (last X) < rva_LastLogTerm args \<or>
      Term (last X) = rva_LastLogTerm args \<and> int (length X) - 1 \<le> rva_LastLogIndex args)"
    using e by (auto simp: isLogUpToDate_def)
  have h: "healthy ((rv_enter rf args)\<lparr>votedFor := v\<rparr>)" for v
    using assms(1) by (simp add: healthy_def rv_enter_def)
  show ?thesis
    unfolding RequestVote_def Let_def rv_enter_def [symmetric]
    using assms(1) h by (simp add: up rv_grants_def resetElectionTimer_ok persist_ok cong: if_cong)
qed

section \<open>Stepping down\<close>

definition stepped_down :: "Raft \<Rightarrow> int \<Rightarrow> Raft" where
  "stepped_down rf tm =
     emit (stored (rf\<lparr>currentTerm := tm, votedFor := -1, state := StateFollower\<rparr>)
             (disk_snapshot (persister rf))) ResetElectionTimer"

lemma handleHigherTerm_eq:
  assumes "healthy rf"
  shows "handleHigherTerm rf tm =
    Some (if tm > currentTerm rf then (True, stepped_down rf tm) else (False, rf))"
proof -
  have "healthy (rf\<lparr>currentTerm := tm, votedFor := -1, state := StateFollower\<rparr>)"
    using assms by (simp add: healthy_def)
  then show ?thesis
    by (simp add: handleHigherTerm_def persist_ok resetElectionTimer_ok stepped_down_def)
qed

section \<open>Snapshots\<close>

lemma log_rel_compact:
  assumes "log_rel rf X" "indexed X" "lastIncludedIndex rf < i" "i < int (length X)"
  shows "log_rel (rf\<lparr>logs := drop (nat (i - lastIncludedIndex rf)) (logs rf),
      lastIncludedIndex := i, lastIncludedTerm := Term (X ! nat i)\<rparr>) X"
    and "hd (drop (nat (i - lastIncludedIndex rf)) (logs rf)) = X ! nat i"
    and "drop (nat (i - lastIncludedIndex rf)) (logs rf) \<noteq> []"
proof -
  let ?L = "lastIncludedIndex rf" and ?k = "nat (i - lastIncludedIndex rf)"
  have L: "0 \<le> ?L" "int (length (logs rf)) = int (length X) - ?L"
    using assms(1) log_rel_length [OF assms(1)] by (auto simp: log_rel_def)
  have k: "0 < ?k" "?k < length (logs rf)" "nat ?L + ?k = nat i" using assms(3,4) L by linarith+
  show ne: "drop ?k (logs rf) \<noteq> []" using k by simp
  have h: "logs rf ! ?k = X ! nat i" using log_rel_logs_nth [OF assms(1) k(1,2)] k(3) by simp
  then show hd: "hd (drop ?k (logs rf)) = X ! nat i" using k(2) by (simp add: hd_drop_conv_nth)
  have "tl (drop ?k (logs rf)) = drop ?k (tl (logs rf))" by (simp add: drop_Suc tl_drop)
  also have "\<dots> = drop (Suc (nat i)) X"
    using assms(1) k(3) by (simp add: log_rel_def add.commute)
  finally have tl: "tl (drop ?k (logs rf)) = drop (Suc (nat i)) X" .
  have "Index (X ! nat i) = i" using assms(2,3,4) L(1) by (simp add: indexed_def)
  with ne hd tl assms(3,4) L(1) show "log_rel (rf\<lparr>logs := drop ?k (logs rf),
      lastIncludedIndex := i, lastIncludedTerm := Term (X ! nat i)\<rparr>) X"
    by (simp add: log_rel_def)
qed

definition compacted :: "Raft \<Rightarrow> Entry list \<Rightarrow> int \<Rightarrow> Raft" where
  "compacted rf X i = rf\<lparr>logs := drop (nat (i - lastIncludedIndex rf)) (logs rf),
      lastIncludedIndex := i, lastIncludedTerm := Term (X ! nat i)\<rparr>"

lemma Snapshot_eq:
  assumes "healthy rf" "log_rel rf X" "indexed X" "commitIndex rf < int (length X)"
  shows "Snapshot rf i sn =
    (if i \<le> lastIncludedIndex rf \<or> i > commitIndex rf then Some rf
     else Some (stored (compacted rf X i) sn))"
proof (cases "i \<le> lastIncludedIndex rf \<or> i > commitIndex rf")
  case False
  let ?k = "nat (i - lastIncludedIndex rf)"
  have i: "lastIncludedIndex rf < i" "i < int (length X)" using False assms(4) by auto
  note c = log_rel_compact [OF assms(2,3) i]
  have "int (length (logs rf)) = int (length X) - lastIncludedIndex rf"
    using assms(2) log_rel_length [OF assms(2)] by (auto simp: log_rel_def)
  then have s: "slice_from (logs rf) (i - lastIncludedIndex rf) = Some (drop ?k (logs rf))"
    using i by simp
  have "idx (drop ?k (logs rf)) 0 = Some (hd (drop ?k (logs rf)))"
    using c(3) by (rule idx_0)
  with False s c(2) assms(1) show ?thesis
    by (simp add: Snapshot_def getPhysicalIndex_def getFirstLog_def save_or_fatal_ok healthy_def
        compacted_def)
qed (simp add: Snapshot_def)

text \<open>The server after it has accepted the sender of a snapshot as its leader.\<close>

definition is_enter :: "Raft \<Rightarrow> InstallSnapshotArgs \<Rightarrow> Raft" where
  "is_enter rf args =
     (let rf1 = (if isa_Term args > currentTerm rf
                 then stored (rf\<lparr>currentTerm := isa_Term args, votedFor := -1\<rparr>)
                        (disk_snapshot (persister rf))
                 else rf)
      in emit (rf1\<lparr>currentLeader := isa_LeaderId args, state := StateFollower\<rparr>) ResetElectionTimer)"

lemma is_enter_sel [simp]:
  "logs (is_enter rf args) = logs rf"
  "lastIncludedIndex (is_enter rf args) = lastIncludedIndex rf"
  "lastIncludedTerm (is_enter rf args) = lastIncludedTerm rf"
  "commitIndex (is_enter rf args) = commitIndex rf" "lastApplied (is_enter rf args) = lastApplied rf"
  "peers (is_enter rf args) = peers rf" "me (is_enter rf args) = me rf"
  "nextIndex (is_enter rf args) = nextIndex rf" "matchIndex (is_enter rf args) = matchIndex rf"
  "grantedVotes (is_enter rf args) = grantedVotes rf"
  "eff (is_enter rf args) = eff rf @ [ResetElectionTimer]"
  "state (is_enter rf args) = StateFollower"
  "votedFor (is_enter rf args) = (if isa_Term args > currentTerm rf then -1 else votedFor rf)"
  "healthy (is_enter rf args) = healthy rf" "log_rel (is_enter rf args) X = log_rel rf X"
  by (simp_all add: is_enter_def healthy_def log_rel_def Let_def)

lemma is_enter_term:
  "currentTerm rf \<le> isa_Term args \<Longrightarrow> currentTerm (is_enter rf args) = isa_Term args"
  by (auto simp: is_enter_def Let_def)

lemma is_enter_synced:
  assumes "synced rf" "currentTerm rf \<le> isa_Term args"
  shows "synced (is_enter rf args)"
proof (cases "isa_Term args > currentTerm rf")
  case True
  let ?r = "stored (rf\<lparr>currentTerm := isa_Term args, votedFor := -1\<rparr>)
    (disk_snapshot (persister rf))"
  have "synced ?r" by simp
  then have "synced (?r\<lparr>currentLeader := isa_LeaderId args, state := StateFollower\<rparr>)"
    by (rule synced_cong) simp_all
  with True show ?thesis by (simp add: is_enter_def Let_def)
next
  case False
  with assms show ?thesis
    by (simp add: is_enter_def Let_def) (rule synced_cong [OF assms(1)], simp_all)
qed

lemma InstallSnapshot_eq:
  assumes "healthy rf" "currentTerm rf \<le> isa_Term args"
  shows "InstallSnapshot rf args =
    (let reply = \<lparr>isr_Term = currentTerm rf\<rparr>; rf4 = is_enter rf args
     in if isa_LastIncludedIndex args \<le> lastIncludedIndex rf then Some (rf4, reply)
        else do {
          rf5 \<leftarrow> truncateLogWithSnapshot rf4 (isa_LastIncludedIndex args)
                                            (isa_LastIncludedTerm args);
          rf8 \<leftarrow> save_or_fatal (rf5\<lparr>lastIncludedIndex := isa_LastIncludedIndex args,
                        lastIncludedTerm := isa_LastIncludedTerm args,
                        commitIndex := max (commitIndex rf5) (isa_LastIncludedIndex args)\<rparr>)
                     (isa_Data args);
          Some (signalApplier rf8, reply)
        })"
proof -
  let ?rf1 = "if isa_Term args > currentTerm rf
              then stored (rf\<lparr>currentTerm := isa_Term args, votedFor := -1\<rparr>)
                        (disk_snapshot (persister rf)) else rf"
  have h: "healthy (rf\<lparr>currentTerm := isa_Term args, votedFor := -1\<rparr>)" "healthy ?rf1"
    using assms(1) by (simp_all add: healthy_def)
  have p: "(if isa_Term args > currentTerm rf
      then persist (rf\<lparr>currentTerm := isa_Term args, votedFor := -1\<rparr>) else Some rf) = Some ?rf1"
    using h(1) by (simp add: persist_ok)
  let ?rf2 = "?rf1\<lparr>currentLeader := isa_LeaderId args\<rparr>"
  let ?rf3 = "if state ?rf2 \<noteq> StateFollower then ?rf2\<lparr>state := StateFollower\<rparr> else ?rf2"
  have h3: "healthy ?rf3" using h(2) by (simp add: healthy_def)
  have e3: "emit ?rf3 ResetElectionTimer = is_enter rf args"
    by (auto simp: is_enter_def Let_def)
  have mx: "(if i > commitIndex r then r\<lparr>commitIndex := i\<rparr> else r)
      = r\<lparr>commitIndex := max (commitIndex r) i\<rparr>" for r i
    by (auto simp: max_def)
  show ?thesis
    unfolding InstallSnapshot_def Let_def p bind.bind_lunit resetElectionTimer_ok [OF h3] e3 mx
    using assms(2) by (simp cong: if_cong)
qed

lemma truncate_keeps:
  assumes "log_rel rf X" "indexed X" "lastIncludedIndex rf < i"
  shows "truncateLogWithSnapshot rf i tm =
    (if i < int (length X) \<and> Term (X ! nat i) = tm
     then Some (rf\<lparr>logs := drop (nat (i - lastIncludedIndex rf)) (logs rf)\<rparr>)
     else Some (rf\<lparr>logs := [\<lparr>Index = i, Term = tm, Command = AnyNil\<rparr>]\<rparr>))"
proof (cases "i < int (length X)")
  case True
  obtain e where e: "getLog rf i = Some e" "Term e = Term (X ! nat i)"
    using log_rel_getLog [OF assms(1,2) less_imp_le [OF assms(3)] True] by metis
  have "int (length (logs rf)) = int (length X) - lastIncludedIndex rf"
    using assms(1) log_rel_length [OF assms(1)] by (auto simp: log_rel_def)
  then have "slice_from (logs rf) (i - lastIncludedIndex rf) =
      Some (drop (nat (i - lastIncludedIndex rf)) (logs rf))"
    using assms(3) True by simp
  with True e log_rel_getLen [OF assms(1)] show ?thesis
    by (simp add: truncateLogWithSnapshot_def getPhysicalIndex_def)
next
  case False
  with log_rel_getLen [OF assms(1)] show ?thesis by (simp add: truncateLogWithSnapshot_def)
qed

text \<open>
  A snapshot that covers the prefix \<open>M\<close> of the leader's log merges \<open>M\<close> into the
  receiver's log, as an accepted \<open>AppendEntries\<close> does.
\<close>

lemma InstallSnapshot_install:
  assumes "healthy rf" "currentTerm rf \<le> isa_Term args" "log_rel rf X" "indexed X"
    and M: "indexed M" "compat X M" "int (length M) = isa_LastIncludedIndex args + 1"
      "Term (last M) = isa_LastIncludedTerm args"
    and i: "lastIncludedIndex rf < isa_LastIncludedIndex args"
  shows "\<exists>rf'. InstallSnapshot rf args =
      Some (signalApplier (stored rf' (isa_Data args)), \<lparr>isr_Term = currentTerm rf\<rparr>) \<and>
     log_rel rf' (amerge X M) \<and>
     (\<exists>ls. rf' = (is_enter rf args)\<lparr>logs := ls, lastIncludedIndex := isa_LastIncludedIndex args,
        lastIncludedTerm := isa_LastIncludedTerm args,
        commitIndex := max (commitIndex rf) (isa_LastIncludedIndex args)\<rparr>)"
proof -
  let ?i = "isa_LastIncludedIndex args" and ?tm = "isa_LastIncludedTerm args"
  let ?rf = "is_enter rf args"
  have rel: "log_rel ?rf X" using assms(3) by simp
  have L: "0 \<le> lastIncludedIndex rf" using assms(3) by (simp add: log_rel_def)
  have neM: "M \<noteq> []" and lenM: "length M = Suc (nat ?i)"
    using M(1,3) L i by (auto simp: indexed_def)
  have lastM: "M ! nat ?i = last M" using neM lenM by (simp add: last_conv_nth)
  let ?keep = "?i < int (length X) \<and> Term (X ! nat ?i) = ?tm"
  define ls where "ls = (if ?keep then drop (nat (?i - lastIncludedIndex rf)) (logs rf)
                         else [\<lparr>Index = ?i, Term = ?tm, Command = AnyNil\<rparr>])"
  define rf' where "rf' = ?rf\<lparr>logs := ls, lastIncludedIndex := ?i, lastIncludedTerm := ?tm,
        commitIndex := max (commitIndex rf) ?i\<rparr>"
  have tr: "truncateLogWithSnapshot ?rf ?i ?tm = Some (?rf\<lparr>logs := ls\<rparr>)"
    using truncate_keeps [OF rel assms(4), of ?i ?tm] i by (simp add: ls_def)
  have "no_faults (persister rf')"
    using assms(1) by (simp add: rf'_def healthy_def is_enter_def Let_def)
  then have "InstallSnapshot rf args =
      Some (signalApplier (stored rf' (isa_Data args)), \<lparr>isr_Term = currentTerm rf\<rparr>)"
    using i by (simp add: InstallSnapshot_eq [OF assms(1,2)] tr save_or_fatal_ok rf'_def)
  moreover have "log_rel rf' (amerge X M)"
  proof (cases ?keep)
    case True
    have "nat ?i < length X" "nat ?i < length M" using True L i lenM by auto
    moreover have "Term (X ! nat ?i) = Term (M ! nat ?i)" using True lastM M(4) by simp
    ultimately have "take (Suc (nat ?i)) X = take (Suc (nat ?i)) M"
      using M(2) by (simp add: compat_def)
    then have "prefix M X" using lenM by (metis order_refl take_all take_is_prefix)
    then have "amerge X M = X" by (simp add: amerge_def)
    moreover have "lastIncludedIndex ?rf < ?i" "?i < int (length X)" using True i by simp_all
    then have "log_rel (?rf\<lparr>logs := drop (nat (?i - lastIncludedIndex ?rf)) (logs ?rf),
        lastIncludedIndex := ?i, lastIncludedTerm := Term (X ! nat ?i)\<rparr>) X"
      by (rule log_rel_compact(1) [OF rel assms(4)])
    then have "log_rel rf' X"
    proof (rule log_rel_cong)
      have "ls = drop (nat (?i - lastIncludedIndex rf)) (logs rf)"
        unfolding ls_def using True by (rule if_P)
      then show "logs rf' = logs (?rf\<lparr>logs := drop (nat (?i - lastIncludedIndex ?rf)) (logs ?rf),
        lastIncludedIndex := ?i, lastIncludedTerm := Term (X ! nat ?i)\<rparr>)" by (simp add: rf'_def)
    qed (use True in \<open>simp_all add: rf'_def\<close>)
    ultimately show ?thesis by simp
  next
    case False
    have "\<not> prefix M X"
    proof
      assume p: "prefix M X"
      then have "X ! nat ?i = M ! nat ?i" using prefix_nth [OF p, of "nat ?i"] lenM by simp
      with p False lastM M(3,4) show False using prefix_length_le [OF p] by simp
    qed
    then have "amerge X M = M" by (simp add: amerge_def)
    moreover have "ls = [\<lparr>Index = ?i, Term = ?tm, Command = AnyNil\<rparr>]"
      unfolding ls_def using False by (rule if_not_P)
    ultimately show ?thesis
      using L i lenM lastM M(4) by (simp add: rf'_def log_rel_def)
  qed
  ultimately show ?thesis unfolding rf'_def by blast
qed

section \<open>Elections\<close>

lemma enterCandidate_eq:
  assumes "healthy rf"
  shows "enterCandidate rf =
    Some (stored (rf\<lparr>state := StateCandidate, currentTerm := currentTerm rf + 1\<rparr>)
            (disk_snapshot (persister rf)))"
proof -
  have "healthy (rf\<lparr>state := StateCandidate, currentTerm := currentTerm rf + 1\<rparr>)"
    using assms by (simp add: healthy_def)
  from persist_ok [OF this] show ?thesis by (simp add: enterCandidate_def)
qed

definition vote_args :: "Raft \<Rightarrow> Entry list \<Rightarrow> RequestVoteArgs" where
  "vote_args rf X = \<lparr>rva_Term = currentTerm rf + 1, rva_CandidateId = me rf,
     rva_LastLogTerm = Term (last X), rva_LastLogIndex = int (length X) - 1\<rparr>"

text \<open>What \<open>becomeCandidate\<close> makes of a server.\<close>

definition is_candidate_of :: "Raft \<Rightarrow> Entry list \<Rightarrow> Raft \<Rightarrow> bool" where
  "is_candidate_of rf X rf' \<longleftrightarrow>
     peers rf' = peers rf \<and> me rf' = me rf \<and> healthy rf' \<and> synced rf' \<and>
     state rf' = StateCandidate \<and> currentTerm rf' = currentTerm rf + 1 \<and> votedFor rf' = me rf \<and>
     logs rf' = logs rf \<and> commitIndex rf' = commitIndex rf \<and> lastApplied rf' = lastApplied rf \<and>
     nextIndex rf' = nextIndex rf \<and> matchIndex rf' = matchIndex rf \<and>
     lastIncludedIndex rf' = lastIncludedIndex rf \<and> lastIncludedTerm rf' = lastIncludedTerm rf \<and>
     grantedVotes rf' = grantedVotes rf @ [1] \<and>
     eff rf' = eff rf @ map (\<lambda>q. GoRequestVoteFromPeer q (vote_args rf X)
                                (int (length (grantedVotes rf)))) (other_peers rf)
                     @ [ResetElectionTimer] \<and>
     disk_snapshot (persister rf') = disk_snapshot (persister rf)"

lemma becomeCandidate_spec:
  assumes "healthy rf" "log_rel rf X" "indexed X"
  shows "\<exists>rf'. becomeCandidate rf = Some rf' \<and> is_candidate_of rf X rf'"
proof -
  let ?sn = "disk_snapshot (persister rf)"
  define r1 where "r1 = stored (rf\<lparr>state := StateCandidate, currentTerm := currentTerm rf + 1\<rparr>) ?sn"
  define r2 where "r2 = r1\<lparr>votedFor := me r1, currentLeader := -1\<rparr>"
  define r3 where "r3 = stored r2 ?sn"
  define r4 where "r4 = r3\<lparr>grantedVotes := grantedVotes r3 @ [1]\<rparr>"
  have h1: "healthy r1" using assms(1) by (simp add: r1_def) (simp add: healthy_def)
  then have h2: "healthy r2" by (simp add: r2_def healthy_def)
  have sn2: "disk_snapshot (persister r2) = ?sn" by (simp add: r2_def r1_def)
  have p3: "persist r2 = Some r3" using persist_ok [OF h2] by (simp add: r3_def sn2)
  have "log_rel rf X" by (rule assms(2))
  then have rel3: "log_rel r3 X"
    by (rule log_rel_cong) (simp_all add: r3_def r2_def r1_def)
  obtain e where "getLastLog r3 = Some e" "Term e = Term (last X)" "Index e = int (length X) - 1"
    using log_rel_getLastLog [OF rel3 assms(3)] by metis
  then have g: "genRequestVoteArgs r3 = Some (vote_args rf X)"
    by (simp add: genRequestVoteArgs_def vote_args_def r3_def r2_def r1_def)
  have h4: "healthy r4" using h2 by (simp add: r4_def r3_def healthy_def)
  have se: "startElection r1 = Some (add_effects r4 (map (\<lambda>q. GoRequestVoteFromPeer q
      (vote_args rf X) (int (length (grantedVotes r3)))) (other_peers r4)))"
    unfolding startElection_def r2_def [symmetric]
    by (simp add: p3 g foldl_emit other_peers_def r4_def Let_def)
  have bc: "becomeCandidate rf = Some (emit (add_effects r4 (map (\<lambda>q. GoRequestVoteFromPeer q
      (vote_args rf X) (int (length (grantedVotes r3)))) (other_peers r4))) ResetElectionTimer)"
    using h4 by (simp add: becomeCandidate_def enterCandidate_eq [OF assms(1)] r1_def [symmetric] se
        resetElectionTimer_ok)
  have "synced r3" by (simp add: r3_def)
  then have s4: "synced r4" by (rule synced_cong) (simp_all add: r4_def)
  have op: "other_peers r4 = other_peers rf"
    by (simp add: other_peers_def peer_range_def r4_def r3_def r2_def r1_def)
  have "disk_snapshot (persister r4) = ?sn" by (simp add: r4_def r3_def)
  then show ?thesis
    using h4 s4 op
    by (simp add: bc is_candidate_of_def) (simp add: r4_def r3_def r2_def r1_def)
qed

text \<open>What \<open>becomeLeader\<close> makes of a candidate.\<close>

definition leading :: "Raft \<Rightarrow> Entry list \<Rightarrow> Raft" where
  "leading rf X =
     emit (add_effects (rf\<lparr>state := StateLeader, currentLeader := me rf,
             nextIndex := replicate (peers rf) (int (length X)),
             matchIndex := (replicate (peers rf) (lastIncludedIndex rf))
                             [nat (me rf) := int (length X) - 1]\<rparr>)
           (map GoReplicateToPeer (other_peers rf))) ResetHeartbeatTimer"

lemma becomeLeader_eq:
  assumes "log_rel rf X" "indexed X" "0 \<le> me rf" "me rf < int (peers rf)"
  shows "becomeLeader rf = Some (leading rf X)"
proof -
  let ?r = "rf\<lparr>state := StateLeader, currentLeader := me rf\<rparr>"
  have "log_rel ?r X" using assms(1) by (rule log_rel_cong) simp_all
  then obtain e where "getLastLog ?r = Some e" "Index e = int (length X) - 1"
    using log_rel_getLastLog [OF _ assms(2)] by metis
  with assms(3,4) show ?thesis
    by (simp add: becomeLeader_def leading_def Let_def signalBroadcastReplication_eq
        resetHeartbeatTimer_def other_peers_def peer_range_def)
qed

definition counted :: "Raft \<Rightarrow> int \<Rightarrow> Raft" where
  "counted rf k = rf\<lparr>grantedVotes := (grantedVotes rf)[nat k := grantedVotes rf ! nat k + 1]\<rparr>"

lemma requestVoteFromPeer_eq:
  assumes "healthy rf" "log_rel rf X" "indexed X" "0 \<le> me rf" "me rf < int (peers rf)"
    and "isStillValidCandidate rf (rva_Term args) \<Longrightarrow> 0 \<le> k \<and> k < int (length (grantedVotes rf))"
  shows "requestVoteFromPeer rf args k (Some reply) =
    Some (if \<not> isStillValidCandidate rf (rva_Term args) then rf
     else if rvr_Term reply > currentTerm rf then stepped_down rf (rvr_Term reply)
     else if \<not> rvr_VoteGranted reply then rf
     else if grantedVotes rf ! nat k + 1 = int (peers rf) div 2 + 1
     then leading (counted rf k) X else counted rf k)"
proof -
  have "log_rel (counted rf k) X"
    using assms(2) by (rule log_rel_cong) (simp_all add: counted_def)
  moreover have "me (counted rf k) = me rf" "peers (counted rf k) = peers rf"
    by (simp_all add: counted_def)
  ultimately have "becomeLeader (counted rf k) = Some (leading (counted rf k) X)"
    using becomeLeader_eq [of "counted rf k"] assms(3-5) by simp
  then show ?thesis
    using assms(1,6)
    by (auto simp: requestVoteFromPeer_def handleHigherTerm_eq counted_def)
qed

section \<open>The leader\<close>

lemma log_rel_drop:
  assumes "log_rel rf X" "lastIncludedIndex rf < n"
  shows "drop (nat (n - lastIncludedIndex rf)) (logs rf) = drop (nat n) X"
proof -
  obtain k where k: "nat (n - lastIncludedIndex rf) = Suc k"
    using assms(2) by (metis diff_gt_0_iff_gt gr0_implies_Suc zero_less_nat_eq)
  have "k + Suc (nat (lastIncludedIndex rf)) = nat n"
    using k assms by (simp add: log_rel_def) linarith
  then have "drop k (drop (Suc (nat (lastIncludedIndex rf))) X) = drop (nat n) X" by simp
  moreover have "drop (Suc k) (logs rf) = drop k (tl (logs rf))" by (rule drop_Suc)
  ultimately show ?thesis using assms(1) by (simp only: k log_rel_def)
qed

lemma log_rel_snoc:
  "log_rel rf X \<Longrightarrow> log_rel (rf\<lparr>logs := logs rf @ [e]\<rparr>) (X @ [e])"
  by (auto simp: log_rel_def nth_append)

definition new_entry :: "Raft \<Rightarrow> Entry list \<Rightarrow> any \<Rightarrow> Entry" where
  "new_entry rf X c = \<lparr>Index = int (length X), Term = currentTerm rf, Command = c\<rparr>"

lemma Start_eq:
  assumes "healthy rf" "log_rel rf X"
  shows "Start rf c =
    (if state rf \<noteq> StateLeader then Some ((-1, -1, False), rf)
     else Some ((int (length X), currentTerm rf, True),
       add_effects (stored (rf\<lparr>logs := logs rf @ [new_entry rf X c]\<rparr>) (disk_snapshot (persister rf)))
         (map SignalReplication (other_peers rf))))"
proof -
  have "healthy (rf\<lparr>logs := logs rf @ [new_entry rf X c]\<rparr>)" using assms(1) by (simp add: healthy_def)
  from persist_ok [OF this] show ?thesis
    by (simp add: Start_def Let_def log_rel_getLen [OF assms(2)] new_entry_def [symmetric]
        signalBroadcastReplication_eq other_peers_def peer_range_def)
qed

definition snapshot_request :: "Raft \<Rightarrow> InstallSnapshotArgs" where
  "snapshot_request rf = \<lparr>isa_Term = currentTerm rf, isa_LeaderId = me rf,
     isa_LastIncludedIndex = lastIncludedIndex rf, isa_LastIncludedTerm = lastIncludedTerm rf,
     isa_Data = disk_snapshot (persister rf)\<rparr>"

definition append_request :: "Raft \<Rightarrow> Entry list \<Rightarrow> int \<Rightarrow> AppendEntriesArgs" where
  "append_request rf X n = \<lparr>aea_Term = currentTerm rf, aea_LeaderId = me rf,
     aea_PrevLogIndex = n - 1, aea_PrevLogTerm = Term (X ! nat (n - 1)),
     aea_Entries = drop (nat n) X, aea_LeaderCommit = commitIndex rf\<rparr>"

lemma replicateToPeer_eq:
  assumes "healthy rf" "log_rel rf X" "indexed X" "0 \<le> q" "q < int (length (nextIndex rf))"
    "nextIndex rf ! nat q \<le> int (length X)"
  shows "replicateToPeer rf q =
    Some (if state rf \<noteq> StateLeader then NoRpc
          else if nextIndex rf ! nat q \<le> lastIncludedIndex rf
          then SendInstallSnapshot (snapshot_request rf)
          else SendAppendEntries (append_request rf X (nextIndex rf ! nat q)), rf)"
proof -
  let ?n = "nextIndex rf ! nat q"
  have snap: "genInstallSnapshotArgs rf = (snapshot_request rf, rf)"
    using assms(1) by (simp add: genInstallSnapshotArgs_def snapshot_request_def healthy_def
        read_files snapshot_or_nil_def disk_snapshot_def)
  have "genAppendEntriesArgs rf (?n - 1) = Some (append_request rf X ?n)"
    if b: "lastIncludedIndex rf < ?n"
  proof -
    let ?k = "nat (?n - lastIncludedIndex rf)"
    have L: "0 \<le> lastIncludedIndex rf" "int (length (logs rf)) = int (length X) - lastIncludedIndex rf"
      using assms(2) log_rel_length [OF assms(2)] by (auto simp: log_rel_def)
    obtain e where e: "getLog rf (?n - 1) = Some e" "Term e = Term (X ! nat (?n - 1))"
    proof (rule log_rel_getLog [OF assms(2,3)])
      show "lastIncludedIndex rf \<le> ?n - 1" "?n - 1 < int (length X)" using b assms(6) by simp_all
    qed
    have sl: "slice_from (logs rf) (?n - 1 - lastIncludedIndex rf + 1) = Some (drop ?k (logs rf))"
      using that assms(6) L by simp
    have dr: "drop ?k (logs rf) = drop (nat ?n) X" by (rule log_rel_drop [OF assms(2) that])
    show ?thesis
      using e sl by (simp add: dr genAppendEntriesArgs_def Let_def getPhysicalIndex_def getLog_def
          append_request_def)
  qed
  with snap assms(4,5) show ?thesis by (simp add: replicateToPeer_def)
qed

definition set_next :: "Raft \<Rightarrow> int \<Rightarrow> int \<Rightarrow> Raft" where
  "set_next rf q n = rf\<lparr>nextIndex := (nextIndex rf)[nat q := n]\<rparr>"

lemma resolveConflict_spec:
  assumes "log_rel rf X" "indexed X" "0 \<le> q" "q < int (peers rf)" "length (nextIndex rf) = peers rf"
    "aea_PrevLogIndex args < int (length X)" "aer_ConflictIndex reply \<le> int (length X)"
  shows "resolveConflict rf q args reply = Some (emit rf (SignalReplication q)) \<or>
    (\<exists>n \<le> int (length X). resolveConflict rf q args reply =
       Some (emit (set_next rf q n) (SignalReplication q)))"
proof -
  obtain j where j: "findLastIndexOfTerm rf (aer_ConflictTerm reply) (aea_PrevLogIndex args) = Some j"
    "j = -1 \<or> j \<le> aea_PrevLogIndex args"
    using findLastIndexOfTerm_spec [OF assms(1,2,6)] by blast
  define n where "n = (if aer_ConflictTerm reply = -1 then aer_ConflictIndex reply
    else if j > 0 then j + 1 else aer_ConflictIndex reply)"
  have n: "n \<le> int (length X)" using j(2) assms(6,7) by (auto simp: n_def)
  have "resolveConflict rf q args reply =
    (if aea_PrevLogIndex args < lastIncludedIndex rf then Some (emit rf (SignalReplication q))
     else Some (emit (set_next rf q n) (SignalReplication q)))"
    using assms(3-5) j(1)
    by (auto simp: resolveConflict_def signalReplication_def n_def set_next_def)
  with n show ?thesis by auto
qed

definition advanced :: "Raft \<Rightarrow> int \<Rightarrow> int \<Rightarrow> Raft" where
  "advanced rf q m =
     emit (rf\<lparr>matchIndex := (matchIndex rf)[nat q := m], nextIndex := (nextIndex rf)[nat q := m + 1]\<rparr>)
       (SignalReplication q)"

lemma advancePeerIndices_eq:
  assumes "0 \<le> q" "q < int (peers rf)" "length (nextIndex rf) = peers rf"
    "length (matchIndex rf) = peers rf"
  shows "advancePeerIndices rf q args =
    (let m = aea_PrevLogIndex args + int (length (aea_Entries args))
     in Some (if m > matchIndex rf ! nat q then advanced rf q m else rf))"
  using assms
  by (simp add: advancePeerIndices_def Let_def signalReplication_def advanced_def)

lemma handleAppendEntriesReply_eq:
  assumes "healthy rf"
  shows "handleAppendEntriesReply rf q args reply =
    (if aer_Term reply > currentTerm rf then Some (stepped_down rf (aer_Term reply))
     else if state rf \<noteq> StateLeader \<or> currentTerm rf \<noteq> aea_Term args then Some rf
     else if \<not> aer_Success reply then resolveConflict rf q args reply
     else advancePeerIndices rf q args \<bind> updateCommitIndex)"
  using assms
  by (simp add: handleAppendEntriesReply_def shouldIgnoreReply_def handleHigherTerm_eq)

lemma handleInstallSnapshotReply_eq:
  assumes "healthy rf" "0 \<le> q" "q < int (peers rf)" "length (nextIndex rf) = peers rf"
    "length (matchIndex rf) = peers rf"
  shows "handleInstallSnapshotReply rf q args reply =
    Some (if isr_Term reply > currentTerm rf then stepped_down rf (isr_Term reply)
     else if state rf = StateLeader \<and> currentTerm rf = isa_Term args
     then emit (rf\<lparr>nextIndex := (nextIndex rf)[nat q :=
                   max (nextIndex rf ! nat q) (isa_LastIncludedIndex args + 1)],
                matchIndex := (matchIndex rf)[nat q :=
                   max (matchIndex rf ! nat q) (isa_LastIncludedIndex args)]\<rparr>)
            (SignalReplication q)
     else rf)"
proof -
  have "nextIndex rf ! nat q = isa_LastIncludedIndex args + 1"
    if "nextIndex rf ! nat q \<le> isa_LastIncludedIndex args + 1"
      "\<not> nextIndex rf ! nat q \<le> isa_LastIncludedIndex args"
    using that by linarith
  then have "(nextIndex rf)[nat q := isa_LastIncludedIndex args + 1] = nextIndex rf"
    if "nextIndex rf ! nat q \<le> isa_LastIncludedIndex args + 1"
      "\<not> nextIndex rf ! nat q \<le> isa_LastIncludedIndex args"
    using that by (metis list_update_id)
  with assms show ?thesis
    by (auto simp: handleInstallSnapshotReply_def handleHigherTerm_eq Let_def signalReplication_def
        max_def)
qed

section \<open>Applying committed entries\<close>

definition snapshot_msg :: "Raft \<Rightarrow> ApplyMsg" where
  "snapshot_msg rf = zero_ApplyMsg\<lparr>SnapshotValid := True,
     am_Snapshot := disk_snapshot (persister rf),
     SnapshotTerm := lastIncludedTerm rf, SnapshotIndex := lastIncludedIndex rf\<rparr>"

definition command_msg :: "Entry \<Rightarrow> ApplyMsg" where
  "command_msg e = zero_ApplyMsg\<lparr>CommandValid := True, am_Command := Command e,
     CommandIndex := Index e\<rparr>"

lemma applier_eq:
  assumes "healthy rf" "log_rel rf X" "commitIndex rf < int (length X)"
  shows "applier rf =
    (if lastApplied rf \<ge> commitIndex rf then Some ([], rf)
     else if lastApplied rf < lastIncludedIndex rf
     then Some ([snapshot_msg rf], rf\<lparr>lastApplied := lastIncludedIndex rf\<rparr>)
     else Some (map command_msg (drop (nat (lastApplied rf + 1)) (take (nat (commitIndex rf + 1)) X)),
            rf\<lparr>lastApplied := commitIndex rf\<rparr>))"
proof (cases "lastApplied rf \<ge> commitIndex rf \<or> lastApplied rf < lastIncludedIndex rf")
  case True
  with assms(1) show ?thesis
    by (auto simp: applier_def healthy_def killed_def read_files snapshot_or_nil_def Let_def
        snapshot_msg_def disk_snapshot_def)
next
  case False
  let ?L = "lastIncludedIndex rf" and ?a = "lastApplied rf + 1" and ?c = "commitIndex rf + 1"
  have L: "0 \<le> ?L" "int (length (logs rf)) = int (length X) - ?L"
    using assms(2) log_rel_length [OF assms(2)] by (auto simp: log_rel_def)
  have b: "0 < ?a - ?L" "?a - ?L \<le> ?c - ?L" "?c - ?L \<le> int (length (logs rf))"
    using False assms(3) L by linarith+
  then have s: "slice (logs rf) (?a - ?L) (commitIndex rf - ?L + 1) =
      Some (take (nat (?c - ?L) - nat (?a - ?L)) (drop (nat (?a - ?L)) (logs rf)))"
    by (simp add: slice_def algebra_simps)
  have "nat (?c - ?L) - nat (?a - ?L) = nat ?c - nat ?a" using b L by linarith
  moreover have "drop (nat (?a - ?L)) (logs rf) = drop (nat ?a) X"
    using log_rel_drop [OF assms(2)] b(1) by simp
  ultimately have "take (nat (?c - ?L) - nat (?a - ?L)) (drop (nat (?a - ?L)) (logs rf)) =
      drop (nat ?a) (take (nat ?c) X)" by (simp only: drop_take)
  with s False assms(1) show ?thesis
    by (simp add: applier_def healthy_def killed_def Let_def getPhysicalIndex_def command_msg_def)
qed

end
