(* ===== verification/Raft_Cluster.thy ===== *)
theory Raft_Cluster
  imports Raft_Handlers
begin

text \<open>
  A cluster of Raft servers and everything that is in flight between them. One step of
  the cluster is one critical section of one server: the election or heartbeat branch of
  \<^verbatim>\<open>ticker\<close>, a round of \<^verbatim>\<open>replicator\<close>, the two halves of \<^verbatim>\<open>replicateToPeer\<close> and
  \<^verbatim>\<open>requestVoteFromPeer\<close>, an RPC handler, \<^verbatim>\<open>Start\<close>, \<^verbatim>\<open>Snapshot\<close>, a round of
  \<^verbatim>\<open>applier\<close>; or the loss of a call, or the crash and restart of a server.

  The network may delay, reorder and lose calls. It delivers a request at most once
  and returns at most one reply per call, as a unary gRPC call does. A server may crash
  between any two of its calls of \<open>Save\<close>, which is taken to be atomic and not to fail here; it
  restarts with \<open>Make\<close> on what it saved. Calls of a server that crashed stay in flight.
\<close>

section \<open>Tasks in flight\<close>

text \<open>
  A goroutine that the code has started, with the state of its RPC: not sent, request in
  flight, reply in flight. The first argument is the caller, the second the callee.
\<close>

datatype task =
    Replicate int int
  | VoteRequest int int RequestVoteArgs int
  | VoteReply int int RequestVoteArgs int RequestVoteReply
  | AppendRequest int int AppendEntriesArgs
  | AppendReply int int AppendEntriesArgs AppendEntriesReply
  | SnapshotRequest int int InstallSnapshotArgs
  | SnapshotReply int int InstallSnapshotArgs InstallSnapshotReply

record cluster =
  nodes :: "Raft list"
  tasks :: "task list"
  applied :: "ApplyMsg list list"

text \<open>\<open>applied\<close> is what each server has sent on its \<^verbatim>\<open>applyCh\<close>, in order.\<close>

fun spawn :: "int \<Rightarrow> effect \<Rightarrow> task list" where
  "spawn p (GoReplicateToPeer q) = [Replicate p q]"
| "spawn p (GoRequestVoteFromPeer q args addr) = [VoteRequest p q args addr]"
| "spawn p _ = []"

definition spawned :: "int \<Rightarrow> effect list \<Rightarrow> task list" where
  "spawned p es = concat (map (spawn p) es)"

section \<open>Steps\<close>

datatype event =
    ElectionTimeout int
  | HeartbeatTimeout int
  | Replicator int int
  | Run nat
  | Lose nat
  | Submit int any
  | TakeSnapshot int int bytes
  | Apply int
  | Crash int
  | CrashInElection int
  | CrashInInstall nat

definition node :: "cluster \<Rightarrow> int \<Rightarrow> Raft" where
  "node c p = nodes c ! nat p"

text \<open>The end of a critical section: the server's new state, and the goroutines it started.\<close>

definition finish :: "int \<Rightarrow> Raft \<Rightarrow> task list \<Rightarrow> cluster \<Rightarrow> cluster" where
  "finish p rf ts c = c\<lparr>nodes := (nodes c)[nat p := rf\<lparr>eff := []\<rparr>], tasks := ts @ spawned p (eff rf)\<rparr>"

definition del :: "nat \<Rightarrow> 'a list \<Rightarrow> 'a list" where
  "del k xs = take k xs @ drop (Suc k) xs"

definition request_tasks :: "int \<Rightarrow> int \<Rightarrow> rpc_request \<Rightarrow> task list" where
  "request_tasks p q r =
     (case r of
        NoRpc \<Rightarrow> []
      | SendAppendEntries args \<Rightarrow> [AppendRequest p q args]
      | SendInstallSnapshot args \<Rightarrow> [SnapshotRequest p q args])"

text \<open>One task makes progress: an RPC is sent, or its handler runs, or its reply is handled.\<close>

definition run_task :: "nat \<Rightarrow> cluster \<Rightarrow> cluster option" where
  "run_task k c =
     (case tasks c ! k of
        Replicate p q \<Rightarrow> do {
          (req, rf) \<leftarrow> replicateToPeer (node c p) q;
          Some (finish p rf (del k (tasks c) @ request_tasks p q req) c)
        }
      | VoteRequest p q args addr \<Rightarrow> do {
          (rf, reply) \<leftarrow> RequestVote (node c q) args;
          Some (finish q rf ((tasks c)[k := VoteReply p q args addr reply]) c)
        }
      | VoteReply p q args addr reply \<Rightarrow> do {
          rf \<leftarrow> requestVoteFromPeer (node c p) args addr (Some reply);
          Some (finish p rf (del k (tasks c)) c)
        }
      | AppendRequest p q args \<Rightarrow> do {
          (rf, reply) \<leftarrow> AppendEntries (node c q) args;
          Some (finish q rf ((tasks c)[k := AppendReply p q args reply]) c)
        }
      | AppendReply p q args reply \<Rightarrow> do {
          rf \<leftarrow> handleAppendEntriesReply (node c p) q args reply;
          Some (finish p rf (del k (tasks c)) c)
        }
      | SnapshotRequest p q args \<Rightarrow> do {
          (rf, reply) \<leftarrow> InstallSnapshot (node c q) args;
          Some (finish q rf ((tasks c)[k := SnapshotReply p q args reply]) c)
        }
      | SnapshotReply p q args reply \<Rightarrow> do {
          rf \<leftarrow> handleInstallSnapshotReply (node c p) q args reply;
          Some (finish p rf (del k (tasks c)) c)
        })"

text \<open>A server that stops and is started again on its disk with the same configuration.\<close>

definition restart :: "Raft \<Rightarrow> Raft option" where
  "restart rf = Make (peers rf) (me rf) (persister rf) (electionTimeoutMin rf)
                  (electionTimeoutRand rf) (heartbeatTimeout rf)"

definition exec :: "event \<Rightarrow> cluster \<Rightarrow> cluster option" where
  "exec e c =
     (case e of
        ElectionTimeout p \<Rightarrow> do {
          rf \<leftarrow> ticker_election (node c p);
          Some (finish p rf (tasks c) c)
        }
      | HeartbeatTimeout p \<Rightarrow> Some (finish p (ticker_heartbeat (node c p)) (tasks c) c)
      | Replicator p q \<Rightarrow> do {
          needs \<leftarrow> needsReplication (node c p) q;
          if needs
          then do {
            (req, rf) \<leftarrow> replicateToPeer (node c p) q;
            Some (finish p rf (tasks c @ request_tasks p q req) c)
          }
          else Some c
        }
      | Run k \<Rightarrow> run_task k c
      | Lose k \<Rightarrow> Some (c\<lparr>tasks := del k (tasks c)\<rparr>)
      | Submit p cmd \<Rightarrow> do {
          (r, rf) \<leftarrow> Start (node c p) cmd;
          Some (finish p rf (tasks c) c)
        }
      | TakeSnapshot p i data \<Rightarrow> do {
          rf \<leftarrow> Snapshot (node c p) i data;
          Some (finish p rf (tasks c) c)
        }
      | Apply p \<Rightarrow> do {
          (msgs, rf) \<leftarrow> applier (node c p);
          Some ((finish p rf (tasks c) c)
                  \<lparr>applied := (applied c)[nat p := applied c ! nat p @ msgs]\<rparr>)
        }
      | Crash p \<Rightarrow> do {
          rf \<leftarrow> restart (node c p);
          Some (finish p rf (tasks c) c)
        }
      | CrashInElection p \<Rightarrow>
          if state (node c p) = StateLeader then Some c
          else do {
            rf1 \<leftarrow> enterCandidate (node c p);
            rf2 \<leftarrow> restart rf1;
            Some (finish p rf2 (tasks c) c)
          }
      | CrashInInstall k \<Rightarrow>
          (case tasks c ! k of
             SnapshotRequest p q args \<Rightarrow>
               if isa_Term args > currentTerm (node c q)
               then do {
                 rf1 \<leftarrow> persist ((node c q)\<lparr>currentTerm := isa_Term args, votedFor := -1\<rparr>);
                 rf2 \<leftarrow> restart rf1;
                 Some (finish q rf2 (tasks c) c)
               }
               else Some c
           | _ \<Rightarrow> Some c))"

text \<open>The events that can happen: they name servers and tasks that exist.\<close>

definition is_node :: "cluster \<Rightarrow> int \<Rightarrow> bool" where
  "is_node c p \<longleftrightarrow> 0 \<le> p \<and> p < int (length (nodes c))"

definition possible :: "event \<Rightarrow> cluster \<Rightarrow> bool" where
  "possible e c =
     (case e of
        ElectionTimeout p \<Rightarrow> is_node c p
      | HeartbeatTimeout p \<Rightarrow> is_node c p
      | Replicator p q \<Rightarrow> is_node c p \<and> is_node c q \<and> p \<noteq> q
      | Run k \<Rightarrow> k < length (tasks c)
      | Lose k \<Rightarrow> k < length (tasks c)
      | Submit p cmd \<Rightarrow> is_node c p
      | TakeSnapshot p i data \<Rightarrow> is_node c p
      | Apply p \<Rightarrow> is_node c p
      | Crash p \<Rightarrow> is_node c p
      | CrashInElection p \<Rightarrow> is_node c p
      | CrashInInstall k \<Rightarrow> k < length (tasks c))"

text \<open>
  The cluster at its first start: every server on an empty directory of its own. The
  timeouts are parameters; the jitter must not be zero.
\<close>

definition init_node :: "nat \<Rightarrow> int \<Rightarrow> int \<Rightarrow> int \<Rightarrow> int \<Rightarrow> Raft" where
  "init_node n emin erand hb i =
     fresh_Raft n i \<lparr>dir = ''data'', files = Map.empty, plan = []\<rparr> emin erand hb"

definition init_cluster :: "nat \<Rightarrow> int \<Rightarrow> int \<Rightarrow> int \<Rightarrow> cluster" where
  "init_cluster n emin erand hb =
     \<lparr>nodes = map (\<lambda>i. init_node n emin erand hb (int i)) [0..<n], tasks = [],
      applied = replicate n []\<rparr>"

inductive reachable :: "nat \<Rightarrow> cluster \<Rightarrow> bool" for n where
  start: "erand \<noteq> 0 \<Longrightarrow> reachable n (init_cluster n emin erand hb)"
| step: "reachable n c \<Longrightarrow> possible e c \<Longrightarrow> exec e c = Some c' \<Longrightarrow> reachable n c'"

text \<open>A run of given events, for concrete executions.\<close>

fun exec_all :: "event list \<Rightarrow> cluster \<Rightarrow> cluster option" where
  "exec_all [] c = Some c"
| "exec_all (e # es) c = (if possible e c then exec e c \<bind> exec_all es else None)"

lemma exec_all_reachable:
  "reachable n c \<Longrightarrow> exec_all es c = Some c' \<Longrightarrow> reachable n c'"
  by (induction es arbitrary: c)
    (auto simp: bind_eq_Some_conv split: if_splits intro: reachable.step)

end
