(* ===== verification/Raft_Relation.thy ===== *)
theory Raft_Relation
  imports Raft_Cluster
begin

text \<open>
  The simulation relation between the cluster of \<open>Raft_Cluster\<close> and the abstract
  protocol of \<open>Raft_Abstract\<close>: what each server and each task in flight says about
  the abstract state, and that this stays true when another server makes a step.

  \<open>G X d\<close> is a parameter: the snapshot \<open>d\<close> is a snapshot of the state after the
  commands of the log prefix \<open>X\<close>.
\<close>

section \<open>Servers\<close>

abbreviation asteps :: "nat \<Rightarrow> abs \<Rightarrow> abs \<Rightarrow> bool" where
  "asteps N \<equiv> (astep N)\<^sup>*\<^sup>*"

type_synonym snapshot_pred = "Entry list \<Rightarrow> bytes \<Rightarrow> bool"

definition snapshot_ok :: "snapshot_pred \<Rightarrow> Entry list \<Rightarrow> int \<Rightarrow> bytes \<Rightarrow> bool" where
  "snapshot_ok G X i d \<longleftrightarrow> (if i = 0 then d = [] else G (take (nat (i + 1)) X) d)"

definition node_base :: "nat \<Rightarrow> snapshot_pred \<Rightarrow> abs \<Rightarrow> int \<Rightarrow> Raft \<Rightarrow> bool" where
  "node_base N G a p rf \<longleftrightarrow>
     peers rf = N \<and> me rf = p \<and> healthy rf \<and> synced rf \<and> aterm a p = currentTerm rf \<and>
     (\<forall>c. avote a p (currentTerm rf) = Some c \<longrightarrow> votedFor rf = c \<and> 0 \<le> c) \<and>
     log_rel rf (alog a p) \<and>
     lastIncludedIndex rf \<le> commitIndex rf \<and> commitIndex rf < int (length (alog a p)) \<and>
     cprefix N a (currentTerm rf) (take (nat (commitIndex rf + 1)) (alog a p)) \<and>
     0 \<le> lastApplied rf \<and> lastApplied rf \<le> commitIndex rf \<and>
     length (nextIndex rf) = N \<and> length (matchIndex rf) = N \<and>
     snapshot_ok G (alog a p) (lastIncludedIndex rf) (disk_snapshot (persister rf))"

definition leader_ok :: "nat \<Rightarrow> abs \<Rightarrow> int \<Rightarrow> Raft \<Rightarrow> bool" where
  "leader_ok N a p rf \<longleftrightarrow> (let t = currentTerm rf in
     0 < t \<and> elog a t \<noteq> None \<and> aleader a t = p \<and> alog a p = llog a t \<and>
     acked a p t = length (alog a p) \<and>
     (\<forall>q < N. nextIndex rf ! q \<le> int (length (alog a p)) \<and>
        (matchIndex rf ! q \<le> commitIndex rf \<or> matchIndex rf ! q + 1 \<le> int (acked a (int q) t))))"

definition cand_ok :: "abs \<Rightarrow> int \<Rightarrow> Raft \<Rightarrow> bool" where
  "cand_ok a p rf \<longleftrightarrow> (let t = currentTerm rf in
     acand a p t = Some (alog a p) \<and> avote a p t = Some p \<and>
     \<not> (elog a t \<noteq> None \<and> aleader a t = p))"

definition node_ok :: "nat \<Rightarrow> snapshot_pred \<Rightarrow> abs \<Rightarrow> int \<Rightarrow> Raft \<Rightarrow> bool" where
  "node_ok N G a p rf \<longleftrightarrow> node_base N G a p rf \<and>
     (state rf = StateLeader \<longrightarrow> leader_ok N a p rf) \<and>
     (state rf = StateCandidate \<longrightarrow> cand_ok a p rf)"

section \<open>Tasks\<close>

text \<open>
  A request of the leader of term \<open>t\<close> carries the end of a prefix \<open>M\<close> of its log; a
  successful reply says that the callee has accepted \<open>M\<close>.
\<close>

definition append_ok :: "nat \<Rightarrow> abs \<Rightarrow> AppendEntriesArgs \<Rightarrow> Entry list \<Rightarrow> bool" where
  "append_ok N a args M \<longleftrightarrow>
     elog a (aea_Term args) \<noteq> None \<and> 0 < aea_Term args \<and> prefix M (llog a (aea_Term args)) \<and>
     0 \<le> aea_PrevLogIndex args \<and> aea_PrevLogIndex args < int (length M) \<and>
     aea_PrevLogTerm args = Term (M ! nat (aea_PrevLogIndex args)) \<and>
     aea_Entries args = drop (Suc (nat (aea_PrevLogIndex args))) M \<and>
     0 \<le> aea_LeaderCommit args \<and> aea_LeaderCommit args < int (length M) \<and>
     cprefix N a (aea_Term args) (take (nat (aea_LeaderCommit args + 1)) M)"

definition install_ok :: "nat \<Rightarrow> snapshot_pred \<Rightarrow> abs \<Rightarrow> InstallSnapshotArgs \<Rightarrow> Entry list \<Rightarrow> bool" where
  "install_ok N G a args M \<longleftrightarrow>
     elog a (isa_Term args) \<noteq> None \<and> 0 < isa_Term args \<and> prefix M (llog a (isa_Term args)) \<and>
     0 \<le> isa_LastIncludedIndex args \<and> int (length M) = isa_LastIncludedIndex args + 1 \<and>
     isa_LastIncludedTerm args = Term (last M) \<and> cprefix N a (isa_Term args) M \<and>
     snapshot_ok G M (isa_LastIncludedIndex args) (isa_Data args)"

definition vote_ok :: "abs \<Rightarrow> int \<Rightarrow> RequestVoteArgs \<Rightarrow> bool" where
  "vote_ok a p args \<longleftrightarrow> rva_Term args \<le> aterm a p \<and> rva_CandidateId args = p \<and>
     (\<exists>X. acand a p (rva_Term args) = Some X \<and> rva_LastLogTerm args = Term (last X) \<and>
        rva_LastLogIndex args = int (length X) - 1)"

fun task_ok :: "nat \<Rightarrow> snapshot_pred \<Rightarrow> abs \<Rightarrow> task \<Rightarrow> bool" where
  "task_ok N G a (Replicate p q) \<longleftrightarrow> True"
| "task_ok N G a (VoteRequest p q args addr) \<longleftrightarrow> vote_ok a p args"
| "task_ok N G a (VoteReply p q args addr reply) \<longleftrightarrow> vote_ok a p args \<and>
     (rvr_VoteGranted reply \<longrightarrow> avote a q (rva_Term args) = Some p)"
| "task_ok N G a (AppendRequest p q args) \<longleftrightarrow> (\<exists>M. append_ok N a args M)"
| "task_ok N G a (AppendReply p q args reply) \<longleftrightarrow> (\<exists>M. append_ok N a args M \<and>
     (aer_Success reply \<longrightarrow> length M \<le> acked a q (aea_Term args)) \<and>
     (\<not> aer_Success reply \<and> aer_Term reply \<le> aea_Term args \<longrightarrow>
        aer_ConflictIndex reply \<le> int (length (llog a (aea_Term args)))))"
| "task_ok N G a (SnapshotRequest p q args) \<longleftrightarrow> (\<exists>M. install_ok N G a args M)"
| "task_ok N G a (SnapshotReply p q args reply) \<longleftrightarrow> (\<exists>M. install_ok N G a args M \<and>
     (isr_Term reply \<le> isa_Term args \<longrightarrow> length M \<le> acked a q (isa_Term args)))"

fun caller :: "task \<Rightarrow> int" where
  "caller (Replicate p q) = p"
| "caller (VoteRequest p q args addr) = p"
| "caller (VoteReply p q args addr reply) = p"
| "caller (AppendRequest p q args) = p"
| "caller (AppendReply p q args reply) = p"
| "caller (SnapshotRequest p q args) = p"
| "caller (SnapshotReply p q args reply) = p"

fun callee :: "task \<Rightarrow> int" where
  "callee (Replicate p q) = q"
| "callee (VoteRequest p q args addr) = q"
| "callee (VoteReply p q args addr reply) = q"
| "callee (AppendRequest p q args) = q"
| "callee (AppendReply p q args reply) = q"
| "callee (SnapshotRequest p q args) = q"
| "callee (SnapshotReply p q args reply) = q"

definition routed :: "nat \<Rightarrow> task \<Rightarrow> bool" where
  "routed N m \<longleftrightarrow> caller m \<in> node_set N \<and> callee m \<in> node_set N \<and> caller m \<noteq> callee m"

text \<open>
  The vote calls in flight: caller, callee, term. Their counter is the one of the caller's
  current election as long as that election lasts.
\<close>

fun vote_key :: "task \<Rightarrow> (int \<times> int \<times> int) list" where
  "vote_key (VoteRequest p q args addr) = [(p, q, rva_Term args)]"
| "vote_key (VoteReply p q args addr reply) = [(p, q, rva_Term args)]"
| "vote_key _ = []"

definition vote_keys :: "task list \<Rightarrow> (int \<times> int \<times> int) list" where
  "vote_keys ts = concat (map vote_key ts)"

fun counter_ok :: "int \<Rightarrow> Raft \<Rightarrow> task \<Rightarrow> bool" where
  "counter_ok p rf (VoteRequest p' q args addr) \<longleftrightarrow>
     (p' = p \<and> rva_Term args = currentTerm rf \<longrightarrow> addr = int (length (grantedVotes rf)) - 1)"
| "counter_ok p rf (VoteReply p' q args addr reply) \<longleftrightarrow>
     (p' = p \<and> rva_Term args = currentTerm rf \<longrightarrow> addr = int (length (grantedVotes rf)) - 1)"
| "counter_ok p rf _ \<longleftrightarrow> True"

text \<open>The votes that a candidate has counted are votes of different servers.\<close>

definition tally :: "nat \<Rightarrow> abs \<Rightarrow> int \<Rightarrow> Raft \<Rightarrow> int set \<Rightarrow> bool" where
  "tally N a p rf V \<longleftrightarrow> grantedVotes rf \<noteq> [] \<and> V \<subseteq> node_set N - {p} \<and>
     last (grantedVotes rf) = 1 + int (card V) \<and> (\<forall>v \<in> V. avote a v (currentTerm rf) = Some p)"

definition counting_ok :: "nat \<Rightarrow> abs \<Rightarrow> task list \<Rightarrow> int \<Rightarrow> Raft \<Rightarrow> bool" where
  "counting_ok N a ts p rf \<longleftrightarrow> (\<forall>m \<in> set ts. counter_ok p rf m) \<and>
     (\<exists>V. tally N a p rf V \<and> (\<forall>q \<in> V. (p, q, currentTerm rf) \<notin> set (vote_keys ts)))"

section \<open>Applied messages and the whole cluster\<close>

definition apply_ok :: "nat \<Rightarrow> snapshot_pred \<Rightarrow> abs \<Rightarrow> ApplyMsg \<Rightarrow> bool" where
  "apply_ok N G a m \<longleftrightarrow> (\<exists>u X. cprefix N a u X \<and>
     ((\<exists>i < length X. 0 < i \<and> m = command_msg (X ! i) \<and> Index (X ! i) = int i) \<or>
      SnapshotValid m \<and> \<not> CommandValid m \<and> 0 < SnapshotIndex m \<and>
      int (length X) = SnapshotIndex m + 1 \<and> G X (am_Snapshot m)))"

definition sim :: "nat \<Rightarrow> snapshot_pred \<Rightarrow> abs \<Rightarrow> cluster \<Rightarrow> bool" where
  "sim N G a c \<longleftrightarrow> ainv N a \<and> length (nodes c) = N \<and> length (applied c) = N \<and>
     (\<forall>p \<in> node_set N. node_ok N G a p (node c p) \<and> eff (node c p) = [] \<and>
        (state (node c p) = StateCandidate \<longrightarrow> counting_ok N a (tasks c) p (node c p)) \<and>
        (\<forall>m \<in> set (applied c ! nat p). apply_ok N G a m)) \<and>
     (\<forall>m \<in> set (tasks c). task_ok N G a m \<and> routed N m) \<and>
     distinct (vote_keys (tasks c))"

section \<open>Steps of one server\<close>

text \<open>\<open>touches p a b\<close>: from \<open>a\<close> to \<open>b\<close> only server \<open>p\<close> has made abstract steps.\<close>

definition touches :: "int \<Rightarrow> abs \<Rightarrow> abs \<Rightarrow> bool" where
  "touches p a b \<longleftrightarrow> aext a b \<and>
     (\<forall>q. q \<noteq> p \<longrightarrow> aterm b q = aterm a q \<and> alog b q = alog a q \<and> avote b q = avote a q \<and>
        acked b q = acked a q) \<and>
     (\<forall>t. elog b t \<noteq> None \<and> aleader b t \<noteq> p \<longrightarrow>
        elog a t \<noteq> None \<and> aleader a t = aleader b t \<and> llog b t = llog a t)"

lemma touches_refl [simp]: "touches p a a"
  by (simp add: touches_def)

lemma touches_trans:
  assumes "touches p a b" "touches p b c"
  shows "touches p a c"
proof -
  have "aext a b" "aext b c" using assms by (simp_all add: touches_def)
  then have "aext a c" by (rule aext_trans)
  moreover have "aterm c q = aterm a q \<and> alog c q = alog a q \<and> avote c q = avote a q \<and>
      acked c q = acked a q" if "q \<noteq> p" for q
  proof -
    from assms(1) that have "aterm b q = aterm a q" "alog b q = alog a q" "avote b q = avote a q"
      "acked b q = acked a q" unfolding touches_def by blast+
    moreover from assms(2) that have "aterm c q = aterm b q" "alog c q = alog b q"
      "avote c q = avote b q" "acked c q = acked b q" unfolding touches_def by blast+
    ultimately show ?thesis by (simp only: simp_thms)
  qed
  moreover have "elog a t \<noteq> None \<and> aleader a t = aleader c t \<and> llog c t = llog a t"
    if "elog c t \<noteq> None" "aleader c t \<noteq> p" for t
  proof -
    have b: "elog b t \<noteq> None" "aleader b t = aleader c t" "llog c t = llog b t"
      using assms(2) that unfolding touches_def by blast+
    moreover from this that(2) have "aleader b t \<noteq> p" by (simp only: not_False_eq_True)
    ultimately have "elog a t \<noteq> None \<and> aleader a t = aleader b t \<and> llog b t = llog a t"
      using assms(1) unfolding touches_def by blast
    with b show ?thesis by (simp only: simp_thms)
  qed
  ultimately show ?thesis unfolding touches_def by blast
qed

text \<open>The entries that some leader has had in its log.\<close>

definition known :: "abs \<Rightarrow> Entry set" where
  "known a = {e. \<exists>t. elog a t \<noteq> None \<and> e \<in> set (llog a t)}"

lemma known_cong: "elog b = elog a \<Longrightarrow> llog b = llog a \<Longrightarrow> known b = known a"
  by (simp add: known_def)

lemma wfl_known:
  assumes "wfl a X"
  shows "set X \<subseteq> known a"
proof
  fix e assume "e \<in> set X"
  then obtain i where i: "i < length X" "X ! i = e" by (auto simp: in_set_conv_nth)
  then have l: "elog a (Term e) \<noteq> None" "i < length (llog a (Term e))"
    "take (Suc i) X = take (Suc i) (llog a (Term e))"
    using assms by (auto simp: wfl_def)
  then have "llog a (Term e) ! i = e" using i take_Suc_eq_nthD by metis
  then have "e \<in> set (llog a (Term e))" using l(2) nth_mem by force
  with l(1) show "e \<in> known a" unfolding known_def by blast
qed

lemma known_elect:
  assumes "ainv N a"
  shows "known (abs_elect a p) \<subseteq> known a"
proof -
  have "set (alog a p) \<subseteq> known a" using assms wfl_known by (auto simp: ainv_def inv_logs_def)
  then show ?thesis by (auto simp: known_def abs_elect_def Let_def split: if_splits)
qed

lemma known_append:
  assumes "ainv N a"
  shows "known (abs_append a p e) \<subseteq> known a \<union> {e}"
proof -
  have "set (alog a p) \<subseteq> known a" using assms wfl_known by (auto simp: ainv_def inv_logs_def)
  then show ?thesis by (auto simp: known_def abs_append_def Let_def split: if_splits)
qed

lemma asteps_ainv: "asteps N a b \<Longrightarrow> ainv N a \<Longrightarrow> ainv N b"
  by (induction rule: rtranclp_induct) (auto intro: astep_ainv)

lemma asteps_aext:
  assumes "asteps N a b" "ainv N a"
  shows "aext a b"
  using assms
proof (induction rule: rtranclp_induct)
  case (step b c)
  then have "ainv N b" using asteps_ainv by blast
  from astep_aext [OF step.hyps(2) this] step show ?case using aext_trans by blast
qed simp

lemma touches_ext: "touches p a b \<Longrightarrow> ext a b"
  by (simp add: touches_def aext_def)

section \<open>Frame conditions\<close>

lemma node_base_frame:
  assumes "ainv N a" "touches p a b" "q \<noteq> p" "node_base N G a q rf"
  shows "node_base N G b q rf"
proof -
  have e: "aext a b" and "aterm b q = aterm a q" "alog b q = alog a q" "avote b q = avote a q"
    using assms(2,3) by (auto simp: touches_def)
  with assms(4) cprefix_aext [OF assms(1) e] show ?thesis by (simp add: node_base_def)
qed

lemma leader_ok_frame:
  assumes "touches p a b" "q \<noteq> p" "leader_ok N a q rf"
  shows "leader_ok N b q rf"
proof -
  let ?t = "currentTerm rf"
  have ab: "aext a b" "alog b q = alog a q" "acked b q = acked a q"
    using assms(1,2) by (auto simp: touches_def)
  have e: "elog a ?t \<noteq> None" "aleader a ?t = q" using assms(3) by (auto simp: leader_ok_def Let_def)
  then have "elog b ?t \<noteq> None" "aleader b ?t = q" using ab(1) by (auto simp: aext_def ext_def)
  moreover from this have "llog b ?t = llog a ?t" using assms(1,2) by (auto simp: touches_def)
  moreover have "acked a v ?t \<le> acked b v ?t" for v using ab(1) by (simp add: aext_def)
  then have "m + 1 \<le> int (acked a v ?t) \<Longrightarrow> m + 1 \<le> int (acked b v ?t)" for m v
    by (meson of_nat_le_iff order_trans)
  ultimately show ?thesis using assms(3) ab by (auto simp: leader_ok_def Let_def)
qed

lemma cand_ok_frame:
  assumes "touches p a b" "q \<noteq> p" "cand_ok a q rf"
  shows "cand_ok b q rf"
proof -
  let ?t = "currentTerm rf"
  have ab: "aext a b" "alog b q = alog a q" "avote b q = avote a q"
    using assms(1,2) by (auto simp: touches_def)
  have "acand b q ?t = Some (alog a q)" using ab(1) assms(3) by (auto simp: cand_ok_def aext_def Let_def)
  moreover have "\<not> (elog b ?t \<noteq> None \<and> aleader b ?t = q)"
    using assms by (auto simp: touches_def cand_ok_def Let_def)
  ultimately show ?thesis using ab assms(3) by (simp add: cand_ok_def Let_def)
qed

lemma node_ok_frame:
  assumes "ainv N a" "touches p a b" "q \<noteq> p" "node_ok N G a q rf"
  shows "node_ok N G b q rf"
  using assms node_base_frame [OF assms(1-3)] leader_ok_frame [OF assms(2,3)]
    cand_ok_frame [OF assms(2,3)] by (simp add: node_ok_def)

lemma append_ok_aext:
  assumes "ainv N a" "aext a b" "append_ok N a args M"
  shows "append_ok N b args M"
proof -
  have "elog b (aea_Term args) \<noteq> None" "prefix (llog a (aea_Term args)) (llog b (aea_Term args))"
    using assms(2,3) by (auto simp: append_ok_def aext_def ext_def)
  with assms(3) cprefix_aext [OF assms(1,2)] show ?thesis
    by (simp add: append_ok_def) (metis prefix_order.trans)
qed

lemma install_ok_aext:
  assumes "ainv N a" "aext a b" "install_ok N G a args M"
  shows "install_ok N G b args M"
proof -
  have "elog b (isa_Term args) \<noteq> None" "prefix (llog a (isa_Term args)) (llog b (isa_Term args))"
    using assms(2,3) by (auto simp: install_ok_def aext_def ext_def)
  with assms(3) cprefix_aext [OF assms(1,2)] show ?thesis
    by (simp add: install_ok_def) (metis prefix_order.trans)
qed

lemma vote_ok_aext:
  assumes "aext a b" "vote_ok a p args"
  shows "vote_ok b p args"
proof -
  obtain X where X: "acand a p (rva_Term args) = Some X" "rva_LastLogTerm args = Term (last X)"
    "rva_LastLogIndex args = int (length X) - 1"
    using assms(2) by (auto simp: vote_ok_def)
  have "acand b p (rva_Term args) = Some X" "aterm a p \<le> aterm b p"
    using assms(1) X(1) by (simp_all add: aext_def)
  with X(2,3) assms(2) show ?thesis by (auto simp: vote_ok_def)
qed

lemma aext_sel:
  assumes "aext a b"
  shows "acked a v t \<le> acked b v t" "avote a v t = Some c \<Longrightarrow> avote b v t = Some c"
    "elog a t \<noteq> None \<Longrightarrow> length (llog a t) \<le> length (llog b t)"
  using assms prefix_length_le by (auto simp: aext_def ext_def)

lemma task_ok_aext:
  assumes "ainv N a" "aext a b" "task_ok N G a m"
  shows "task_ok N G b m"
proof (cases m)
  case (VoteRequest p q args addr)
  then show ?thesis using assms(3) vote_ok_aext [OF assms(2)] by simp
next
  case (VoteReply p q args addr reply)
  then show ?thesis using assms(3) vote_ok_aext [OF assms(2)] aext_sel(2) [OF assms(2)] by simp
next
  case (AppendRequest p q args)
  then show ?thesis using assms(3) append_ok_aext [OF assms(1,2)] by auto
next
  case (AppendReply p q args reply)
  then obtain M where M: "append_ok N a args M"
    "aer_Success reply \<longrightarrow> length M \<le> acked a q (aea_Term args)"
    "\<not> aer_Success reply \<and> aer_Term reply \<le> aea_Term args \<longrightarrow>
        aer_ConflictIndex reply \<le> int (length (llog a (aea_Term args)))"
    using assms(3) by auto
  have "elog a (aea_Term args) \<noteq> None" using M(1) by (simp add: append_ok_def)
  from aext_sel(3) [OF assms(2) this] aext_sel(1) [OF assms(2), of q "aea_Term args"] M
  have "append_ok N b args M \<and> (aer_Success reply \<longrightarrow> length M \<le> acked b q (aea_Term args)) \<and>
    (\<not> aer_Success reply \<and> aer_Term reply \<le> aea_Term args \<longrightarrow>
        aer_ConflictIndex reply \<le> int (length (llog b (aea_Term args))))"
    using append_ok_aext [OF assms(1,2)] by auto
  with AppendReply show ?thesis by auto
next
  case (SnapshotRequest p q args)
  then show ?thesis using assms(3) install_ok_aext [OF assms(1,2)] by auto
next
  case (SnapshotReply p q args reply)
  then obtain M where M: "install_ok N G a args M"
    "isr_Term reply \<le> isa_Term args \<longrightarrow> length M \<le> acked a q (isa_Term args)"
    using assms(3) by auto
  with aext_sel(1) [OF assms(2), of q "isa_Term args"]
  have "install_ok N G b args M \<and>
    (isr_Term reply \<le> isa_Term args \<longrightarrow> length M \<le> acked b q (isa_Term args))"
    using install_ok_aext [OF assms(1,2)] by auto
  with SnapshotReply show ?thesis by auto
qed simp

lemma apply_ok_aext:
  assumes "ainv N a" "aext a b" "apply_ok N G a m"
  shows "apply_ok N G b m"
  using assms(3) cprefix_aext [OF assms(1,2)] unfolding apply_ok_def by (elim exE conjE) (intro exI conjI)

lemma counting_ok_frame:
  assumes "aext a b" "counting_ok N a ts p rf"
    "\<forall>m \<in> set ts'. m \<in> set ts \<or> counter_ok p rf m"
    "\<forall>q. (p, q, currentTerm rf) \<in> set (vote_keys ts') \<longrightarrow> (p, q, currentTerm rf) \<in> set (vote_keys ts)"
  shows "counting_ok N b ts' p rf"
proof -
  obtain V where V: "tally N a p rf V" "\<forall>q \<in> V. (p, q, currentTerm rf) \<notin> set (vote_keys ts)"
    using assms(2) by (auto simp: counting_ok_def)
  have "tally N b p rf V" using V(1) aext_sel(2) [OF assms(1)] by (simp add: tally_def)
  moreover have "\<forall>q \<in> V. (p, q, currentTerm rf) \<notin> set (vote_keys ts')" using V(2) assms(4) by blast
  moreover have "\<forall>m \<in> set ts'. counter_ok p rf m" using assms(2,3) by (auto simp: counting_ok_def)
  ultimately show ?thesis by (auto simp: counting_ok_def)
qed

end
