(* ===== verification/Raft_Simulation.thy ===== *)
theory Raft_Simulation
  imports Raft_Relation
begin

text \<open>
  Every critical section of a server is a sequence of abstract steps of that server: the
  local simulation lemmas, one per handler. They also show that no handler panics in a
  state that the relation describes.
\<close>

section \<open>Abstract steps touch one server\<close>

lemma touches_bump: "aterm a p < t \<Longrightarrow> touches p a (abs_bump a p t)"
  by (auto simp: touches_def aext_def ext_def abs_bump_def)

lemma touches_vote: "avote a p (aterm a p) = None \<Longrightarrow> touches p a (abs_vote a p c)"
  by (auto simp: touches_def aext_def ext_def abs_vote_def)

lemma touches_stand:
  "acand a p (aterm a p) = None \<Longrightarrow> avote a p (aterm a p) = None \<Longrightarrow>
   touches p a (abs_vote (abs_stand a p) p p)"
  by (auto simp: touches_def aext_def ext_def abs_vote_def abs_stand_def)

lemma touches_accept: "touches p a (abs_accept a p M)"
  by (auto simp: touches_def aext_def ext_def abs_accept_def Let_def)

lemma touches_append:
  assumes "ainv N a" "aleader a (aterm a p) = p" "alog a p = llog a (aterm a p)"
  shows "touches p a (abs_append a p e)"
proof -
  have "acked a p (aterm a p) \<le> length (alog a p)"
    using assms(1,3) by (simp add: ainv_def inv_acks_def)
  with assms(2,3) show ?thesis
    by (auto simp: touches_def aext_def ext_def abs_append_def Let_def)
qed

lemma touches_elect:
  assumes "ainv N a" "elog a (aterm a p) = None"
  shows "touches p a (abs_elect a p)"
proof -
  have "acked a p (aterm a p) = 0"
    using assms unfolding ainv_def inv_acks_def by (metis not_gr_zero)
  with assms(2) show ?thesis
    by (auto simp: touches_def aext_def ext_def abs_elect_def Let_def)
qed

section \<open>Local steps\<close>

definition calm :: "nat \<Rightarrow> int \<Rightarrow> effect list \<Rightarrow> bool" where
  "calm N p es \<longleftrightarrow> (\<forall>x \<in> set es.
     case x of GoRequestVoteFromPeer q args k \<Rightarrow> False
     | GoReplicateToPeer q \<Rightarrow> q \<in> node_set N \<and> q \<noteq> p
     | _ \<Rightarrow> True)"

lemma calm_simps [simp]:
  "calm N p []" "calm N p (x @ y) \<longleftrightarrow> calm N p x \<and> calm N p y"
  "calm N p (ResetElectionTimer # x) = calm N p x" "calm N p (ResetHeartbeatTimer # x) = calm N p x"
  "calm N p (SignalApplier # x) = calm N p x" "calm N p (SignalReplication q # x) = calm N p x"
  by (auto simp: calm_def)

lemma calm_others [simp]:
  assumes "peers rf = N" "me rf = p"
  shows "calm N p (map GoReplicateToPeer (other_peers rf))"
    "calm N p (map SignalReplication (other_peers rf))"
  using assms by (auto simp: calm_def other_peers_def peer_range_def node_set_def)

text \<open>A term never decreases, and a vote is never changed within a term.\<close>

definition keeps_vote :: "Raft \<Rightarrow> Raft \<Rightarrow> bool" where
  "keeps_vote rf rf' \<longleftrightarrow> currentTerm rf \<le> currentTerm rf' \<and>
     (currentTerm rf = currentTerm rf' \<longrightarrow> votedFor rf = -1 \<or> votedFor rf' = votedFor rf)"

lemma keeps_vote_refl [simp]: "keeps_vote rf rf"
  by (simp add: keeps_vote_def)

lemma keeps_vote_trans: "keeps_vote r1 r2 \<Longrightarrow> keeps_vote r2 r3 \<Longrightarrow> keeps_vote r1 r3"
  by (auto simp: keeps_vote_def)

text \<open>
  A step of server \<open>p\<close> that the abstract protocol follows. \<open>K\<close> holds the log entries that the
  step creates.
\<close>

definition local_step ::
  "nat \<Rightarrow> snapshot_pred \<Rightarrow> Entry set \<Rightarrow> abs \<Rightarrow> int \<Rightarrow> Raft \<Rightarrow> Raft \<Rightarrow> abs \<Rightarrow> bool" where
  "local_step N G K a p rf rf' b \<longleftrightarrow> asteps N a b \<and> touches p a b \<and> node_ok N G b p rf' \<and>
     known b \<subseteq> known a \<union> K \<and> calm N p (eff rf') \<and> keeps_vote rf rf' \<and>
     (state rf' = StateCandidate \<longrightarrow> state rf = StateCandidate \<and>
        currentTerm rf' = currentTerm rf \<and> grantedVotes rf' = grantedVotes rf)"

lemma local_refl:
  "node_ok N G a p rf \<Longrightarrow> eff rf = [] \<Longrightarrow> local_step N G {} a p rf rf a"
  by (simp add: local_step_def)

text \<open>What a server keeps when only its term, its vote, its role and its timers change.\<close>

definition same_core :: "Raft \<Rightarrow> Raft \<Rightarrow> bool" where
  "same_core rf rf' \<longleftrightarrow> peers rf' = peers rf \<and> me rf' = me rf \<and> healthy rf' \<and> synced rf' \<and>
     logs rf' = logs rf \<and> lastIncludedIndex rf' = lastIncludedIndex rf \<and>
     lastIncludedTerm rf' = lastIncludedTerm rf \<and> commitIndex rf' = commitIndex rf \<and>
     lastApplied rf' = lastApplied rf \<and> length (nextIndex rf') = length (nextIndex rf) \<and>
     length (matchIndex rf') = length (matchIndex rf) \<and>
     disk_snapshot (persister rf') = disk_snapshot (persister rf)"

lemma node_base_wfl:
  assumes "ainv N a" "node_base N G a p rf"
  shows "log_rel rf (alog a p)" "indexed (alog a p)" "wfl a (alog a p)" "healthy rf" "synced rf"
  using assms wfl_indexed by (auto simp: node_base_def ainv_def inv_logs_def)

lemma same_core_log_rel:
  assumes "same_core rf rf'" "log_rel rf X"
  shows "log_rel rf' X"
  by (rule log_rel_cong [OF assms(2)]) (use assms(1) in \<open>simp_all add: same_core_def\<close>)

lemma node_base_keep:
  assumes "node_base N G a p rf" "same_core rf rf'" "currentTerm rf' = currentTerm rf"
    "votedFor rf' = votedFor rf"
  shows "node_base N G a p rf'"
  using assms same_core_log_rel [OF assms(2)] by (simp add: node_base_def same_core_def)

lemma node_base_bump:
  assumes "ainv N a" "node_base N G a p rf" "same_core rf rf'" "currentTerm rf < currentTerm rf'"
  shows "node_base N G (abs_bump a p (currentTerm rf')) p rf'"
proof -
  let ?t = "currentTerm rf'" and ?b = "abs_bump a p (currentTerm rf')"
  have t: "aterm a p < ?t" using assms(2,4) by (simp add: node_base_def)
  have v: "avote a p ?t = None"
  proof (rule ccontr)
    assume "avote a p ?t \<noteq> None"
    then have "?t \<le> aterm a p" using assms(1) by (auto simp: ainv_def inv_votes_def)
    with t show False by simp
  qed
  have "cprefix N a (currentTerm rf) (take (nat (commitIndex rf + 1)) (alog a p))"
    using assms(2) by (simp add: node_base_def)
  then have c: "cprefix N a ?t (take (nat (commitIndex rf + 1)) (alog a p))"
    by (rule cprefix_mono) (use assms(4) in simp)
  have e: "aext a ?b" using touches_bump [OF t] by (simp add: touches_def)
  have "cprefix N ?b ?t (take (nat (commitIndex rf + 1)) (alog a p))"
    by (rule cprefix_aext [OF assms(1) e c])
  moreover have "aterm ?b p = ?t" "alog ?b p = alog a p" "avote ?b = avote a"
    by (simp_all add: abs_bump_def)
  ultimately show ?thesis
    using assms(2,3) v same_core_log_rel [OF assms(3)] by (simp add: node_base_def same_core_def)
qed

text \<open>Taking over a higher term.\<close>

definition to_term :: "abs \<Rightarrow> int \<Rightarrow> int \<Rightarrow> abs" where
  "to_term a p t = (if aterm a p < t then abs_bump a p t else a)"

lemma to_term_steps:
  assumes "ainv N a"
  shows "asteps N a (to_term a p t)" "touches p a (to_term a p t)" "ainv N (to_term a p t)"
proof -
  show s: "asteps N a (to_term a p t)"
    using astep.bump [of a p t N] by (auto simp: to_term_def)
  then show "ainv N (to_term a p t)" using asteps_ainv assms by blast
  show "touches p a (to_term a p t)" by (simp add: to_term_def touches_bump)
qed

lemma to_term_sel:
  "aterm a p \<le> t \<Longrightarrow> aterm (to_term a p t) p = t" "alog (to_term a p t) = alog a"
  "avote (to_term a p t) = avote a" "acand (to_term a p t) = acand a"
  "elog (to_term a p t) = elog a" "llog (to_term a p t) = llog a"
  "acked (to_term a p t) = acked a" "aleader (to_term a p t) = aleader a"
  by (auto simp: to_term_def abs_bump_def)

lemma known_to_term [simp]: "known (to_term a p t) = known a"
  by (rule known_cong) (simp_all add: to_term_sel)

lemma node_base_to_term:
  assumes "ainv N a" "node_base N G a p rf" "same_core rf rf'" "currentTerm rf \<le> currentTerm rf'"
    "currentTerm rf = currentTerm rf' \<Longrightarrow> votedFor rf' = votedFor rf"
  shows "node_base N G (to_term a p (currentTerm rf')) p rf'"
proof (cases "currentTerm rf = currentTerm rf'")
  case True
  have "aterm a p = currentTerm rf'" using True assms(2) by (simp add: node_base_def)
  then have "to_term a p (currentTerm rf') = a" by (simp add: to_term_def)
  with node_base_keep [OF assms(2,3)] True assms(5) show ?thesis by simp
next
  case False
  with assms(2,4) have "aterm a p < currentTerm rf'" by (simp add: node_base_def)
  with node_base_bump [OF assms(1-3)] False assms(4) show ?thesis by (simp add: to_term_def)
qed

lemma local_to_term:
  assumes "ainv N a" "node_ok N G a p rf" "same_core rf rf'" "currentTerm rf \<le> currentTerm rf'"
    "currentTerm rf = currentTerm rf' \<Longrightarrow> votedFor rf' = votedFor rf"
    "state rf' = StateFollower" "calm N p (eff rf')"
  shows "local_step N G {} a p rf rf' (to_term a p (currentTerm rf'))"
  using assms to_term_steps [OF assms(1)] node_base_to_term [OF assms(1) _ assms(3-5)]
  by (simp add: local_step_def node_ok_def keeps_vote_def)

lemma stepped_down_core:
  assumes "healthy rf"
  shows "same_core rf (stepped_down rf t)" "currentTerm (stepped_down rf t) = t"
    "state (stepped_down rf t) = StateFollower"
    "eff (stepped_down rf t) = eff rf @ [ResetElectionTimer]"
  using assms by (simp_all add: same_core_def stepped_down_def) (simp add: healthy_def)

lemma local_stepped_down:
  assumes "ainv N a" "node_ok N G a p rf" "eff rf = []" "currentTerm rf < t"
  shows "local_step N G {} a p rf (stepped_down rf t) (to_term a p t)"
proof -
  have h: "healthy rf" using assms(2) by (simp add: node_ok_def node_base_def)
  have "local_step N G {} a p rf (stepped_down rf t) (to_term a p (currentTerm (stepped_down rf t)))"
    by (rule local_to_term [OF assms(1,2) stepped_down_core(1) [OF h]])
      (use assms(3,4) in \<open>simp_all add: stepped_down_core [OF h]\<close>)
  then show ?thesis by (simp add: stepped_down_core [OF h])
qed

text \<open>A server whose role, term and vote stay as they are.\<close>

lemma leader_ok_cong:
  assumes "leader_ok N a p rf" "currentTerm rf' = currentTerm rf" "nextIndex rf' = nextIndex rf"
    "matchIndex rf' = matchIndex rf" "commitIndex rf' = commitIndex rf"
    "elog b = elog a" "aleader b = aleader a" "alog b = alog a" "llog b = llog a" "acked b = acked a"
  shows "leader_ok N b p rf'"
  using assms unfolding leader_ok_def Let_def by metis

lemma local_same:
  assumes "node_ok N G a p rf" "same_core rf rf'" "currentTerm rf' = currentTerm rf"
    "votedFor rf' = votedFor rf" "state rf' = state rf" "nextIndex rf' = nextIndex rf"
    "matchIndex rf' = matchIndex rf" "grantedVotes rf' = grantedVotes rf" "calm N p (eff rf')"
  shows "local_step N G {} a p rf rf' a"
proof -
  have "leader_ok N a p rf'" if "state rf = StateLeader"
    using that assms leader_ok_cong [of N a p rf rf' a] by (simp add: node_ok_def same_core_def)
  moreover have "cand_ok a p rf'" if "state rf = StateCandidate"
    using that assms by (simp add: node_ok_def cand_ok_def Let_def)
  ultimately show ?thesis
    using assms node_base_keep [OF _ assms(2-4)]
    by (simp add: local_step_def node_ok_def keeps_vote_def)
qed

section \<open>RequestVote\<close>

text \<open>Casting a vote that may have been cast before.\<close>

definition cast :: "abs \<Rightarrow> int \<Rightarrow> int \<Rightarrow> abs" where
  "cast a p c = (if avote a p (aterm a p) = None then abs_vote a p c else a)"

lemma cast_sel:
  "aterm (cast a p c) = aterm a" "alog (cast a p c) = alog a" "acand (cast a p c) = acand a"
  "elog (cast a p c) = elog a" "llog (cast a p c) = llog a" "acked (cast a p c) = acked a"
  "aleader (cast a p c) = aleader a"
  by (auto simp: cast_def abs_vote_def)

lemma known_cast [simp]: "known (cast a p c) = known a"
  by (rule known_cong) (simp_all add: cast_sel)

lemma cast_vote:
  "avote a p (aterm a p) = None \<or> avote a p (aterm a p) = Some c \<Longrightarrow>
   avote (cast a p c) p (aterm a p) = Some c"
  by (auto simp: cast_def abs_vote_def)

lemma cast_steps:
  assumes "ainv N a" "acand a c (aterm a p) = Some C" "upToDate C (alog a p)"
  shows "asteps N a (cast a p c)" "touches p a (cast a p c)"
  using astep.vote [of a p c C N] assms by (auto simp: cast_def touches_vote)

lemma node_base_cast:
  assumes "ainv N a" "node_base N G a p rf" "same_core rf rf'" "currentTerm rf' = currentTerm rf"
    "votedFor rf' = c" "0 \<le> c" "avote a p (aterm a p) = None \<or> avote a p (aterm a p) = Some c"
  shows "node_base N G (cast a p c) p rf'"
proof -
  have at: "aterm a p = currentTerm rf" using assms(2) by (simp add: node_base_def)
  have e: "aext a (cast a p c)"
    using touches_vote [of a p c] by (auto simp: cast_def touches_def)
  have "cprefix N a (currentTerm rf) (take (nat (commitIndex rf + 1)) (alog a p))"
    using assms(2) by (simp add: node_base_def)
  from cprefix_aext [OF assms(1) e this] show ?thesis
    using assms cast_vote [OF assms(7)] at same_core_log_rel [OF assms(3)]
    by (simp add: node_base_def same_core_def cast_sel)
qed

lemma stored_rv_enter_core:
  assumes "healthy rf" "currentTerm rf \<le> rva_Term args" "v = votedFor (rv_enter rf args)"
  shows "same_core rf (stored (rv_enter rf args) (disk_snapshot (persister rf)))"
    "same_core (stored (rv_enter rf args) (disk_snapshot (persister rf)))
       (stored (emit ((rv_enter rf args)\<lparr>votedFor := c\<rparr>) ResetElectionTimer)
          (disk_snapshot (persister rf)))"
  using assms by (simp_all add: same_core_def) (simp add: healthy_def rv_enter_def)

lemma rv_enter_cases:
  assumes "currentTerm rf \<le> rva_Term args"
  obtains "rv_enter rf args = rf" "currentTerm rf = rva_Term args"
  | "currentTerm rf < rva_Term args" "state (rv_enter rf args) = StateFollower"
      "votedFor (rv_enter rf args) = -1"
  using assms that by (cases "currentTerm rf < rva_Term args") (auto simp: rv_enter_def)

lemma local_rv_refuse:
  assumes "ainv N a" "node_ok N G a p rf" "eff rf = []" "currentTerm rf \<le> rva_Term args"
  shows "local_step N G {} a p rf (stored (rv_enter rf args) (disk_snapshot (persister rf)))
     (to_term a p (rva_Term args))"
proof -
  let ?r = "stored (rv_enter rf args) (disk_snapshot (persister rf))"
  have h: "healthy rf" "aterm a p = currentTerm rf"
    using assms(2) by (simp_all add: node_ok_def node_base_def)
  note core = stored_rv_enter_core(1) [OF h(1) assms(4) refl]
  note tm = rv_enter_term [OF assms(4)]
  from assms(4) show ?thesis
  proof (cases rule: rv_enter_cases)
    case 1
    then have "local_step N G {} a p rf ?r a"
      using core assms(2,3) by (intro local_same) simp_all
    with 1 h(2) show ?thesis by (simp add: to_term_def)
  next
    case 2
    have "local_step N G {} a p rf ?r (to_term a p (currentTerm ?r))"
      by (rule local_to_term [OF assms(1,2) core]) (use 2 tm assms(3,4) in simp_all)
    with tm show ?thesis by simp
  qed
qed

lemma local_rv_grant:
  assumes "ainv N a" "node_ok N G a p rf" "eff rf = []" "currentTerm rf \<le> rva_Term args"
    and c: "rva_CandidateId args = c" "c \<noteq> p" "0 \<le> p" "0 \<le> c"
    and C: "acand a c (rva_Term args) = Some C" "upToDate C (alog a p)"
    and v: "votedFor (rv_enter rf args) = -1 \<or> votedFor (rv_enter rf args) = c"
  defines "rf' \<equiv> stored (emit ((rv_enter rf args)\<lparr>votedFor := c\<rparr>) ResetElectionTimer)
          (disk_snapshot (persister rf))"
    and "b \<equiv> cast (to_term a p (rva_Term args)) p c"
  shows "local_step N G {} a p rf rf' b" "avote b p (rva_Term args) = Some c"
proof -
  let ?r = "stored (rv_enter rf args) (disk_snapshot (persister rf))" and ?t = "rva_Term args"
  let ?a = "to_term a p ?t"
  have base: "node_base N G a p rf" using assms(2) by (simp add: node_ok_def)
  then have h: "healthy rf" "aterm a p = currentTerm rf" by (simp_all add: node_base_def)
  have r: "local_step N G {} a p rf ?r ?a" by (rule local_rv_refuse [OF assms(1-4)])
  then have ra: "node_base N G ?a p ?r" "asteps N a ?a" "touches p a ?a"
    by (simp_all add: local_step_def node_ok_def)
  have inv: "ainv N ?a" by (rule to_term_steps(3) [OF assms(1)])
  have tm: "currentTerm ?r = ?t" "aterm ?a p = ?t"
    using rv_enter_term [OF assms(4)] to_term_sel(1) [of a p ?t] h(2) assms(4) by simp_all
  have vt: "avote ?a p ?t = None \<or> avote ?a p ?t = Some c \<and> votedFor ?r = c"
  proof (cases "avote ?a p ?t")
    case (Some d)
    then have "votedFor ?r = d" "0 \<le> d" using ra(1) tm(1) by (simp_all add: node_base_def)
    with Some v show ?thesis by auto
  qed simp
  then have vt': "avote ?a p (aterm ?a p) = None \<or> avote ?a p (aterm ?a p) = Some c" using tm by auto
  show av: "avote b p ?t = Some c" using cast_vote [OF vt'] tm(2) by (simp add: b_def)
  have nb: "node_base N G b p rf'"
    unfolding b_def rf'_def
    by (rule node_base_cast [OF inv ra(1) stored_rv_enter_core(2) [OF h(1) assms(4) refl] _ _ c(4) vt'])
      simp_all
  have st: "asteps N a b" "touches p a b"
  proof -
    have "asteps N ?a b" "touches p ?a b"
      unfolding b_def using cast_steps [OF inv, of c p C] C tm(2) by (simp_all add: to_term_sel)
    with ra(2,3) show "asteps N a b" "touches p a b" using touches_trans by auto
  qed
  have role: "state rf' = state (rv_enter rf args)" "currentTerm rf' = ?t"
    "nextIndex rf' = nextIndex rf" "matchIndex rf' = matchIndex rf" "commitIndex rf' = commitIndex rf"
    using rv_enter_term [OF assms(4)] by (simp_all add: rf'_def)
  have no_cand: "state rf' \<noteq> StateCandidate"
  proof
    assume s: "state rf' = StateCandidate"
    with r role(1) have "cand_ok ?a p ?r" by (simp add: local_step_def node_ok_def)
    then have "avote ?a p ?t = Some p" using tm(1) by (simp add: cand_ok_def Let_def)
    with vt c(2) show False by simp
  qed
  have "leader_ok N b p rf'" if "state rf' = StateLeader"
  proof (rule leader_ok_cong)
    show "leader_ok N ?a p ?r"
      using r that role(1) by (simp add: local_step_def node_ok_def)
  qed (use role tm in \<open>simp_all add: b_def cast_sel\<close>)
  then have "node_ok N G b p rf'" using nb no_cand by (simp add: node_ok_def)
  moreover have "calm N p (eff rf')" using assms(3) by (simp add: rf'_def)
  moreover have "keeps_vote rf rf'"
    using assms(4) v role(2) by (auto simp: keeps_vote_def rf'_def rv_enter_def)
  moreover have "known b = known a" by (simp add: b_def)
  ultimately show "local_step N G {} a p rf rf' b" using st no_cand by (simp add: local_step_def)
qed

lemma RequestVote_sim:
  assumes "ainv N a" "node_ok N G a p rf" "eff rf = []" "vote_ok a c args" "c \<noteq> p" "0 \<le> p" "0 \<le> c"
  shows "\<exists>rf' reply b. RequestVote rf args = Some (rf', reply) \<and> local_step N G {} a p rf rf' b \<and>
     (rvr_VoteGranted reply \<longrightarrow> avote b p (rva_Term args) = Some c)"
proof -
  have base: "node_base N G a p rf" using assms(2) by (simp add: node_ok_def)
  note wf = node_base_wfl [OF assms(1) base]
  obtain C where C: "rva_CandidateId args = c" "acand a c (rva_Term args) = Some C"
    "rva_LastLogTerm args = Term (last C)" "rva_LastLogIndex args = int (length C) - 1"
    using assms(4) by (auto simp: vote_ok_def)
  note eq = RequestVote_eq [OF wf(4,1,2), of args]
  consider "rva_Term args < currentTerm rf"
    | "currentTerm rf \<le> rva_Term args" "\<not> rv_grants rf args (alog a p)"
    | "currentTerm rf \<le> rva_Term args" "rv_grants rf args (alog a p)" by linarith
  then show ?thesis
  proof cases
    case 1
    then show ?thesis using eq local_refl [OF assms(2,3)] by auto
  next
    case 2
    then show ?thesis using eq local_rv_refuse [OF assms(1-3)] by auto
  next
    case 3
    then have "upToDate C (alog a p)" using C by (auto simp: rv_grants_def upToDate_def)
    from local_rv_grant [OF assms(1-3) 3(1) C(1) assms(5-7) C(2) this]
    show ?thesis using 3 eq C(1) by (auto simp: rv_grants_def)
  qed
qed

section \<open>Accepting a prefix of the leader's log\<close>

lemma prefix_amerge: "prefix M (amerge X M)"
  by (simp add: amerge_def)

lemma amerge_keeps:
  assumes "prefix Y X" "prefix Y L" "prefix M L"
  shows "prefix Y (amerge X M)"
proof (cases "prefix M X")
  case False
  have "prefix Y M \<or> prefix M Y" using assms(2,3) by (rule prefix_comparable)
  moreover have "\<not> prefix M Y" using False assms(1) prefix_order.trans by blast
  ultimately show ?thesis using False by (simp add: amerge_def)
qed (simp add: amerge_def assms(1))

definition accepted :: "abs \<Rightarrow> int \<Rightarrow> int \<Rightarrow> Entry list \<Rightarrow> abs" where
  "accepted a p t M = abs_accept (to_term a p t) p M"

lemma accepted_steps:
  assumes "ainv N a" "aterm a p \<le> t" "elog a t \<noteq> None" "prefix M (llog a t)" "M \<noteq> []"
  shows "asteps N a (accepted a p t M)" "touches p a (accepted a p t M)"
proof -
  have "astep N (to_term a p t) (accepted a p t M)"
    unfolding accepted_def by (rule astep.accept) (use assms in \<open>simp_all add: to_term_sel\<close>)
  then show "asteps N a (accepted a p t M)"
    using to_term_steps(1) [OF assms(1), of p t] by (meson rtranclp.rtrancl_into_rtrancl)
  show "touches p a (accepted a p t M)"
    using touches_trans [OF to_term_steps(2) [OF assms(1)] touches_accept]
    by (simp add: accepted_def)
qed

lemma known_accepted [simp]: "known (accepted a p t M) = known a"
  by (rule known_cong) (simp_all add: accepted_def abs_accept_def Let_def to_term_sel)

lemma accepted_sel:
  assumes "aterm a p \<le> t"
  shows "aterm (accepted a p t M) p = t" "alog (accepted a p t M) p = amerge (alog a p) M"
    "avote (accepted a p t M) = avote a" "length M \<le> acked (accepted a p t M) p t"
    "llog (accepted a p t M) = llog a" "elog (accepted a p t M) = elog a"
  using assms by (auto simp: accepted_def abs_accept_def Let_def to_term_sel)

text \<open>A server's vote in a term that it takes over or is in.\<close>

lemma vote_carried:
  assumes "ainv N a" "node_base N G a p rf" "currentTerm rf \<le> t"
    "currentTerm rf = t \<Longrightarrow> v = votedFor rf" "avote a p t = Some c"
  shows "v = c \<and> 0 \<le> c"
proof -
  have "t \<le> aterm a p" using assms(1,5) by (auto simp: ainv_def inv_votes_def)
  with assms(2,3) have "t = currentTerm rf" by (simp add: node_base_def)
  with assms(2,4,5) show ?thesis by (simp add: node_base_def)
qed

text \<open>The committed prefix of a server is in the log of every leader of its term or a later one.\<close>

lemma commit_in_leader:
  assumes "ainv N a" "node_base N G a p rf" "currentTerm rf \<le> t" "elog a t \<noteq> None"
  shows "prefix (take (nat (commitIndex rf + 1)) (alog a p)) (llog a t)"
proof -
  obtain E where "elog a t = Some E" using assms(4) by auto
  moreover have "cprefix N a (currentTerm rf) (take (nat (commitIndex rf + 1)) (alog a p))"
    using assms(2) by (simp add: node_base_def)
  ultimately show ?thesis using cprefix_in_leader [OF assms(1)] assms(3) by blast
qed

lemma commit_length:
  assumes "node_base N G a p rf"
  shows "length (take (nat (commitIndex rf + 1)) (alog a p)) = nat (commitIndex rf + 1)"
    "0 \<le> lastIncludedIndex rf" "lastIncludedIndex rf \<le> commitIndex rf"
  using assms by (auto simp: node_base_def log_rel_def)

lemma local_accepted:
  assumes "ainv N a" "node_ok N G a p rf" "currentTerm rf \<le> currentTerm rf'"
    and M: "elog a (currentTerm rf') \<noteq> None" "prefix M (llog a (currentTerm rf'))" "M \<noteq> []"
    and same: "peers rf' = peers rf" "me rf' = me rf" "healthy rf'" "synced rf'"
      "lastApplied rf' = lastApplied rf" "length (nextIndex rf') = length (nextIndex rf)"
      "length (matchIndex rf') = length (matchIndex rf)" "state rf' = StateFollower"
      "currentTerm rf = currentTerm rf' \<Longrightarrow> votedFor rf' = votedFor rf" "calm N p (eff rf')"
    and rel: "log_rel rf' (amerge (alog a p) M)"
    and ci: "commitIndex rf' = commitIndex rf \<or>
      commitIndex rf < commitIndex rf' \<and> commitIndex rf' < int (length M) \<and>
      cprefix N a (currentTerm rf') (take (nat (commitIndex rf' + 1)) M)"
    and sn: "lastIncludedIndex rf' = lastIncludedIndex rf \<and>
        disk_snapshot (persister rf') = disk_snapshot (persister rf) \<or>
      lastIncludedIndex rf' \<le> commitIndex rf' \<and> int (length M) = lastIncludedIndex rf' + 1 \<and>
        snapshot_ok G M (lastIncludedIndex rf') (disk_snapshot (persister rf'))"
  shows "local_step N G {} a p rf rf' (accepted a p (currentTerm rf') M)"
proof -
  let ?t = "currentTerm rf'" and ?X = "alog a p" and ?Y = "amerge (alog a p) M"
  let ?CP = "take (nat (commitIndex rf + 1)) (alog a p)" and ?b = "accepted a p (currentTerm rf') M"
  have base: "node_base N G a p rf" using assms(2) by (simp add: node_ok_def)
  have at: "aterm a p \<le> ?t" using base assms(3) by (simp add: node_base_def)
  note steps = accepted_steps [OF assms(1) at M] and sel = accepted_sel [OF at, of M]
  note len = commit_length [OF base]
  have CPY: "prefix ?CP ?Y"
    using amerge_keeps [OF take_is_prefix commit_in_leader [OF assms(1) base assms(3) M(1)] M(2)] .
  have tY: "take k ?Y = take k ?X" if "k \<le> nat (commitIndex rf + 1)" for k
    using prefix_take_eq [OF CPY, of k] that len(1) by (simp add: min_absorb1)
  have tM: "take k ?Y = take k M" if "k \<le> length M" for k
    using prefix_take_eq [OF prefix_amerge that] by simp
  have lenY: "length M \<le> length ?Y" "nat (commitIndex rf + 1) \<le> length ?Y"
    using prefix_length_le [OF prefix_amerge] prefix_length_le [OF CPY] len(1) by simp_all
  have c0: "cprefix N a ?t ?CP"
    by (rule cprefix_mono [OF _ assms(3)]) (use base in \<open>simp add: node_base_def\<close>)
  have le: "commitIndex rf \<le> commitIndex rf'" "lastIncludedIndex rf' \<le> commitIndex rf'"
    using ci sn len(3) by auto
  have c1: "commitIndex rf' < int (length ?Y) \<and> cprefix N a ?t (take (nat (commitIndex rf' + 1)) ?Y)"
    using ci
  proof (elim disjE conjE)
    assume "commitIndex rf' = commitIndex rf"
    then show ?thesis using c0 tY lenY(2) len(2,3) by simp
  next
    assume *: "commitIndex rf' < int (length M)" "cprefix N a ?t (take (nat (commitIndex rf' + 1)) M)"
    then have "nat (commitIndex rf' + 1) \<le> length M" by simp
    with * tM lenY(1) show ?thesis by simp
  qed
  have "snapshot_ok G ?Y (lastIncludedIndex rf') (disk_snapshot (persister rf'))"
    using sn
  proof (elim disjE conjE)
    assume *: "lastIncludedIndex rf' = lastIncludedIndex rf"
      "disk_snapshot (persister rf') = disk_snapshot (persister rf)"
    have "take (nat (lastIncludedIndex rf + 1)) ?Y = take (nat (lastIncludedIndex rf + 1)) ?X"
      using len(3) by (intro tY) simp
    with * base show ?thesis by (simp add: snapshot_ok_def node_base_def)
  next
    assume *: "int (length M) = lastIncludedIndex rf' + 1"
      "snapshot_ok G M (lastIncludedIndex rf') (disk_snapshot (persister rf'))"
    have "take (nat (lastIncludedIndex rf' + 1)) ?Y = take (nat (lastIncludedIndex rf' + 1)) M"
      using *(1) by (intro tM) simp
    with *(2) show ?thesis by (simp add: snapshot_ok_def)
  qed
  moreover have "avote a p ?t = Some c \<Longrightarrow> votedFor rf' = c \<and> 0 \<le> c" for c
    using vote_carried [OF assms(1) base assms(3) same(9)] by blast
  moreover have "cprefix N ?b ?t (take (nat (commitIndex rf' + 1)) ?Y)"
    using cprefix_aext [OF assms(1)] steps(2) c1 by (simp add: touches_def)
  ultimately have "node_base N G ?b p rf'"
    using base same(1-7) rel le c1 by (simp add: node_base_def sel)
  then show ?thesis using steps same(8-10) assms(3) by (simp add: local_step_def node_ok_def keeps_vote_def)
qed

lemma wfl_leader_prefix:
  assumes "ainv N a" "elog a t \<noteq> None" "prefix M (llog a t)" "M \<noteq> []"
  shows "wfl a M"
proof -
  obtain E where "elog a t = Some E" using assms(2) by auto
  then have "wfl a (llog a t)" using assms(1) unfolding ainv_def inv_leaders_def by blast
  then show ?thesis using assms(3,4) by (rule wfl_prefix)
qed

section \<open>AppendEntries\<close>

lemma local_ae_reject:
  assumes "ainv N a" "node_ok N G a p rf" "eff rf = []" "currentTerm rf \<le> aea_Term args"
  shows "local_step N G {} a p rf (stored (ae_enter rf args) (disk_snapshot (persister rf)))
     (to_term a p (aea_Term args))"
proof -
  let ?r = "stored (ae_enter rf args) (disk_snapshot (persister rf))"
  have h: "healthy rf" using assms(2) by (simp add: node_ok_def node_base_def)
  have "same_core rf ?r" using h by (simp add: same_core_def) (simp add: ae_enter_def)
  then have "local_step N G {} a p rf ?r (to_term a p (currentTerm ?r))"
    by (rule local_to_term [OF assms(1,2)]) (use assms(3,4) in \<open>simp_all add: ae_enter_def\<close>)
  then show ?thesis by simp
qed

lemma local_ae_accept:
  assumes "ainv N a" "node_ok N G a p rf" "eff rf = []" "currentTerm rf \<le> aea_Term args"
    "append_ok N a args M"
    "log_rel ((ae_enter rf args)\<lparr>logs := ls\<rparr>) (amerge (alog a p) M)"
  shows "local_step N G {} a p rf
     (stored (advanceCommitIndex ((ae_enter rf args)\<lparr>logs := ls\<rparr>) (aea_LeaderCommit args))
        (disk_snapshot (persister rf))) (accepted a p (aea_Term args) M)"
proof -
  let ?q = "(ae_enter rf args)\<lparr>logs := ls\<rparr>" and ?lc = "aea_LeaderCommit args"
  let ?r = "stored (advanceCommitIndex ?q ?lc) (disk_snapshot (persister rf))"
  have h: "healthy rf" using assms(2) by (simp add: node_ok_def node_base_def)
  have M: "elog a (aea_Term args) \<noteq> None" "prefix M (llog a (aea_Term args))" "M \<noteq> []"
    "?lc < int (length M)" "cprefix N a (aea_Term args) (take (nat (?lc + 1)) M)"
    using assms(5) by (auto simp: append_ok_def)
  have len: "getLen ?q = int (length (amerge (alog a p) M))" by (rule log_rel_getLen [OF assms(6)])
  have "length M \<le> length (amerge (alog a p) M)" by (rule prefix_length_le [OF prefix_amerge])
  then have mn: "min ?lc (getLen ?q - 1) = ?lc" using len M(4) by simp
  have ci: "commitIndex ?r = (if ?lc > commitIndex rf then ?lc else commitIndex rf)"
    using mn by (simp add: advanceCommitIndex_commit)
  have tm: "currentTerm ?r = aea_Term args" by simp
  have sel: "peers ?r = peers rf" "me ?r = me rf" "healthy ?r" "lastApplied ?r = lastApplied rf"
    "nextIndex ?r = nextIndex rf" "matchIndex ?r = matchIndex rf" "state ?r = StateFollower"
    "votedFor ?r = (if aea_Term args > currentTerm rf then -1 else votedFor rf)"
    using h by (simp_all add: ae_enter_def) (simp add: healthy_def)
  have ef: "calm N p (eff ?r)"
    using assms(3) by (simp add: advanceCommitIndex_def signalApplier_def Let_def ae_enter_def)
  have "local_step N G {} a p rf ?r (accepted a p (currentTerm ?r) M)"
  proof (rule local_accepted [OF assms(1,2)])
    show "log_rel ?r (amerge (alog a p) M)" using assms(6) by simp
    show "commitIndex ?r = commitIndex rf \<or>
      commitIndex rf < commitIndex ?r \<and> commitIndex ?r < int (length M) \<and>
      cprefix N a (currentTerm ?r) (take (nat (commitIndex ?r + 1)) M)"
      unfolding ci tm using M(4,5) by simp
    show "lastIncludedIndex ?r = lastIncludedIndex rf \<and>
        disk_snapshot (persister ?r) = disk_snapshot (persister rf) \<or>
      lastIncludedIndex ?r \<le> commitIndex ?r \<and> int (length M) = lastIncludedIndex ?r + 1 \<and>
        snapshot_ok G M (lastIncludedIndex ?r) (disk_snapshot (persister ?r))" by simp
  qed (use sel ef tm M(1-3) assms(4) in simp_all)
  then show ?thesis by (simp only: tm)
qed

lemma AppendEntries_sim:
  assumes "ainv N a" "node_ok N G a p rf" "eff rf = []" "append_ok N a args M"
  shows "\<exists>rf' reply b. AppendEntries rf args = Some (rf', reply) \<and> local_step N G {} a p rf rf' b \<and>
     (aer_Success reply \<longrightarrow> length M \<le> acked b p (aea_Term args)) \<and>
     (\<not> aer_Success reply \<and> aer_Term reply \<le> aea_Term args \<longrightarrow>
        aer_ConflictIndex reply \<le> int (length (llog b (aea_Term args))))"
proof -
  let ?t = "aea_Term args" and ?prev = "aea_PrevLogIndex args" and ?X = "alog a p"
  have base: "node_base N G a p rf" using assms(2) by (simp add: node_ok_def)
  note wf = node_base_wfl [OF assms(1) base] and len = commit_length [OF base]
  have M: "elog a ?t \<noteq> None" "prefix M (llog a ?t)" "0 \<le> ?prev" "?prev < int (length M)"
    "aea_PrevLogTerm args = Term (M ! nat ?prev)" "aea_Entries args = drop (Suc (nat ?prev)) M"
    using assms(4) by (auto simp: append_ok_def)
  let ?match = "lastIncludedIndex rf \<le> ?prev \<and> ?prev < int (length ?X) \<and>
    Term (?X ! nat ?prev) = aea_PrevLogTerm args"
  consider (stale) "?t < currentTerm rf" | (reject) "currentTerm rf \<le> ?t" "\<not> ?match"
    | (accept) "currentTerm rf \<le> ?t" ?match by linarith
  then show ?thesis
  proof cases
    case stale
    then show ?thesis using AppendEntries_stale [OF stale] local_refl [OF assms(2,3)] by auto
  next
    case reject
    obtain r where r: "AppendEntries rf args =
        Some (stored (ae_enter rf args) (disk_snapshot (persister rf)), r)" "\<not> aer_Success r"
      "aer_ConflictIndex r \<le> max ?prev (lastIncludedIndex rf) + 1"
      using AppendEntries_reject [OF wf(4) reject(1) wf(1,2) reject(2)] by blast
    have "nat (commitIndex rf + 1) \<le> length (llog a ?t)"
      using prefix_length_le [OF commit_in_leader [OF assms(1) base reject(1) M(1)]] len(1) by simp
    moreover have "?prev < int (length (llog a ?t))"
      using prefix_length_le [OF M(2)] M(4) by linarith
    ultimately have "aer_ConflictIndex r \<le> int (length (llog a ?t))" using r(3) len(2,3) by simp
    with r local_ae_reject [OF assms(1-3) reject(1)] show ?thesis by (auto simp: to_term_sel)
  next
    case accept
    have wM: "wfl a M" by (rule wfl_leader_prefix [OF assms(1) M(1,2)]) (use M(3,4) in auto)
    have cm: "compat ?X M" by (rule wfl_compat [OF wf(3) wM])
    have ac: "lastIncludedIndex rf \<le> ?prev" "?prev < int (length ?X)"
      "Term (?X ! nat ?prev) = aea_PrevLogTerm args" using accept(2) by simp_all
    obtain ls where ls: "AppendEntries rf args =
      Some (stored (advanceCommitIndex ((ae_enter rf args)\<lparr>logs := ls\<rparr>) (aea_LeaderCommit args))
              (disk_snapshot (persister rf)), (ae_reply0 rf)\<lparr>aer_Success := True\<rparr>)"
      "log_rel ((ae_enter rf args)\<lparr>logs := ls\<rparr>) (amerge ?X M)"
      using AppendEntries_accept [OF wf(4) accept(1) wf(1,2) wfl_indexed [OF wM] cm ac M(4)
          M(5) [symmetric] M(6)] by blast
    have "aterm a p \<le> ?t" using base accept(1) by (simp add: node_base_def)
    from accepted_sel(4) [OF this, of M] local_ae_accept [OF assms(1-3) accept(1) assms(4) ls(2)]
    show ?thesis
      by (intro exI conjI) (rule ls(1), assumption, simp_all)
  qed
qed

section \<open>InstallSnapshot\<close>

lemma signalApplier_sel [simp]:
  "healthy (signalApplier rf) = healthy rf" "synced (signalApplier rf) = synced rf"
  "log_rel (signalApplier rf) X = log_rel rf X"
  by (simp_all add: signalApplier_def)

lemma is_enter_snapshot [simp]: "disk_snapshot (persister (is_enter rf args)) = disk_snapshot (persister rf)"
  by (simp add: is_enter_def Let_def)

lemma local_is_old:
  assumes "ainv N a" "node_ok N G a p rf" "eff rf = []" "currentTerm rf \<le> isa_Term args"
    "install_ok N G a args M" "isa_LastIncludedIndex args \<le> lastIncludedIndex rf"
  shows "local_step N G {} a p rf (is_enter rf args) (accepted a p (isa_Term args) M)"
proof -
  let ?r = "is_enter rf args" and ?X = "alog a p"
  have base: "node_base N G a p rf" using assms(2) by (simp add: node_ok_def)
  note wf = node_base_wfl [OF assms(1) base] and len = commit_length [OF base]
  have M: "elog a (isa_Term args) \<noteq> None" "prefix M (llog a (isa_Term args))"
    "int (length M) = isa_LastIncludedIndex args + 1" "0 \<le> isa_LastIncludedIndex args"
    using assms(5) by (auto simp: install_ok_def)
  have tm: "currentTerm ?r = isa_Term args" by (rule is_enter_term [OF assms(4)])
  have "prefix M (take (nat (commitIndex rf + 1)) ?X)"
  proof (rule prefix_of_comparable [OF M(2) commit_in_leader [OF assms(1) base assms(4) M(1)]])
    show "length M \<le> length (take (nat (commitIndex rf + 1)) ?X)"
      unfolding len(1) using M(3) assms(6) len(3) by linarith
  qed
  then have mX: "amerge ?X M = ?X" using take_is_prefix prefix_order.trans by (metis amerge_def)
  have "local_step N G {} a p rf ?r (accepted a p (currentTerm ?r) M)"
  proof (rule local_accepted [OF assms(1,2)])
    show "log_rel ?r (amerge ?X M)" using wf(1) mX by simp
    show "synced ?r" by (rule is_enter_synced [OF wf(5) assms(4)])
    show "M \<noteq> []" using M(3,4) by auto
  qed (use M tm wf(4) assms(3,4) in \<open>simp_all\<close>)
  then show ?thesis by (simp only: tm)
qed

lemma local_is_new:
  assumes "ainv N a" "node_ok N G a p rf" "eff rf = []" "currentTerm rf \<le> isa_Term args"
    "install_ok N G a args M" "log_rel rf' (amerge (alog a p) M)"
    and rf': "rf' = (is_enter rf args)\<lparr>logs := ls, lastIncludedIndex := isa_LastIncludedIndex args,
        lastIncludedTerm := isa_LastIncludedTerm args,
        commitIndex := max (commitIndex rf) (isa_LastIncludedIndex args)\<rparr>"
  shows "local_step N G {} a p rf (signalApplier (stored rf' (isa_Data args)))
     (accepted a p (isa_Term args) M)"
proof -
  let ?r = "signalApplier (stored rf' (isa_Data args))"
  have h: "healthy rf" using assms(2) by (simp add: node_ok_def node_base_def)
  have M: "elog a (isa_Term args) \<noteq> None" "prefix M (llog a (isa_Term args))"
    "int (length M) = isa_LastIncludedIndex args + 1" "0 \<le> isa_LastIncludedIndex args"
    "cprefix N a (isa_Term args) M" "snapshot_ok G M (isa_LastIncludedIndex args) (isa_Data args)"
    using assms(5) by (auto simp: install_ok_def)
  have tm: "currentTerm ?r = isa_Term args"
    using is_enter_term [OF assms(4)] by (simp add: signalApplier_def rf')
  have sel: "peers ?r = peers rf" "me ?r = me rf" "lastApplied ?r = lastApplied rf"
    "nextIndex ?r = nextIndex rf" "matchIndex ?r = matchIndex rf" "state ?r = StateFollower"
    "votedFor ?r = (if isa_Term args > currentTerm rf then -1 else votedFor rf)"
    "commitIndex ?r = max (commitIndex rf) (isa_LastIncludedIndex args)"
    "lastIncludedIndex ?r = isa_LastIncludedIndex args"
    "disk_snapshot (persister ?r) = isa_Data args"
    "eff ?r = [ResetElectionTimer] @ [SignalApplier]"
    using assms(3) by (simp_all add: signalApplier_def rf')
  have hr: "healthy ?r" using h by (simp add: rf') (simp add: healthy_def is_enter_def Let_def)
  have "local_step N G {} a p rf ?r (accepted a p (currentTerm ?r) M)"
  proof (rule local_accepted [OF assms(1,2)])
    show "log_rel ?r (amerge (alog a p) M)" using assms(6) by simp
    show "M \<noteq> []" using M(3,4) by auto
    have "take (nat (isa_LastIncludedIndex args + 1)) M = M" using M(3) by simp
    then show "commitIndex ?r = commitIndex rf \<or>
      commitIndex rf < commitIndex ?r \<and> commitIndex ?r < int (length M) \<and>
      cprefix N a (currentTerm ?r) (take (nat (commitIndex ?r + 1)) M)"
      unfolding sel(8) tm using M(3,5) by (auto simp: max_def)
    show "lastIncludedIndex ?r = lastIncludedIndex rf \<and>
        disk_snapshot (persister ?r) = disk_snapshot (persister rf) \<or>
      lastIncludedIndex ?r \<le> commitIndex ?r \<and> int (length M) = lastIncludedIndex ?r + 1 \<and>
        snapshot_ok G M (lastIncludedIndex ?r) (disk_snapshot (persister ?r))"
      unfolding sel using M(3,6) by simp
  qed (use M tm sel(1-7) hr assms(4) in \<open>simp_all add: sel(11)\<close>)
  then show ?thesis by (simp only: tm)
qed

lemma InstallSnapshot_sim:
  assumes "ainv N a" "node_ok N G a p rf" "eff rf = []" "install_ok N G a args M"
  shows "\<exists>rf' reply b. InstallSnapshot rf args = Some (rf', reply) \<and> local_step N G {} a p rf rf' b \<and>
     (isr_Term reply \<le> isa_Term args \<longrightarrow> length M \<le> acked b p (isa_Term args))"
proof -
  let ?t = "isa_Term args" and ?X = "alog a p"
  have base: "node_base N G a p rf" using assms(2) by (simp add: node_ok_def)
  note wf = node_base_wfl [OF assms(1) base]
  have M: "elog a ?t \<noteq> None" "prefix M (llog a ?t)" "M \<noteq> []"
    "int (length M) = isa_LastIncludedIndex args + 1" "isa_LastIncludedTerm args = Term (last M)"
    using assms(4) by (auto simp: install_ok_def)
  show ?thesis
  proof (cases "?t < currentTerm rf")
    case True
    then show ?thesis using local_refl [OF assms(2,3)] by (auto simp: InstallSnapshot_def)
  next
    case False
    then have t: "currentTerm rf \<le> ?t" by simp
    then have at: "aterm a p \<le> ?t" using base by (simp add: node_base_def)
    show ?thesis
    proof (cases "isa_LastIncludedIndex args \<le> lastIncludedIndex rf")
      case True
      then show ?thesis
        using InstallSnapshot_eq [OF wf(4) t] local_is_old [OF assms(1-3) t assms(4) True]
          accepted_sel(4) [OF at, of M] by (auto simp: Let_def)
    next
      case False
      then have i: "lastIncludedIndex rf < isa_LastIncludedIndex args" by simp
      have wM: "wfl a M" by (rule wfl_leader_prefix [OF assms(1) M(1-3)])
      from InstallSnapshot_install [OF wf(4) t wf(1,2) wfl_indexed [OF wM] wfl_compat [OF wf(3) wM]
          M(4) M(5) [symmetric] i]
      obtain rf' ls where r: "InstallSnapshot rf args =
          Some (signalApplier (stored rf' (isa_Data args)), \<lparr>isr_Term = currentTerm rf\<rparr>)"
        "log_rel rf' (amerge ?X M)"
        "rf' = (is_enter rf args)\<lparr>logs := ls, lastIncludedIndex := isa_LastIncludedIndex args,
          lastIncludedTerm := isa_LastIncludedTerm args,
          commitIndex := max (commitIndex rf) (isa_LastIncludedIndex args)\<rparr>" by blast
      then show ?thesis
        using local_is_new [OF assms(1-3) t assms(4) r(2,3)] accepted_sel(4) [OF at, of M] by auto
    qed
  qed
qed

end
