(* ===== verification/Raft_Leader_Sim.thy ===== *)
theory Raft_Leader_Sim
  imports Raft_Simulation
begin

text \<open>
  Local simulation lemmas for the leader's side, for elections and for restarts: what a
  leader sends, how it handles replies and advances its commit index, \<open>Start\<close>,
  \<open>Snapshot\<close>, \<open>applier\<close>, becoming a candidate and becoming the leader.
\<close>

section \<open>The leader\<close>

lemma leader_ok_indices:
  assumes "leader_ok N a p rf" "q < N" "length (nextIndex rf) = N" "length (matchIndex rf) = N"
    "currentTerm rf' = currentTerm rf" "commitIndex rf' = commitIndex rf"
    "nextIndex rf' = (nextIndex rf)[q := n]" "matchIndex rf' = (matchIndex rf)[q := m]"
    "n \<le> int (length (alog a p))"
    "m \<le> commitIndex rf \<or> m + 1 \<le> int (acked a (int q) (currentTerm rf))"
  shows "leader_ok N a p rf'"
  using assms unfolding leader_ok_def Let_def by (auto simp: nth_list_update)

lemma local_leader:
  assumes "node_base N G a p rf'" "leader_ok N a p rf'" "state rf' = StateLeader" "calm N p (eff rf')"
    "keeps_vote rf rf'"
  shows "local_step N G {} a p rf rf' a"
  using assms by (simp add: local_step_def node_ok_def)

lemma same_core_emit:
  assumes "node_base N G a p rf" "length ns = length (nextIndex rf)"
    "length ms = length (matchIndex rf)"
  shows "node_base N G a p (emit (rf\<lparr>matchIndex := ms, nextIndex := ns\<rparr>) x)"
proof (rule node_base_keep [OF assms(1)])
  have h: "healthy rf" "synced rf" using assms(1) by (simp_all add: node_base_def)
  have "synced (rf\<lparr>matchIndex := ms, nextIndex := ns\<rparr>)"
    by (rule synced_cong [OF h(2)]) simp_all
  then show "same_core rf (emit (rf\<lparr>matchIndex := ms, nextIndex := ns\<rparr>) x)"
    using h(1) assms(2,3) by (simp add: same_core_def) (simp add: healthy_def)
qed simp_all

text \<open>\<open>countNodesWithLogAt\<close> counts servers.\<close>

lemma card_filter_enumerate:
  "length (filter (\<lambda>(i, x). P i x) (enumerate 0 xs)) = card {i. i < length xs \<and> P i (xs ! i)}"
proof -
  let ?ys = "enumerate 0 xs"
  have "length (filter (\<lambda>(i, x). P i x) ?ys) = card {k. k < length ?ys \<and> (\<lambda>(i, x). P i x) (?ys ! k)}"
    by (rule length_filter_conv_card)
  also have "{k. k < length ?ys \<and> (\<lambda>(i, x). P i x) (?ys ! k)} = {i. i < length xs \<and> P i (xs ! i)}"
    by (auto simp: nth_enumerate_eq)
  finally show ?thesis .
qed

lemma countNodes_card:
  assumes "me rf = p" "0 \<le> p" "p < int N" "length (matchIndex rf) = N"
  shows "countNodesWithLogAt rf k =
    int (card (insert p {q \<in> node_set N. q \<noteq> p \<and> k \<le> matchIndex rf ! nat q}))"
proof -
  let ?S = "{i. i < N \<and> int i \<noteq> p \<and> k \<le> matchIndex rf ! i}"
  let ?Q = "{q \<in> node_set N. q \<noteq> p \<and> k \<le> matchIndex rf ! nat q}"
  have "?Q = int ` ?S"
  proof
    show "?Q \<subseteq> int ` ?S"
    proof
      fix q assume q: "q \<in> ?Q"
      then have "q = int (nat q)" "nat q \<in> ?S" by (auto simp: node_set_def)
      then show "q \<in> int ` ?S" by (rule image_eqI)
    qed
  qed (auto simp: node_set_def)
  then have "card ?Q = card ?S" by (simp add: card_image)
  moreover have "finite ?Q" by (rule finite_subset [of _ "node_set N"]) auto
  then have "card (insert p ?Q) = Suc (card ?Q)" by (intro card_insert_disjoint) auto
  moreover have "length (filter (\<lambda>(i, m). int i \<noteq> me rf \<and> k \<le> m) (enumerate 0 (matchIndex rf))) = card ?S"
    using card_filter_enumerate [of "\<lambda>i m. int i \<noteq> me rf \<and> k \<le> m" "matchIndex rf"] assms by simp
  ultimately show ?thesis by (simp add: countNodesWithLogAt_def)
qed

text \<open>The condition under which \<open>updateCommitIndex\<close> advances makes the prefix committed.\<close>

lemma leader_commits:
  assumes "ainv N a" "node_base N G a p rf" "leader_ok N a p rf" "0 \<le> p" "p < int N"
    and k: "commitIndex rf < k" "k < int (length (alog a p))"
      "Term (alog a p ! nat k) = currentTerm rf" "countNodesWithLogAt rf k > int N div 2"
  shows "cprefix N a (currentTerm rf) (take (nat (k + 1)) (alog a p))"
proof -
  let ?t = "currentTerm rf" and ?Q = "insert p {q \<in> node_set N. q \<noteq> p \<and> k \<le> matchIndex rf ! nat q}"
  have b: "me rf = p" "length (matchIndex rf) = N" "0 \<le> k"
    using assms(2) k(1) by (auto simp: node_base_def)
  have l: "alog a p = llog a ?t" "acked a p ?t = length (alog a p)"
    using assms(3) by (auto simp: leader_ok_def Let_def)
  have "majority N ?Q"
    using k(4) countNodes_card [OF b(1) assms(4,5) b(2), of k] assms(4,5)
    by (auto simp: majority_def node_set_def)
  moreover have "nat (k + 1) \<le> acked a q ?t" if "q \<in> ?Q" for q
  proof (cases "q = p")
    case True
    then show ?thesis using l(2) k(2) b(3) by simp
  next
    case False
    then have q: "q \<in> node_set N" "k \<le> matchIndex rf ! nat q" using that by auto
    then have "nat q < N" "int (nat q) = q" by (auto simp: node_set_def)
    moreover from this(1) have "matchIndex rf ! nat q \<le> commitIndex rf \<or>
        matchIndex rf ! nat q + 1 \<le> int (acked a (int (nat q)) ?t)"
      using assms(3) by (auto simp: leader_ok_def Let_def)
    ultimately show ?thesis using q(2) k(1) by auto
  qed
  moreover have "0 < nat (k + 1)" "nat (k + 1) \<le> length (llog a ?t)" "nat (k + 1) - 1 = nat k"
    using k(2) b(3) l(1) by auto
  ultimately have "committed N a ?t (take (nat (k + 1)) (llog a ?t))"
    unfolding committed_def using k(3) l(1)
    by (intro disjI2 exI [of _ ?t] exI [of _ "nat (k + 1)"] exI [of _ ?Q]) auto
  then show ?thesis using l(1) by (auto simp: cprefix_def)
qed

lemma node_base_commit:
  assumes "node_base N G a p rf" "commitIndex rf < k" "k < int (length (alog a p))"
    "cprefix N a (currentTerm rf) (take (nat (k + 1)) (alog a p))"
  shows "node_base N G a p (signalApplier (rf\<lparr>commitIndex := k\<rparr>))"
proof -
  have h: "healthy rf" "synced rf" "log_rel rf (alog a p)" using assms(1) by (simp_all add: node_base_def)
  have "synced (rf\<lparr>commitIndex := k\<rparr>)" by (rule synced_cong [OF h(2)]) simp_all
  moreover have "healthy (rf\<lparr>commitIndex := k\<rparr>)" using h(1) by (simp add: healthy_def)
  moreover have "log_rel (rf\<lparr>commitIndex := k\<rparr>) (alog a p)"
    by (rule log_rel_cong [OF h(3)]) simp_all
  ultimately show ?thesis using assms by (simp add: node_base_def) (simp add: signalApplier_def)
qed

lemma updateCommitIndex_sim:
  assumes "ainv N a" "node_base N G a p rf" "leader_ok N a p rf" "0 \<le> p" "p < int N"
    "state rf = StateLeader" "calm N p (eff rf)" "keeps_vote r rf"
  shows "\<exists>rf'. updateCommitIndex rf = Some rf' \<and> local_step N G {} a p r rf' a"
proof -
  note wf = node_base_wfl [OF assms(1,2)]
  have b: "lastIncludedIndex rf \<le> commitIndex rf" "peers rf = N"
    using assms(2) by (simp_all add: node_base_def)
  have n: "getLen rf - 1 < int (length (alog a p))" using log_rel_getLen [OF wf(1)] by simp
  from updateCommitLoop_spec [OF wf(1,2) n b(1)] show ?thesis
  proof (elim disjE exE conjE)
    assume "updateCommitLoop rf (getLen rf - 1) = Some rf"
    then show ?thesis using local_leader [OF assms(2,3,6-8)] by (auto simp: updateCommitIndex_def)
  next
    fix k
    assume k: "updateCommitLoop rf (getLen rf - 1) = Some (signalApplier (rf\<lparr>commitIndex := k\<rparr>))"
      "commitIndex rf < k" "k \<le> getLen rf - 1" "Term (alog a p ! nat k) = currentTerm rf"
      "int (peers rf) div 2 < countNodesWithLogAt rf k"
    let ?r = "signalApplier (rf\<lparr>commitIndex := k\<rparr>)"
    have kl: "k < int (length (alog a p))" using k(3) n by simp
    have "cprefix N a (currentTerm rf) (take (nat (k + 1)) (alog a p))"
      by (rule leader_commits [OF assms(1-5) k(2) kl k(4)]) (use k(5) b(2) in simp)
    from node_base_commit [OF assms(2) k(2) kl this] have "node_base N G a p ?r" .
    moreover have "leader_ok N a p ?r"
      using assms(3) k(2) by (auto simp: leader_ok_def Let_def signalApplier_def)
    moreover have "state ?r = StateLeader" "calm N p (eff ?r)" "keeps_vote r ?r"
      using assms(6-8) by (simp_all add: signalApplier_def keeps_vote_def)
    ultimately have "local_step N G {} a p r ?r a" by (rule local_leader)
    then show ?thesis using k(1) by (auto simp: updateCommitIndex_def)
  qed
qed

section \<open>Replies to the leader\<close>

lemma node_base_index:
  assumes "node_base N G a p rf"
  shows "peers rf = N" "length (nextIndex rf) = N" "length (matchIndex rf) = N"
    "healthy rf" "me rf = p"
  using assms by (simp_all add: node_base_def)

lemma leader_sim_indices:
  assumes "node_base N G a p rf" "leader_ok N a p rf" "state rf = StateLeader" "eff rf = []"
    "0 \<le> q" "q < int N" "n \<le> int (length (alog a p))"
    "m \<le> commitIndex rf \<or> m + 1 \<le> int (acked a q (currentTerm rf))"
  defines "rf' \<equiv> emit (rf\<lparr>matchIndex := (matchIndex rf)[nat q := m],
      nextIndex := (nextIndex rf)[nat q := n]\<rparr>) (SignalReplication q)"
  shows "node_base N G a p rf'" "leader_ok N a p rf'" "state rf' = StateLeader" "calm N p (eff rf')"
    "keeps_vote rf rf'"
proof -
  show "node_base N G a p rf'" unfolding rf'_def by (rule same_core_emit [OF assms(1)]) simp_all
  show "leader_ok N a p rf'"
    by (rule leader_ok_indices [OF assms(2), of "nat q"])
      (use assms(5-8) node_base_index [OF assms(1)] in \<open>simp_all add: rf'_def\<close>)
  show "state rf' = StateLeader" "calm N p (eff rf')" "keeps_vote rf rf'"
    using assms(3,4) by (simp_all add: rf'_def keeps_vote_def)
qed

lemma leader_index_bounds:
  assumes "leader_ok N a p rf" "0 \<le> q" "q < int N"
  shows "nextIndex rf ! nat q \<le> int (length (alog a p))"
    "matchIndex rf ! nat q \<le> commitIndex rf \<or>
     matchIndex rf ! nat q + 1 \<le> int (acked a q (currentTerm rf))"
  using assms unfolding leader_ok_def Let_def by (auto dest!: spec [of _ "nat q"])

lemma resolveConflict_sim:
  assumes "ainv N a" "node_base N G a p rf" "leader_ok N a p rf" "state rf = StateLeader"
    "eff rf = []" "0 \<le> q" "q < int N" "aea_PrevLogIndex args < int (length (alog a p))"
    "aer_ConflictIndex reply \<le> int (length (alog a p))"
  shows "\<exists>rf'. resolveConflict rf q args reply = Some rf' \<and> local_step N G {} a p rf rf' a"
proof -
  note wf = node_base_wfl [OF assms(1,2)] and ix = node_base_index [OF assms(2)]
  note q = leader_index_bounds [OF assms(3,6,7)]
  have st: "local_step N G {} a p rf (emit (rf\<lparr>matchIndex := (matchIndex rf)[nat q := matchIndex rf ! nat q],
      nextIndex := (nextIndex rf)[nat q := n]\<rparr>) (SignalReplication q)) a"
    if "n \<le> int (length (alog a p))" for n
    using leader_sim_indices [OF assms(2-7) that q(2)] by (rule local_leader)
  have "local_step N G {} a p rf (emit rf (SignalReplication q)) a"
    using st [OF q(1)] by simp
  moreover have "local_step N G {} a p rf (emit (set_next rf q n) (SignalReplication q)) a"
    if "n \<le> int (length (alog a p))" for n
    using st [OF that] by (simp add: set_next_def)
  ultimately show ?thesis
    using resolveConflict_spec [OF wf(1,2) assms(6) _ _ assms(8,9)] assms(7) ix by auto
qed

lemma handleAppendEntriesReply_sim:
  assumes "ainv N a" "node_ok N G a p rf" "eff rf = []" "0 \<le> p" "p < int N" "0 \<le> q" "q < int N"
    "append_ok N a args M" "aer_Success reply \<longrightarrow> length M \<le> acked a q (aea_Term args)"
    "\<not> aer_Success reply \<and> aer_Term reply \<le> aea_Term args \<longrightarrow>
        aer_ConflictIndex reply \<le> int (length (llog a (aea_Term args)))"
  shows "\<exists>rf' b. handleAppendEntriesReply rf q args reply = Some rf' \<and> local_step N G {} a p rf rf' b"
proof -
  have base: "node_base N G a p rf" using assms(2) by (simp add: node_ok_def)
  note ix = node_base_index [OF base]
  note eq = handleAppendEntriesReply_eq [OF ix(4), of q args reply]
  consider (higher) "aer_Term reply > currentTerm rf"
    | (ignore) "aer_Term reply \<le> currentTerm rf" "state rf \<noteq> StateLeader \<or> currentTerm rf \<noteq> aea_Term args"
    | (lead) "aer_Term reply \<le> currentTerm rf" "state rf = StateLeader" "currentTerm rf = aea_Term args"
    by linarith
  then show ?thesis
  proof cases
    case higher
    then show ?thesis using eq local_stepped_down [OF assms(1-3) higher] by auto
  next
    case ignore
    then show ?thesis using eq local_refl [OF assms(2,3)] by auto
  next
    case lead
    have l: "leader_ok N a p rf" using assms(2) lead(2) by (simp add: node_ok_def)
    have X: "alog a p = llog a (aea_Term args)" using l lead(3) by (simp add: leader_ok_def Let_def)
    have M: "prefix M (alog a p)" "0 \<le> aea_PrevLogIndex args" "aea_PrevLogIndex args < int (length M)"
      "aea_Entries args = drop (Suc (nat (aea_PrevLogIndex args))) M"
      using assms(8) X by (auto simp: append_ok_def)
    have lM: "length M \<le> length (alog a p)" by (rule prefix_length_le [OF M(1)])
    show ?thesis
    proof (cases "aer_Success reply")
      case False
      have "aer_ConflictIndex reply \<le> int (length (alog a p))"
        using assms(10) False lead(1,3) X by simp
      then have "\<exists>rf'. resolveConflict rf q args reply = Some rf' \<and> local_step N G {} a p rf rf' a"
        using M(3) lM by (intro resolveConflict_sim [OF assms(1) base l lead(2) assms(3,6,7)]) linarith+
      then show ?thesis using eq lead False by auto
    next
      case True
      let ?m = "aea_PrevLogIndex args + int (length (aea_Entries args))"
      have m: "?m = int (length M) - 1" using M(2-4) by simp
      define r where "r = (if ?m > matchIndex rf ! nat q then advanced rf q ?m else rf)"
      have ap: "advancePeerIndices rf q args = Some r"
        using advancePeerIndices_eq [of q rf args] assms(6,7) ix by (simp add: r_def Let_def)
      have "?m + 1 \<le> int (length (alog a p))"
        "?m \<le> commitIndex rf \<or> ?m + 1 \<le> int (acked a q (currentTerm rf))"
        using m lM assms(9) True lead(3) by simp_all
      note adv = leader_sim_indices [OF base l lead(2) assms(3,6,7) this]
      have r: "node_base N G a p r \<and> leader_ok N a p r \<and> state r = StateLeader \<and>
          calm N p (eff r) \<and> keeps_vote rf r"
        using adv base l lead(2) assms(3) by (simp add: r_def advanced_def)
      then have "\<exists>rf'. updateCommitIndex r = Some rf' \<and> local_step N G {} a p rf rf' a"
        by (intro updateCommitIndex_sim [OF assms(1) _ _ assms(4,5)]) simp_all
      then show ?thesis using eq lead True ap by auto
    qed
  qed
qed

lemma indices_commute:
  "(rf :: Raft)\<lparr>nextIndex := x, matchIndex := y\<rparr> = rf\<lparr>matchIndex := y, nextIndex := x\<rparr>"
  by (cases rf) simp

lemma handleInstallSnapshotReply_sim:
  assumes "ainv N a" "node_ok N G a p rf" "eff rf = []" "0 \<le> q" "q < int N"
    "install_ok N G a args M" "isr_Term reply \<le> isa_Term args \<longrightarrow> length M \<le> acked a q (isa_Term args)"
  shows "\<exists>rf' b. handleInstallSnapshotReply rf q args reply = Some rf' \<and> local_step N G {} a p rf rf' b"
proof -
  have base: "node_base N G a p rf" using assms(2) by (simp add: node_ok_def)
  note ix = node_base_index [OF base]
  note eq = handleInstallSnapshotReply_eq [OF ix(4) assms(4), of args reply]
  consider (higher) "isr_Term reply > currentTerm rf"
    | (ignore) "isr_Term reply \<le> currentTerm rf" "\<not> (state rf = StateLeader \<and> currentTerm rf = isa_Term args)"
    | (lead) "isr_Term reply \<le> currentTerm rf" "state rf = StateLeader" "currentTerm rf = isa_Term args"
    by linarith
  then show ?thesis
  proof cases
    case higher
    then show ?thesis using eq ix assms(5) local_stepped_down [OF assms(1-3) higher] by auto
  next
    case ignore
    then show ?thesis using eq ix assms(5) local_refl [OF assms(2,3)] by auto
  next
    case lead
    have l: "leader_ok N a p rf" using assms(2) lead(2) by (simp add: node_ok_def)
    have X: "alog a p = llog a (isa_Term args)" using l lead(3) by (simp add: leader_ok_def Let_def)
    let ?i = "isa_LastIncludedIndex args"
    have M: "prefix M (alog a p)" "int (length M) = ?i + 1" using assms(6) X by (auto simp: install_ok_def)
    note q = leader_index_bounds [OF l assms(4,5)]
    have "max (nextIndex rf ! nat q) (?i + 1) \<le> int (length (alog a p))"
      using q(1) M(2) prefix_length_le [OF M(1)] by simp
    moreover have "max (matchIndex rf ! nat q) ?i \<le> commitIndex rf \<or>
        max (matchIndex rf ! nat q) ?i + 1 \<le> int (acked a q (currentTerm rf))"
      using q(2) M(2) assms(7) lead(1,3) by (auto simp: max_def)
    ultimately have "local_step N G {} a p rf (emit (rf\<lparr>matchIndex := (matchIndex rf)[nat q :=
        max (matchIndex rf ! nat q) ?i], nextIndex := (nextIndex rf)[nat q :=
        max (nextIndex rf ! nat q) (?i + 1)]\<rparr>) (SignalReplication q)) a"
      by (intro local_leader leader_sim_indices [OF base l lead(2) assms(3-5)])
    then have "local_step N G {} a p rf (emit (rf\<lparr>nextIndex := (nextIndex rf)[nat q :=
        max (nextIndex rf ! nat q) (?i + 1)], matchIndex := (matchIndex rf)[nat q :=
        max (matchIndex rf ! nat q) ?i]\<rparr>) (SignalReplication q)) a"
      by (simp only: indices_commute)
    then show ?thesis using eq ix lead assms(5) by auto
  qed
qed

section \<open>What a leader sends\<close>

lemma replicateToPeer_sim:
  assumes "ainv N a" "node_ok N G a p rf" "0 \<le> q" "q < int N"
  shows "\<exists>req. replicateToPeer rf q = Some (req, rf) \<and>
    (\<forall>args. req = SendAppendEntries args \<longrightarrow> (\<exists>M. append_ok N a args M)) \<and>
    (\<forall>args. req = SendInstallSnapshot args \<longrightarrow> (\<exists>M. install_ok N G a args M))"
proof (cases "state rf = StateLeader")
  case False
  then show ?thesis by (simp add: replicateToPeer_def)
next
  case True
  let ?X = "alog a p" and ?n = "nextIndex rf ! nat q" and ?L = "lastIncludedIndex rf"
  have base: "node_base N G a p rf" using assms(2) by (simp add: node_ok_def)
  note wf = node_base_wfl [OF assms(1) base] and ix = node_base_index [OF base]
  have l: "leader_ok N a p rf" using assms(2) True by (simp add: node_ok_def)
  note q = leader_index_bounds [OF l assms(3,4)]
  have t: "0 < currentTerm rf" "elog a (currentTerm rf) \<noteq> None" "?X = llog a (currentTerm rf)"
    using l by (auto simp: leader_ok_def Let_def)
  have c: "?L \<le> commitIndex rf" "commitIndex rf < int (length ?X)" "0 \<le> ?L"
    "cprefix N a (currentTerm rf) (take (nat (commitIndex rf + 1)) ?X)"
    "lastIncludedTerm rf = Term (?X ! nat ?L)"
    "snapshot_ok G ?X ?L (disk_snapshot (persister rf))"
    using base by (auto simp: node_base_def log_rel_def)
  have app: "append_ok N a (append_request rf ?X ?n) ?X" if "?L < ?n"
  proof -
    have "Suc (nat (?n - 1)) = nat ?n" using that c(3) by simp
    then show ?thesis
      using that q(1) c t by (simp add: append_ok_def append_request_def)
  qed
  have ins: "install_ok N G a (snapshot_request rf) (take (nat (?L + 1)) ?X)"
  proof -
    let ?M = "take (nat (?L + 1)) ?X"
    have lenM: "length ?M = nat (?L + 1)" using c(1-3) by simp
    have "last ?M = ?X ! nat ?L"
      using lenM c(3) by (subst last_conv_nth) (auto simp: nat_add_distrib)
    moreover have "cprefix N a (currentTerm rf) ?M"
      by (rule cprefix_prefix [OF c(4)]) (use c(1,3) in \<open>simp add: prefix_take_mono\<close>)
    moreover have "snapshot_ok G ?M ?L (disk_snapshot (persister rf))"
      using c(6) by (simp add: snapshot_ok_def)
    moreover have "prefix ?M (llog a (currentTerm rf))" using t(3) by (simp add: take_is_prefix)
    ultimately show ?thesis
      using c(3,5) t(1,2) lenM by (simp add: install_ok_def snapshot_request_def)
  qed
  have "replicateToPeer rf q = Some (if ?n \<le> ?L then SendInstallSnapshot (snapshot_request rf)
      else SendAppendEntries (append_request rf ?X ?n), rf)"
    using replicateToPeer_eq [OF wf(4,1,2) assms(3) _ q(1)] assms(4) ix True by simp
  then show ?thesis using app ins by (cases "?n \<le> ?L") auto
qed

lemma needsReplication_ok:
  assumes "ainv N a" "node_base N G a p rf" "0 \<le> q" "q < int N"
  shows "\<exists>b. needsReplication rf q = Some b"
proof -
  note wf = node_base_wfl [OF assms(1,2)]
  obtain e where "getLastLog rf = Some e" using log_rel_getLastLog [OF wf(1,2)] by blast
  with assms(3,4) node_base_index [OF assms(2)] show ?thesis by (auto simp: needsReplication_def)
qed

section \<open>Heartbeats, snapshots, applying\<close>

lemma ticker_heartbeat_sim:
  assumes "node_ok N G a p rf" "eff rf = []"
  shows "local_step N G {} a p rf (ticker_heartbeat rf) a"
proof (cases "state rf = StateLeader")
  case True
  have base: "node_base N G a p rf" using assms(1) by (simp add: node_ok_def)
  note ix = node_base_index [OF base]
  have eq: "ticker_heartbeat rf =
      emit (add_effects rf (map GoReplicateToPeer (other_peers rf))) ResetHeartbeatTimer"
    using True by (simp add: ticker_heartbeat_def signalBroadcastReplication_eq resetHeartbeatTimer_def)
  have "same_core rf (ticker_heartbeat rf)"
    using base by (simp add: eq same_core_def node_base_def)
  then show ?thesis
    using assms ix by (intro local_same) (simp_all add: eq)
next
  case False
  then show ?thesis using local_refl [OF assms] by (simp add: ticker_heartbeat_def)
qed

lemma Snapshot_sim:
  assumes "ainv N a" "node_ok N G a p rf" "eff rf = []"
    "lastIncludedIndex rf < i \<Longrightarrow> i \<le> commitIndex rf \<Longrightarrow> G (take (nat (i + 1)) (alog a p)) d"
  shows "\<exists>rf'. Snapshot rf i d = Some rf' \<and> local_step N G {} a p rf rf' a"
proof -
  let ?X = "alog a p"
  have base: "node_base N G a p rf" using assms(2) by (simp add: node_ok_def)
  note wf = node_base_wfl [OF assms(1) base] and len = commit_length [OF base]
  have ci: "commitIndex rf < int (length ?X)" using base by (simp add: node_base_def)
  note eq = Snapshot_eq [OF wf(4,1,2) ci, of i d]
  show ?thesis
  proof (cases "i \<le> lastIncludedIndex rf \<or> i > commitIndex rf")
    case True
    then show ?thesis using eq local_refl [OF assms(2,3)] by auto
  next
    case False
    let ?r = "stored (compacted rf ?X i) d"
    have i: "lastIncludedIndex rf < i" "i < int (length ?X)" "i \<le> commitIndex rf" "0 < i"
      using False ci len by auto
    have rel: "log_rel ?r ?X"
      using log_rel_compact(1) [OF wf(1,2) i(1,2)] by (simp add: compacted_def)
    have h: "healthy ?r" using wf(4) by (simp add: compacted_def) (simp add: healthy_def)
    have "node_base N G a p ?r"
      using base rel h i assms(4) by (simp add: node_base_def snapshot_ok_def) (simp add: compacted_def)
    moreover have "leader_ok N a p ?r" if "leader_ok N a p rf"
      using that by (rule leader_ok_cong) (simp_all add: compacted_def)
    moreover have "cand_ok a p ?r = cand_ok a p rf" by (simp add: cand_ok_def compacted_def)
    ultimately have "local_step N G {} a p rf ?r a"
      using assms(2,3) by (simp add: local_step_def node_ok_def) (simp add: compacted_def keeps_vote_def)
    then show ?thesis using eq False by auto
  qed
qed

lemma applier_sim:
  assumes "ainv N a" "node_ok N G a p rf" "eff rf = []"
  shows "\<exists>msgs rf'. applier rf = Some (msgs, rf') \<and> local_step N G {} a p rf rf' a \<and>
    (\<forall>m \<in> set msgs. apply_ok N G a m)"
proof -
  let ?X = "alog a p" and ?P = "take (nat (commitIndex rf + 1)) (alog a p)"
  have base: "node_base N G a p rf" using assms(2) by (simp add: node_ok_def)
  note wf = node_base_wfl [OF assms(1) base] and len = commit_length [OF base]
  have b: "commitIndex rf < int (length ?X)" "0 \<le> lastApplied rf" "cprefix N a (currentTerm rf) ?P"
    "snapshot_ok G ?X (lastIncludedIndex rf) (disk_snapshot (persister rf))"
    using base by (simp_all add: node_base_def)
  have st: "local_step N G {} a p rf (rf\<lparr>lastApplied := k\<rparr>) a" if "0 \<le> k" "k \<le> commitIndex rf" for k
  proof -
    let ?r = "rf\<lparr>lastApplied := k\<rparr>"
    have "synced ?r" by (rule synced_cong [OF wf(5)]) simp_all
    moreover have "log_rel ?r ?X" by (rule log_rel_cong [OF wf(1)]) simp_all
    moreover have "healthy ?r" using wf(4) by (simp add: healthy_def)
    ultimately have "node_base N G a p ?r" using base that by (simp add: node_base_def)
    moreover have "leader_ok N a p ?r = leader_ok N a p rf" "cand_ok a p ?r = cand_ok a p rf"
      by (simp_all add: leader_ok_def cand_ok_def)
    ultimately show ?thesis using assms(2,3) by (simp add: local_step_def node_ok_def keeps_vote_def)
  qed
  note eq = applier_eq [OF wf(4,1) b(1)]
  consider "lastApplied rf \<ge> commitIndex rf"
    | (snap) "lastApplied rf < commitIndex rf" "lastApplied rf < lastIncludedIndex rf"
    | (cmds) "lastApplied rf < commitIndex rf" "lastApplied rf \<ge> lastIncludedIndex rf" by linarith
  then show ?thesis
  proof cases
    case 1
    then show ?thesis using eq local_refl [OF assms(2,3)] by auto
  next
    case snap
    let ?M = "take (nat (lastIncludedIndex rf + 1)) ?X"
    have "cprefix N a (currentTerm rf) ?M"
      by (rule cprefix_prefix [OF b(3)]) (use len in \<open>simp add: prefix_take_mono\<close>)
    moreover have "int (length ?M) = lastIncludedIndex rf + 1" using len b(1) by simp
    moreover have "G ?M (disk_snapshot (persister rf))"
      using b(2,4) snap(2) by (simp add: snapshot_ok_def)
    ultimately have "apply_ok N G a (snapshot_msg rf)"
      unfolding apply_ok_def using b(2) snap(2)
      by (intro exI [of _ "currentTerm rf"] exI [of _ ?M])
        (simp add: snapshot_msg_def zero_ApplyMsg_def)
    then show ?thesis using eq snap st [of "lastIncludedIndex rf"] len(2,3) by auto
  next
    case cmds
    have "apply_ok N G a m" if m: "m \<in> set (map command_msg (drop (nat (lastApplied rf + 1)) ?P))" for m
    proof -
      obtain j where j: "j < length (drop (nat (lastApplied rf + 1)) ?P)"
        "m = command_msg (drop (nat (lastApplied rf + 1)) ?P ! j)"
        using m by (auto simp: in_set_conv_nth)
      let ?i = "nat (lastApplied rf + 1) + j"
      have "drop (nat (lastApplied rf + 1)) ?P ! j = ?P ! ?i"
        using j(1) unfolding length_drop by (intro nth_drop) linarith
      with j(2) b(2) have i: "0 < ?i" "m = command_msg (?P ! ?i)" by simp_all
      have i1: "?i < length ?P" using j(1) unfolding length_drop by linarith
      have "Index (?P ! ?i) = int ?i"
        using wf(2) i1 by (simp add: indexed_def)
      with i i1 b(3) show ?thesis unfolding apply_ok_def by blast
    qed
    then show ?thesis using eq cmds st [of "commitIndex rf"] len by auto
  qed
qed

section \<open>Start\<close>

lemma leader_ok_append:
  assumes "leader_ok N a p rf" "aext a b" "currentTerm rf' = currentTerm rf"
    "nextIndex rf' = nextIndex rf" "matchIndex rf' = matchIndex rf" "commitIndex rf' = commitIndex rf"
    "alog b p = alog a p @ [e]" "llog b (currentTerm rf) = alog a p @ [e]"
    "acked b p (currentTerm rf) = Suc (length (alog a p))"
  shows "leader_ok N b p rf'"
proof -
  let ?t = "currentTerm rf"
  have l: "0 < ?t" "elog a ?t \<noteq> None" "aleader a ?t = p"
    using assms(1) by (auto simp: leader_ok_def Let_def)
  then have e: "elog b ?t \<noteq> None" "aleader b ?t = p" using assms(2) by (auto simp: aext_def ext_def)
  have "nextIndex rf ! q \<le> int (length (alog b p)) \<and>
      (matchIndex rf ! q \<le> commitIndex rf \<or> matchIndex rf ! q + 1 \<le> int (acked b (int q) ?t))"
    if "q < N" for q
  proof -
    have "nextIndex rf ! q \<le> int (length (alog a p)) \<and>
      (matchIndex rf ! q \<le> commitIndex rf \<or> matchIndex rf ! q + 1 \<le> int (acked a (int q) ?t))"
      using assms(1) that by (auto simp: leader_ok_def Let_def)
    moreover have "acked a (int q) ?t \<le> acked b (int q) ?t" by (rule aext_sel(1) [OF assms(2)])
    ultimately show ?thesis using assms(7) by auto
  qed
  with l(1) e assms(3-9) show ?thesis by (simp add: leader_ok_def Let_def)
qed

text \<open>The entry that a leader creates for a command.\<close>

definition started :: "Raft \<Rightarrow> any \<Rightarrow> Entry set" where
  "started rf cmd =
     (if state rf = StateLeader
      then {\<lparr>Index = getLen rf, Term = currentTerm rf, Command = cmd\<rparr>} else {})"

lemma Start_sim:
  assumes "ainv N a" "node_ok N G a p rf" "eff rf = []"
  shows "\<exists>r rf' b. Start rf cmd = Some (r, rf') \<and> local_step N G (started rf cmd) a p rf rf' b"
proof (cases "state rf = StateLeader")
  case False
  then show ?thesis using local_refl [OF assms(2,3)] by (auto simp: Start_def local_step_def)
next
  case True
  let ?X = "alog a p" and ?t = "currentTerm rf" and ?sn = "disk_snapshot (persister rf)"
  let ?e = "new_entry rf (alog a p) cmd" and ?b = "abs_append a p (new_entry rf (alog a p) cmd)"
  let ?r = "add_effects (stored (rf\<lparr>logs := logs rf @ [?e]\<rparr>) ?sn) (map SignalReplication (other_peers rf))"
  have base: "node_base N G a p rf" using assms(2) by (simp add: node_ok_def)
  note wf = node_base_wfl [OF assms(1) base] and ix = node_base_index [OF base]
    and len = commit_length [OF base]
  have l: "leader_ok N a p rf" using assms(2) True by (simp add: node_ok_def)
  then have t: "0 < ?t" "elog a ?t \<noteq> None" "?X = llog a ?t" "aleader a ?t = p"
    by (auto simp: leader_ok_def Let_def)
  have at: "aterm a p = ?t" using base by (simp add: node_base_def)
  have s: "astep N a ?b"
    by (rule astep.append) (use t at in \<open>simp_all add: new_entry_def\<close>)
  have to: "touches p a ?b" by (rule touches_append [OF assms(1)]) (use t at in simp_all)
  have b: "alog ?b p = ?X @ [?e]" "aterm ?b = aterm a" "avote ?b = avote a" "elog ?b = elog a"
    "aleader ?b = aleader a" "llog ?b ?t = ?X @ [?e]" "acked ?b p ?t = Suc (length ?X)"
    "\<And>q. q \<noteq> p \<Longrightarrow> acked ?b q ?t = acked a q ?t"
    using at by (auto simp: abs_append_def Let_def)
  have rel: "log_rel ?r (?X @ [?e])" using log_rel_snoc [OF wf(1), of ?e] by simp
  have h: "healthy ?r" using wf(4) by (simp add: healthy_def)
  have tk: "take k (?X @ [?e]) = take k ?X" if "k \<le> nat (commitIndex rf + 1)" for k
    using that len base by (simp add: node_base_def)
  have "cprefix N a ?t (take (nat (commitIndex rf + 1)) ?X)" using base by (simp add: node_base_def)
  then have c: "cprefix N ?b ?t (take (nat (commitIndex rf + 1)) (?X @ [?e]))"
    using cprefix_aext [OF assms(1)] to tk by (simp add: touches_def)
  have sn: "snapshot_ok G (?X @ [?e]) (lastIncludedIndex rf) ?sn"
    using base tk [of "nat (lastIncludedIndex rf + 1)"] len by (simp add: node_base_def snapshot_ok_def)
  have "node_base N G ?b p ?r"
    using base rel h c sn by (simp add: node_base_def b)
  moreover have "leader_ok N ?b p ?r"
    by (rule leader_ok_append [OF l, of _ _ ?e]) (use to in \<open>simp_all add: b touches_def\<close>)
  moreover have "state ?r = StateLeader" "calm N p (eff ?r)" "keeps_vote rf ?r"
    using True assms(3) calm_others(2) [of rf N p] ix by (simp_all add: keeps_vote_def)
  moreover have "known ?b \<subseteq> known a \<union> started rf cmd"
    using known_append [OF assms(1)] True log_rel_getLen [OF wf(1)]
    by (simp add: started_def new_entry_def)
  ultimately have "local_step N G (started rf cmd) a p rf ?r ?b"
    using s to by (simp add: local_step_def node_ok_def r_into_rtranclp)
  then show ?thesis using Start_eq [OF wf(4,1), of cmd] True by auto
qed

section \<open>Restarts\<close>

lemma restart_base:
  assumes "node_base N G a p rf"
  shows "\<exists>rf'. restart rf = Some rf' \<and> node_base N G a p rf' \<and>
    state rf' = StateFollower \<and> eff rf' = [] \<and> keeps_vote rf rf'"
proof -
  let ?r = "restarted rf (electionTimeoutMin rf) (electionTimeoutRand rf) (heartbeatTimeout rf)"
  have h: "healthy rf" "synced rf" "log_rel rf (alog a p)" using assms by (simp_all add: node_base_def)
  note len = commit_length [OF assms]
  have "restart rf = Some ?r"
    using h len(2) by (simp add: restart_def Make_restarts healthy_def)
  moreover have "healthy ?r" using h(1) by (simp add: healthy_def restarted_def fresh_Raft_def)
  moreover have "synced ?r" by (rule synced_cong [OF h(2)]) (simp_all add: restarted_def fresh_Raft_def)
  moreover have "log_rel ?r (alog a p)"
    by (rule log_rel_cong [OF h(3)]) (simp_all add: restarted_def fresh_Raft_def)
  moreover have "cprefix N a (currentTerm rf) (take (nat (lastIncludedIndex rf + 1)) (alog a p))"
  proof (rule cprefix_prefix)
    show "cprefix N a (currentTerm rf) (take (nat (commitIndex rf + 1)) (alog a p))"
      using assms by (simp add: node_base_def)
    show "prefix (take (nat (lastIncludedIndex rf + 1)) (alog a p))
        (take (nat (commitIndex rf + 1)) (alog a p))"
      using len(3) by (intro prefix_take_mono) simp
  qed
  moreover have "commitIndex rf < int (length (alog a p))" using assms by (simp add: node_base_def)
  ultimately show ?thesis
    using assms len by (intro exI [of _ ?r])
      (simp add: node_base_def, simp add: restarted_def fresh_Raft_def keeps_vote_def)
qed

lemma restart_sim:
  assumes "node_ok N G a p rf"
  shows "\<exists>rf'. restart rf = Some rf' \<and> local_step N G {} a p rf rf' a"
  using restart_base [of N G a p rf] assms by (auto simp: node_ok_def local_step_def)

text \<open>A crash after the term has been written, before anything else.\<close>

lemma restart_later_term:
  assumes "ainv N a" "node_ok N G a p rf" "same_core rf rf1" "currentTerm rf < currentTerm rf1"
  shows "\<exists>rf'. restart rf1 = Some rf' \<and> local_step N G {} a p rf rf' (to_term a p (currentTerm rf1))"
proof -
  have base: "node_base N G a p rf" using assms(2) by (simp add: node_ok_def)
  have "node_base N G (to_term a p (currentTerm rf1)) p rf1"
    by (rule node_base_to_term [OF assms(1) base assms(3)]) (use assms(4) in simp_all)
  from restart_base [OF this] obtain rf' where
    "restart rf1 = Some rf'" "node_base N G (to_term a p (currentTerm rf1)) p rf'"
    "state rf' = StateFollower" "eff rf' = []" "keeps_vote rf1 rf'" by blast
  moreover from this(5) have "keeps_vote rf rf'" using assms(4) by (simp add: keeps_vote_def)
  ultimately show ?thesis
    using to_term_steps [OF assms(1)] by (auto simp: node_ok_def local_step_def)
qed

lemma same_core_stored:
  assumes "healthy rf"
  shows "same_core rf (stored (rf\<lparr>state := s, currentTerm := t\<rparr>) (disk_snapshot (persister rf)))"
    "same_core rf (stored (rf\<lparr>currentTerm := t, votedFor := v\<rparr>) (disk_snapshot (persister rf)))"
  using assms by (simp_all add: same_core_def) (simp_all add: healthy_def)

section \<open>Elections\<close>

lemma becomeCandidate_sim:
  assumes "ainv N a" "node_ok N G a p rf" "0 \<le> p"
  shows "\<exists>rf' b. becomeCandidate rf = Some rf' \<and> is_candidate_of rf (alog a p) rf' \<and>
    asteps N a b \<and> touches p a b \<and> node_ok N G b p rf' \<and> known b = known a \<and>
    vote_ok b p (vote_args rf (alog a p))"
proof -
  let ?X = "alog a p" and ?t = "currentTerm rf + 1"
  have base: "node_base N G a p rf" using assms(2) by (simp add: node_ok_def)
  note wf = node_base_wfl [OF assms(1) base] and ix = node_base_index [OF base]
  obtain rf' where rf': "becomeCandidate rf = Some rf'" "is_candidate_of rf ?X rf'"
    using becomeCandidate_spec [OF wf(4,1,2)] by blast
  define a1 where "a1 = abs_bump a p ?t"
  define b where "b = abs_vote (abs_stand a1 p) p p"
  have at: "aterm a p = currentTerm rf" using base by (simp add: node_base_def)
  have inv: "0 \<le> aterm a p" "terms_upto ?X (aterm a p)"
    using assms(1) by (simp_all add: ainv_def inv_logs_def)
  have s1: "astep N a a1" unfolding a1_def by (rule astep.bump) (simp add: at)
  have a1: "aterm a1 p = ?t" "alog a1 = alog a" "acand a1 = acand a" "avote a1 = avote a"
    "elog a1 = elog a" "aleader a1 = aleader a"
    by (simp_all add: a1_def abs_bump_def)
  have no_cand: "acand a p ?t = None"
  proof (rule ccontr)
    assume "acand a p ?t \<noteq> None"
    then have "?t \<le> aterm a p" using assms(1) by (auto simp: ainv_def inv_cands_def)
    with at show False by simp
  qed
  have no_vote: "avote a p ?t = None"
  proof (rule ccontr)
    assume "avote a p ?t \<noteq> None"
    then have "?t \<le> aterm a p" using assms(1) by (auto simp: ainv_def inv_votes_def)
    with at show False by simp
  qed
  have no_lead: "\<not> (elog a ?t \<noteq> None \<and> aleader a ?t = p)"
    using assms(1) no_cand inv(1) at by (auto simp: ainv_def inv_elected_def)
  have s2: "astep N a1 b" unfolding b_def
    by (rule astep.stand) (use inv at no_cand no_vote in \<open>auto simp: a1 terms_upto_def\<close>)
  have i1: "ainv N a1" by (rule astep_ainv [OF s1 assms(1)])
  have t1: "touches p a a1" unfolding a1_def by (rule touches_bump) (simp add: at)
  have t2: "touches p a1 b" unfolding b_def by (rule touches_stand) (simp_all add: a1 no_cand no_vote)
  have bsel: "aterm b = aterm a1" "alog b = alog a1" "avote b p ?t = Some p"
    "acand b p ?t = Some ?X" "elog b = elog a1" "aleader b = aleader a1"
    by (simp_all add: b_def abs_vote_def abs_stand_def a1)
  have core: "same_core rf rf'" "currentTerm rf' = ?t" "votedFor rf' = p" "state rf' = StateCandidate"
    using rf'(2) ix by (auto simp: is_candidate_of_def same_core_def)
  have "node_base N G a1 p rf'"
    unfolding a1_def core(2) [symmetric]
    by (rule node_base_bump [OF assms(1) base core(1)]) (simp add: core(2))
  then have "node_base N G b p rf'"
    using cprefix_aext [OF i1] t2 core(3) assms(3)
    by (simp add: node_base_def bsel core(2) touches_def)
  moreover have "cand_ok b p rf'"
    using no_lead by (simp add: cand_ok_def core(2) bsel a1)
  ultimately have "node_ok N G b p rf'" using core(4) by (simp add: node_ok_def)
  moreover have "vote_ok b p (vote_args rf ?X)"
    using ix by (simp add: vote_ok_def vote_args_def bsel a1)
  moreover have "asteps N a b" using s1 s2 by (meson r_into_rtranclp rtranclp.rtrancl_into_rtrancl)
  moreover have "known b = known a"
    by (rule known_cong) (simp_all add: b_def a1_def abs_vote_def abs_stand_def abs_bump_def)
  ultimately show ?thesis using rf' touches_trans [OF t1 t2] by blast
qed

lemma node_ok_counted:
  assumes "node_ok N G a p rf"
  shows "node_ok N G a p (counted rf k)"
proof -
  have h: "healthy rf" "synced rf" using assms by (simp_all add: node_ok_def node_base_def)
  have "synced (counted rf k)" by (rule synced_cong [OF h(2)]) (simp_all add: counted_def)
  then have "same_core rf (counted rf k)" using h(1) by (simp add: same_core_def counted_def healthy_def)
  then have "node_base N G a p (counted rf k)"
    using assms node_base_keep by (auto simp: node_ok_def counted_def)
  then show ?thesis
    using assms by (simp add: node_ok_def leader_ok_def cand_ok_def counted_def)
qed

text \<open>A candidate that a majority has voted for was not preceded by another leader of its term.\<close>

lemma no_other_leader:
  assumes "ainv N a" "cand_ok a p rf" "majority N Q" "\<forall>q \<in> Q. avote a q (currentTerm rf) = Some p"
    "0 < currentTerm rf"
  shows "elog a (currentTerm rf) = None"
proof (rule ccontr)
  let ?t = "currentTerm rf"
  assume "elog a ?t \<noteq> None"
  then obtain E where E: "elog a ?t = Some E" by auto
  then obtain R where R: "majority N R" "\<forall>q \<in> R. avote a q ?t = Some (aleader a ?t)"
    using assms(1,5) unfolding ainv_def inv_elected_def by blast
  obtain v where "v \<in> Q" "v \<in> R" using majority_inter [OF assms(3) R(1)] by blast
  then have "aleader a ?t = p" using R(2) assms(4) by auto
  with E assms(2) show False by (simp add: cand_ok_def)
qed

lemma leading_sim:
  assumes "ainv N a" "node_ok N G a p rf" "eff rf = []" "0 \<le> p" "p < int N"
    "state rf = StateCandidate" "majority N Q" "\<forall>q \<in> Q. avote a q (currentTerm rf) = Some p"
  shows "asteps N a (abs_elect a p)" "touches p a (abs_elect a p)"
    "node_ok N G (abs_elect a p) p (leading rf (alog a p))"
    "state (leading rf (alog a p)) = StateLeader" "calm N p (eff (leading rf (alog a p)))"
    "keeps_vote rf (leading rf (alog a p))" "known (abs_elect a p) \<subseteq> known a"
proof -
  let ?t = "currentTerm rf" and ?X = "alog a p" and ?b = "abs_elect a p" and ?r = "leading rf (alog a p)"
  have base: "node_base N G a p rf" and c: "cand_ok a p rf"
    using assms(2,6) by (simp_all add: node_ok_def)
  note ix = node_base_index [OF base] and len = commit_length [OF base]
  have at: "aterm a p = ?t" using base by (simp add: node_base_def)
  have ac: "acand a p ?t = Some ?X" using c by (simp add: cand_ok_def Let_def)
  then have t0: "0 < ?t" using assms(1) by (auto simp: ainv_def inv_cands_def)
  have el: "elog a ?t = None" by (rule no_other_leader [OF assms(1) c assms(7,8) t0])
  have s: "astep N a ?b" by (rule astep.elect [OF assms(7)]) (use assms(8) el ac in \<open>simp_all add: at\<close>)
  then show "asteps N a ?b" by (rule r_into_rtranclp)
  show to: "touches p a ?b" by (rule touches_elect [OF assms(1)]) (simp add: at el)
  have b: "elog ?b ?t \<noteq> None" "aleader ?b ?t = p" "llog ?b ?t = ?X" "alog ?b = alog a"
    "acked ?b p ?t = length ?X" "aterm ?b = aterm a" "avote ?b = avote a"
    by (simp_all add: abs_elect_def Let_def at)
  have h: "healthy rf" "synced rf" using base by (simp_all add: node_base_def)
  have "synced ?r"
    unfolding leading_def synced_emit synced_add_effects by (rule synced_cong [OF h(2)]) simp_all
  then have "same_core rf ?r" using h(1) ix by (simp add: same_core_def leading_def healthy_def)
  then have "node_base N G a p ?r" by (rule node_base_keep [OF base]) (simp_all add: leading_def)
  then have nb: "node_base N G ?b p ?r"
    using cprefix_aext [OF assms(1)] to by (simp add: node_base_def b touches_def)
  have "matchIndex ?r ! q \<le> commitIndex ?r \<or> matchIndex ?r ! q + 1 \<le> int (acked ?b (int q) ?t)"
    if "q < N" for q
    using that len(3) ix assms(4) b(5)
    by (cases "q = nat p") (simp_all add: leading_def nth_list_update)
  then have "leader_ok N ?b p ?r"
    using b t0 ix by (simp add: leader_ok_def Let_def) (simp add: leading_def)
  then show "node_ok N G ?b p ?r" using nb by (simp add: node_ok_def leading_def)
  show "state ?r = StateLeader" "keeps_vote rf ?r" by (simp_all add: leading_def keeps_vote_def)
  show "known ?b \<subseteq> known a" by (rule known_elect [OF assms(1)])
  show "calm N p (eff ?r)"
    using assms(3) calm_others(1) [of rf N p] ix by (simp add: leading_def)
qed

lemma tally_counted:
  assumes "tally N a p rf V" "q \<in> node_set N" "q \<noteq> p" "q \<notin> V" "avote a q (currentTerm rf) = Some p"
    "k = int (length (grantedVotes rf)) - 1"
  shows "tally N a p (counted rf k) (insert q V)"
    "grantedVotes rf ! nat k = 1 + int (card V)" "0 \<le> k" "k < int (length (grantedVotes rf))"
    "last (grantedVotes (counted rf k)) = grantedVotes rf ! nat k + 1"
proof -
  have ne: "grantedVotes rf \<noteq> []" and fin: "finite V"
    using assms(1) by (auto simp: tally_def intro: finite_subset [of _ "node_set N"])
  then show k: "0 \<le> k" "k < int (length (grantedVotes rf))" using assms(6) by (auto simp: Suc_leI)
  have nk: "nat k = length (grantedVotes rf) - 1" using assms(6) by simp
  show g: "grantedVotes rf ! nat k = 1 + int (card V)"
    using assms(1) ne by (simp add: nk tally_def last_conv_nth)
  show "last (grantedVotes (counted rf k)) = grantedVotes rf ! nat k + 1"
    using ne by (simp add: counted_def last_list_update nk)
  then show "tally N a p (counted rf k) (insert q V)"
    using assms(1-5) ne fin g by (auto simp: tally_def counted_def)
qed

lemma tally_majority:
  assumes "tally N a p rf V" "0 \<le> p" "p < int N" "avote a p (currentTerm rf) = Some p"
    "last (grantedVotes rf) = int N div 2 + 1"
  shows "majority N (insert p V)" "\<forall>q \<in> insert p V. avote a q (currentTerm rf) = Some p"
proof -
  have "finite V" using assms(1) by (auto simp: tally_def intro: finite_subset [of _ "node_set N"])
  moreover have "p \<notin> V" using assms(1) by (auto simp: tally_def)
  ultimately have "int (card (insert p V)) = int N div 2 + 1" using assms(1,5) by (simp add: tally_def)
  then have "card (insert p V) > N div 2" by linarith
  then show "majority N (insert p V)"
    using assms(1-3) by (auto simp: majority_def tally_def node_set_def)
  show "\<forall>q \<in> insert p V. avote a q (currentTerm rf) = Some p"
    using assms(1,4) by (auto simp: tally_def)
qed

lemma requestVoteFromPeer_sim:
  assumes "ainv N a" "node_ok N G a p rf" "eff rf = []" "0 \<le> p" "p < int N"
    "q \<in> node_set N" "q \<noteq> p"
    and granted: "rvr_VoteGranted reply \<longrightarrow> avote a q (rva_Term args) = Some p"
    and valid: "isStillValidCandidate rf (rva_Term args) \<Longrightarrow>
      tally N a p rf V \<and> q \<notin> V \<and> k = int (length (grantedVotes rf)) - 1"
  shows "\<exists>rf' b. requestVoteFromPeer rf args k (Some reply) = Some rf' \<and>
     (local_step N G {} a p rf rf' b \<or>
      asteps N a b \<and> touches p a b \<and> node_ok N G b p rf' \<and> calm N p (eff rf') \<and>
      keeps_vote rf rf' \<and> known b = known a \<and> state rf = StateCandidate \<and>
      currentTerm rf = rva_Term args \<and> currentTerm rf' = currentTerm rf \<and>
      length (grantedVotes rf') = length (grantedVotes rf) \<and> tally N b p rf' (insert q V))"
proof -
  have base: "node_base N G a p rf" using assms(2) by (simp add: node_ok_def)
  note wf = node_base_wfl [OF assms(1) base] and ix = node_base_index [OF base]
  let ?v = "isStillValidCandidate rf (rva_Term args)"
  have kb: "?v \<Longrightarrow> 0 \<le> k \<and> k < int (length (grantedVotes rf))"
    using valid by (auto simp: tally_def Suc_leI)
  note eq = requestVoteFromPeer_eq [OF wf(4,1,2) _ _ kb, of args reply]
  consider (no) "\<not> ?v" | (higher) ?v "currentTerm rf < rvr_Term reply"
    | (denied) ?v "rvr_Term reply \<le> currentTerm rf" "\<not> rvr_VoteGranted reply"
    | (vote) ?v "rvr_Term reply \<le> currentTerm rf" "rvr_VoteGranted reply" by linarith
  then show ?thesis
  proof cases
    case higher
    then show ?thesis using eq ix assms(4,5) local_stepped_down [OF assms(1-3) higher(2)] by auto
  next
    case vote
    have st: "state rf = StateCandidate" "currentTerm rf = rva_Term args"
      using vote(1) by (auto simp: isStillValidCandidate_def)
    have tl: "tally N a p rf V" "q \<notin> V" "k = int (length (grantedVotes rf)) - 1"
      using valid [OF vote(1)] by simp_all
    have aq: "avote a q (currentTerm rf) = Some p" using granted vote(3) st(2) by simp
    note tc = tally_counted [OF tl(1) assms(6,7) tl(2) aq tl(3)]
    let ?c = "counted rf k"
    have c: "node_ok N G a p ?c" "eff ?c = []" "state ?c = StateCandidate" "currentTerm ?c = currentTerm rf"
      "length (grantedVotes ?c) = length (grantedVotes rf)"
      using node_ok_counted [OF assms(2)] assms(3) st(1) by (simp_all add: counted_def)
    have kv: "keeps_vote rf ?c" by (simp add: keeps_vote_def counted_def)
    show ?thesis
    proof (cases "grantedVotes rf ! nat k + 1 = int N div 2 + 1")
      case False
      then have "requestVoteFromPeer rf args k (Some reply) = Some ?c" using eq ix assms(4,5) vote by simp
      then show ?thesis using c st tc(1) kv by auto
    next
      case True
      have ap: "avote a p (currentTerm ?c) = Some p"
        using assms(2) st(1) c(4) by (simp add: node_ok_def cand_ok_def Let_def)
      have "last (grantedVotes ?c) = int N div 2 + 1" using True tc(5) by simp
      note mj = tally_majority [OF tc(1) assms(4,5) ap this]
      note ls = leading_sim [OF assms(1) c(1,2) assms(4,5) c(3) mj]
      have "requestVoteFromPeer rf args k (Some reply) = Some (leading ?c (alog a p))"
        using eq ix assms(4,5) vote True by simp
      moreover have "local_step N G {} a p rf (leading ?c (alog a p)) (abs_elect a p)"
        using ls keeps_vote_trans [OF kv] by (simp add: local_step_def)
      ultimately show ?thesis by auto
    qed
  qed (use eq ix assms(4,5) local_refl [OF assms(2,3)] in auto)
qed

end
