(* ===== verification/Raft_Refinement.thy ===== *)
theory Raft_Refinement
  imports Raft_Leader_Sim
begin

text \<open>
  The forward simulation: every event of the cluster is a sequence of steps of the
  abstract protocol, and no event makes a server panic.
\<close>

section \<open>Task lists\<close>

lemma vote_keys_append [simp]: "vote_keys (xs @ ys) = vote_keys xs @ vote_keys ys"
  by (simp add: vote_keys_def)

lemma vote_keys_split:
  assumes "k < length ts"
  shows "vote_keys ts = vote_keys (take k ts) @ vote_key (ts ! k) @ vote_keys (drop (Suc k) ts)"
proof -
  have "ts = take k ts @ ts ! k # drop (Suc k) ts" using assms by (simp add: id_take_nth_drop)
  then have "vote_keys ts = vote_keys (take k ts @ ts ! k # drop (Suc k) ts)" by simp
  then show ?thesis by (simp add: vote_keys_def)
qed

lemma vote_keys_update:
  assumes "k < length ts" "vote_key m = vote_key (ts ! k)"
  shows "vote_keys (ts[k := m]) = vote_keys ts"
  using assms(1,2) vote_keys_split [of k ts] vote_keys_split [of k "ts[k := m]"] by simp

lemma del_subset: "set (del k xs) \<subseteq> set xs"
  by (auto simp: del_def dest: in_set_takeD in_set_dropD)

lemma vote_keys_del:
  assumes "k < length ts" "distinct (vote_keys ts)"
  shows "distinct (vote_keys (del k ts))" "set (vote_keys (del k ts)) \<subseteq> set (vote_keys ts)"
    "x \<in> set (vote_key (ts ! k)) \<Longrightarrow> x \<notin> set (vote_keys (del k ts))"
  using assms(2) vote_keys_split [OF assms(1)] by (auto simp: del_def)

lemma vote_keys_mem: "m \<in> set ts \<Longrightarrow> set (vote_key m) \<subseteq> set (vote_keys ts)"
  by (auto simp: vote_keys_def)

lemma vote_keys_spawned [simp]:
  "calm N p es \<Longrightarrow> vote_keys (spawned p es) = []"
proof (induction es)
  case (Cons x es)
  then show ?case by (cases x) (auto simp: calm_def spawned_def vote_keys_def)
qed (simp add: spawned_def vote_keys_def)

lemma spawned_calm:
  assumes "calm N p es" "m \<in> set (spawned p es)"
  shows "\<exists>q. m = Replicate p q \<and> q \<in> node_set N \<and> q \<noteq> p"
proof -
  obtain x where "x \<in> set es" "m \<in> set (spawn p x)" using assms(2) by (auto simp: spawned_def)
  with assms(1) show ?thesis by (cases x) (auto simp: calm_def)
qed

section \<open>One server makes a step\<close>

lemma node_finish:
  assumes "length (nodes c) = N" "p \<in> node_set N" "q \<in> node_set N"
  shows "node (finish p rf ts c) q = (if q = p then rf\<lparr>eff := []\<rparr> else node c q)"
  using assms by (auto simp: node_def finish_def node_set_def nth_list_update nat_eq_iff)

lemma node_ok_eff [simp]: "node_ok N G a p (rf\<lparr>eff := es\<rparr>) = node_ok N G a p rf"
proof -
  have "healthy (rf\<lparr>eff := es\<rparr>) = healthy rf" by (simp add: healthy_def)
  moreover have "synced (rf\<lparr>eff := es\<rparr>) = synced rf"
    by (simp add: synced_def encodeState_def split: option.splits)
  moreover have "log_rel (rf\<lparr>eff := es\<rparr>) X = log_rel rf X" for X by (simp add: log_rel_def)
  ultimately show ?thesis
    by (simp add: node_ok_def node_base_def leader_ok_def cand_ok_def)
qed

lemma counter_ok_cong:
  "currentTerm rf' = currentTerm rf \<Longrightarrow> length (grantedVotes rf') = length (grantedVotes rf) \<Longrightarrow>
   counter_ok p rf' m = counter_ok p rf m"
  by (cases m) auto

lemma counting_ok_cong:
  assumes "currentTerm rf' = currentTerm rf" "grantedVotes rf' = grantedVotes rf"
  shows "counting_ok N a ts p rf' = counting_ok N a ts p rf"
proof -
  have "counter_ok p rf' m = counter_ok p rf m" for m using assms counter_ok_cong [of rf' rf p m] by simp
  moreover have "tally N a p rf' V = tally N a p rf V" for V using assms by (simp add: tally_def)
  ultimately show ?thesis using assms(1) by (simp add: counting_ok_def)
qed

text \<open>
  What a step may do to the tasks: keep them, drop them, or add tasks that are right in the
  new abstract state and start no new vote call.
\<close>

definition tasks_step :: "nat \<Rightarrow> snapshot_pred \<Rightarrow> abs \<Rightarrow> task list \<Rightarrow> task list \<Rightarrow> bool" where
  "tasks_step N G b ts ts' \<longleftrightarrow> distinct (vote_keys ts') \<and> set (vote_keys ts') \<subseteq> set (vote_keys ts) \<and>
     (\<forall>m \<in> set ts'. m \<in> set ts \<or> task_ok N G b m \<and> routed N m \<and>
        (\<forall>p rf. (\<forall>m' \<in> set ts. counter_ok p rf m') \<longrightarrow> counter_ok p rf m))"

lemma tasks_step_refl: "distinct (vote_keys ts) \<Longrightarrow> tasks_step N G b ts ts"
  by (simp add: tasks_step_def)

lemma tasks_step_del:
  "k < length ts \<Longrightarrow> distinct (vote_keys ts) \<Longrightarrow> tasks_step N G b ts (del k ts)"
  using vote_keys_del [of k ts] del_subset [of k ts] by (auto simp: tasks_step_def)

lemma tasks_step_spawn:
  assumes "tasks_step N G b ts ts'" "calm N p es" "p \<in> node_set N"
  shows "tasks_step N G b ts (ts' @ spawned p es)"
proof -
  have "task_ok N G b m \<and> routed N m \<and> (\<forall>p rf. counter_ok p rf m)" if "m \<in> set (spawned p es)" for m
    using spawned_calm [OF assms(2) that] assms(3) by (auto simp: routed_def)
  with assms(1,2) show ?thesis by (auto simp: tasks_step_def)
qed

lemma tasks_step_append:
  assumes "tasks_step N G b ts ts'" "\<forall>m \<in> set us. task_ok N G b m \<and> routed N m"
    "\<forall>m \<in> set us. vote_key m = []"
  shows "tasks_step N G b ts (ts' @ us)"
proof -
  have "vote_keys us = []" using assms(3) by (simp add: vote_keys_def)
  moreover have "counter_ok p rf m" if "m \<in> set us" for m p rf
    using assms(3) that by (cases m) auto
  ultimately show ?thesis using assms by (auto simp: tasks_step_def)
qed

lemma tasks_step_update:
  assumes "k < length ts" "distinct (vote_keys ts)" "vote_key m = vote_key (ts ! k)"
    "task_ok N G b m" "routed N m" "\<And>p rf. counter_ok p rf (ts ! k) = counter_ok p rf m"
  shows "tasks_step N G b ts (ts[k := m])"
proof -
  have "ts ! k \<in> set ts" using assms(1) by simp
  then have "\<forall>p rf. (\<forall>m' \<in> set ts. counter_ok p rf m') \<longrightarrow> counter_ok p rf m" using assms(6) by blast
  moreover have "set (ts[k := m]) \<subseteq> insert m (set ts)" by (rule set_update_subset_insert)
  ultimately show ?thesis
    using assms vote_keys_update [OF assms(1,3)] by (auto simp: tasks_step_def)
qed

lemma counting_ok_step:
  assumes "aext a b" "counting_ok N a ts p rf" "tasks_step N G b ts ts'"
  shows "counting_ok N b ts' p rf"
proof (rule counting_ok_frame [OF assms(1,2)])
  have "\<forall>m \<in> set ts. counter_ok p rf m" using assms(2) by (simp add: counting_ok_def)
  then show "\<forall>m \<in> set ts'. m \<in> set ts \<or> counter_ok p rf m"
    using assms(3) unfolding tasks_step_def by blast
  show "\<forall>q. (p, q, currentTerm rf) \<in> set (vote_keys ts') \<longrightarrow> (p, q, currentTerm rf) \<in> set (vote_keys ts)"
    using assms(3) by (auto simp: tasks_step_def)
qed

text \<open>The parts of the simulation relation.\<close>

lemma simD:
  assumes "sim N G a c"
  shows "ainv N a" "length (nodes c) = N" "length (applied c) = N" "distinct (vote_keys (tasks c))"
    "p \<in> node_set N \<Longrightarrow> node_ok N G a p (node c p)" "p \<in> node_set N \<Longrightarrow> eff (node c p) = []"
    "p \<in> node_set N \<Longrightarrow> state (node c p) = StateCandidate \<Longrightarrow> counting_ok N a (tasks c) p (node c p)"
    "m \<in> set (tasks c) \<Longrightarrow> task_ok N G a m" "m \<in> set (tasks c) \<Longrightarrow> routed N m"
    "p \<in> node_set N \<Longrightarrow> m' \<in> set (applied c ! nat p) \<Longrightarrow> apply_ok N G a m'"
  using assms by (auto simp: sim_def)

lemma sim_finish:
  assumes sim: "sim N G a c" and p: "p \<in> node_set N"
    and st: "asteps N a b" "touches p a b" "node_ok N G b p rf"
    and cnt: "state rf = StateCandidate \<Longrightarrow> counting_ok N b ts' p rf"
    and ts: "ts' = ts @ spawned p (eff rf)"
    and tasks: "\<forall>m \<in> set ts'. task_ok N G b m \<and> routed N m" "distinct (vote_keys ts')"
    and others: "\<And>q. q \<in> node_set N \<Longrightarrow> q \<noteq> p \<Longrightarrow> state (node c q) = StateCandidate \<Longrightarrow>
      counting_ok N b ts' q (node c q)"
  shows "sim N G b (finish p rf ts c)"
proof -
  note D = simD [OF sim]
  have inv: "ainv N b" by (rule asteps_ainv [OF st(1) D(1)])
  have ext: "aext a b" using st(2) by (simp add: touches_def)
  have nd: "node (finish p rf ts c) q = (if q = p then rf\<lparr>eff := []\<rparr> else node c q)"
    if "q \<in> node_set N" for q by (rule node_finish [OF D(2) p that])
  have "counting_ok N b ts' p (rf\<lparr>eff := []\<rparr>)" if "state rf = StateCandidate"
    using cnt [OF that] counting_ok_cong [of "rf\<lparr>eff := []\<rparr>" rf] by simp
  moreover have "node_ok N G b q (node c q)" if "q \<in> node_set N" "q \<noteq> p" for q
    by (rule node_ok_frame [OF D(1) st(2) that(2) D(5) [OF that(1)]])
  moreover have "apply_ok N G b m" if "q \<in> node_set N" "m \<in> set (applied c ! nat q)" for q m
    by (rule apply_ok_aext [OF D(1) ext D(10) [OF that]])
  moreover have "tasks (finish p rf ts c) = ts'" "applied (finish p rf ts c) = applied c"
    "length (nodes (finish p rf ts c)) = N"
    using ts D(2) by (simp_all add: finish_def)
  ultimately show ?thesis
    unfolding sim_def using inv nd st(3) tasks others D(3,6) by auto
qed

text \<open>
  One step of the simulation: the abstract protocol follows, the only new log entries are those
  of \<open>K\<close>, and no server forgets its term or changes its vote.
\<close>

definition sim_step :: "nat \<Rightarrow> snapshot_pred \<Rightarrow> Entry set \<Rightarrow> abs \<Rightarrow> cluster \<Rightarrow> cluster \<Rightarrow> abs \<Rightarrow> bool" where
  "sim_step N G K a c c' b \<longleftrightarrow> asteps N a b \<and> sim N G b c' \<and> known b \<subseteq> known a \<union> K \<and>
     (\<forall>p \<in> node_set N. keeps_vote (node c p) (node c' p))"

lemma sim_step_refl: "sim N G a c \<Longrightarrow> sim_step N G {} a c c a"
  by (simp add: sim_step_def)

lemma sim_step_trans:
  assumes "sim_step N G K a c c' a'" "sim_step N G K' a' c' d b"
  shows "sim_step N G (K \<union> K') a c d b"
proof -
  have "asteps N a b" using assms rtranclp_trans [of "astep N"] by (auto simp: sim_step_def)
  moreover have "known b \<subseteq> known a \<union> (K \<union> K')" using assms unfolding sim_step_def by blast
  moreover have "keeps_vote (node c p) (node d p)" if "p \<in> node_set N" for p
    using assms keeps_vote_trans that unfolding sim_step_def by blast
  ultimately show ?thesis using assms(2) by (simp add: sim_step_def)
qed

lemma sim_step_finish:
  assumes "sim N G a c" "p \<in> node_set N" "asteps N a b" "sim N G b (finish p rf ts c)"
    "keeps_vote (node c p) rf" "known b \<subseteq> known a \<union> K"
  shows "sim_step N G K a c (finish p rf ts c) b"
  using assms node_finish [OF simD(2) [OF assms(1)] assms(2)] by (simp add: sim_step_def keeps_vote_def)

lemma sim_local:
  assumes sim: "sim N G a c" and p: "p \<in> node_set N"
    and st: "local_step N G K a p (node c p) rf b" and ts: "tasks_step N G b (tasks c) ts"
  shows "sim_step N G K a c (finish p rf ts c) b"
proof -
  note D = simD [OF sim]
  let ?ts = "ts @ spawned p (eff rf)"
  have l: "asteps N a b" "touches p a b" "node_ok N G b p rf" "calm N p (eff rf)"
    "state rf = StateCandidate \<Longrightarrow> state (node c p) = StateCandidate \<and>
        currentTerm rf = currentTerm (node c p) \<and> grantedVotes rf = grantedVotes (node c p)"
    using st by (simp_all add: local_step_def)
  have kv: "keeps_vote (node c p) rf" "known b \<subseteq> known a \<union> K" using st by (simp_all add: local_step_def)
  have ext: "aext a b" using l(2) by (simp add: touches_def)
  have tst: "tasks_step N G b (tasks c) ?ts" by (rule tasks_step_spawn [OF ts l(4) p])
  have "sim N G b (finish p rf ts c)"
  proof (rule sim_finish [OF sim p l(1-3) _ refl])
    assume "state rf = StateCandidate"
    with l(5) D(7) [OF p] have "counting_ok N a (tasks c) p rf"
      using counting_ok_cong [of rf "node c p"] by simp
    then show "counting_ok N b ?ts p rf" by (rule counting_ok_step [OF ext _ tst])
  next
    show "\<forall>m \<in> set ?ts. task_ok N G b m \<and> routed N m"
    proof
      fix m assume m: "m \<in> set ?ts"
      show "task_ok N G b m \<and> routed N m"
      proof (cases "m \<in> set (tasks c)")
        case True
        then show ?thesis using task_ok_aext [OF D(1) ext] D(8,9) by blast
      next
        case False
        with m tst show ?thesis unfolding tasks_step_def by blast
      qed
    qed
    show "distinct (vote_keys ?ts)" using tst by (simp add: tasks_step_def)
  next
    fix q assume "q \<in> node_set N" "state (node c q) = StateCandidate"
    then show "counting_ok N b ?ts q (node c q)"
      using counting_ok_step [OF ext D(7) tst] by blast
  qed
  then show ?thesis by (rule sim_step_finish [OF sim p l(1) _ kv])
qed

section \<open>Elections\<close>

lemma vote_key_term:
  assumes "sim N G a c" "(p, q, t) \<in> set (vote_keys (tasks c))"
  shows "t \<le> aterm a p"
proof -
  obtain m where m: "m \<in> set (tasks c)" "(p, q, t) \<in> set (vote_key m)"
    using assms(2) by (auto simp: vote_keys_def)
  have "task_ok N G a m" by (rule simD(8) [OF assms(1) m(1)])
  with m(2) show ?thesis by (cases m rule: task.exhaust) (auto simp: vote_ok_def)
qed

lemma old_counter_ok:
  assumes "sim N G a c" "m \<in> set (tasks c)" "aterm a p < currentTerm rf"
  shows "counter_ok p rf m"
proof -
  have "t \<le> aterm a p" if "(p, q, t) \<in> set (vote_key m)" for q t
    using vote_key_term [OF assms(1), of p q t] vote_keys_mem [OF assms(2)] that by blast
  with assms(3) show ?thesis by (cases m rule: task.exhaust) auto
qed

lemma spawned_votes:
  "spawned p (map (\<lambda>q. GoRequestVoteFromPeer q args k) qs @ [ResetElectionTimer]) =
     map (\<lambda>q. VoteRequest p q args k) qs"
  by (induction qs) (auto simp: spawned_def)

lemma vote_keys_requests:
  "vote_keys (map (\<lambda>q. VoteRequest p q args k) qs) = map (\<lambda>q. (p, q, rva_Term args)) qs"
  by (induction qs) (auto simp: vote_keys_def)

lemma set_other_peers:
  "set (other_peers rf) = node_set (peers rf) - {me rf}" "distinct (other_peers rf)"
proof -
  have "set (peer_range rf) = node_set (peers rf)"
    by (simp add: peer_range_def node_set_def image_int_atLeastLessThan)
  then show "set (other_peers rf) = node_set (peers rf) - {me rf}" by (auto simp: other_peers_def)
  show "distinct (other_peers rf)" by (simp add: other_peers_def peer_range_def distinct_map)
qed

lemma sim_becomeCandidate:
  assumes sim: "sim N G a c" and p: "p \<in> node_set N"
  shows "\<exists>rf b. becomeCandidate (node c p) = Some rf \<and> sim_step N G {} a c (finish p rf (tasks c) c) b"
proof -
  note D = simD [OF sim]
  let ?rf = "node c p" and ?X = "alog a p"
  have p0: "0 \<le> p" using p by (simp add: node_set_def)
  obtain rf b where r: "becomeCandidate ?rf = Some rf" "is_candidate_of ?rf ?X rf"
    "asteps N a b" "touches p a b" "node_ok N G b p rf" "vote_ok b p (vote_args ?rf ?X)"
    "known b = known a"
    using becomeCandidate_sim [OF D(1) D(5) [OF p] p0] by blast
  let ?k = "int (length (grantedVotes ?rf))"
  let ?us = "map (\<lambda>q. VoteRequest p q (vote_args ?rf ?X) ?k) (other_peers ?rf)"
  have c: "currentTerm rf = currentTerm ?rf + 1" "grantedVotes rf = grantedVotes ?rf @ [1]"
    "eff rf = map (\<lambda>q. GoRequestVoteFromPeer q (vote_args ?rf ?X) ?k) (other_peers ?rf) @ [ResetElectionTimer]"
    using r(2) D(6) [OF p] by (auto simp: is_candidate_of_def)
  have at: "aterm a p = currentTerm ?rf" "peers ?rf = N" "me ?rf = p"
    using D(5) [OF p] by (simp_all add: node_ok_def node_base_def)
  have op: "set (other_peers ?rf) = node_set N - {p}" "distinct (other_peers ?rf)"
    using set_other_peers [of ?rf] at by simp_all
  have sp: "spawned p (eff rf) = ?us" by (simp add: c(3) spawned_votes)
  have key: "vote_keys ?us = map (\<lambda>q. (p, q, currentTerm rf)) (other_peers ?rf)"
    by (simp add: vote_keys_requests c(1) vote_args_def)
  have old: "(p, q, currentTerm rf) \<notin> set (vote_keys (tasks c))" for q
    using vote_key_term [OF sim] at(1) c(1) by force
  have ext: "aext a b" using r(4) by (simp add: touches_def)
  have "sim N G b (finish p rf (tasks c) c)"
  proof (rule sim_finish [OF sim p r(3-5) _ refl])
    have "counter_ok p rf m" if "m \<in> set (tasks c @ ?us)" for m
    proof (cases "m \<in> set (tasks c)")
      case True
      then show ?thesis by (rule old_counter_ok [OF sim]) (simp add: at(1) c(1))
    next
      case False
      with that show ?thesis by (auto simp: c(2))
    qed
    moreover have "tally N b p rf {}" by (simp add: tally_def c(2))
    ultimately show "counting_ok N b (tasks c @ spawned p (eff rf)) p rf"
      unfolding counting_ok_def sp by blast
  next
    show "\<forall>m \<in> set (tasks c @ spawned p (eff rf)). task_ok N G b m \<and> routed N m"
    proof
      fix m assume m: "m \<in> set (tasks c @ spawned p (eff rf))"
      show "task_ok N G b m \<and> routed N m"
      proof (cases "m \<in> set (tasks c)")
        case True
        then show ?thesis using task_ok_aext [OF D(1) ext] D(8,9) by blast
      next
        case False
        with m obtain q where "q \<in> node_set N - {p}" "m = VoteRequest p q (vote_args ?rf ?X) ?k"
          unfolding sp op(1) [symmetric] by auto
        then show ?thesis using r(6) p by (simp add: routed_def)
      qed
    qed
    have "distinct (vote_keys ?us)" using op(2) by (auto simp: key distinct_map inj_on_def)
    then show "distinct (vote_keys (tasks c @ spawned p (eff rf)))" using D(4) old by (auto simp: sp key)
  next
    fix q assume q: "q \<in> node_set N" "q \<noteq> p" "state (node c q) = StateCandidate"
    show "counting_ok N b (tasks c @ spawned p (eff rf)) q (node c q)"
      by (rule counting_ok_frame [OF ext D(7) [OF q(1,3)]]) (use q(2) in \<open>auto simp: sp key\<close>)
  qed
  moreover have "keeps_vote ?rf rf" using c(1) by (simp add: keeps_vote_def)
  ultimately have "sim_step N G {} a c (finish p rf (tasks c) c) b"
    using sim_step_finish [OF sim p r(3)] r(7) by simp
  with r(1) show ?thesis by blast
qed

lemma sim_ElectionTimeout:
  assumes "sim N G a c" "p \<in> node_set N"
  shows "\<exists>c' b. exec (ElectionTimeout p) c = Some c' \<and> sim_step N G {} a c c' b"
proof (cases "state (node c p) = StateLeader")
  case True
  note D = simD [OF assms(1)]
  let ?rf = "node c p"
  have base: "node_base N G a p ?rf" using D(5) [OF assms(2)] by (simp add: node_ok_def)
  then have h: "healthy ?rf" "synced ?rf" by (simp_all add: node_base_def)
  have "local_step N G {} a p ?rf (emit ?rf ResetElectionTimer) a"
    by (rule local_same [OF D(5) [OF assms(2)]])
      (use h D(6) [OF assms(2)] in \<open>simp_all add: same_core_def\<close>)
  from sim_local [OF assms this tasks_step_refl [OF D(4)]] show ?thesis
    using True h(1) by (auto simp: exec_def ticker_election_def resetElectionTimer_ok)
next
  case False
  then show ?thesis using sim_becomeCandidate [OF assms] by (auto simp: exec_def ticker_election_def)
qed

text \<open>A vote that is counted.\<close>

lemma sim_VoteReply:
  assumes sim: "sim N G a c" and k: "k < length (tasks c)" "tasks c ! k = VoteReply p q args addr reply"
  shows "\<exists>c' b. run_task k c = Some c' \<and> sim_step N G {} a c c' b"
proof -
  note D = simD [OF sim]
  let ?rf = "node c p" and ?ts = "del k (tasks c)"
  have mem: "VoteReply p q args addr reply \<in> set (tasks c)" using k nth_mem by metis
  have pq: "p \<in> node_set N" "q \<in> node_set N" "q \<noteq> p" using D(9) [OF mem] by (auto simp: routed_def)
  have pb: "0 \<le> p" "p < int N" using pq(1) by (simp_all add: node_set_def)
  have gr: "rvr_VoteGranted reply \<longrightarrow> avote a q (rva_Term args) = Some p" using D(8) [OF mem] by simp
  have key: "(p, q, rva_Term args) \<in> set (vote_key (tasks c ! k))" by (simp add: k(2))
  let ?v = "isStillValidCandidate ?rf (rva_Term args)"
  obtain V where V: "?v \<Longrightarrow> tally N a p ?rf V \<and> q \<notin> V \<and> addr = int (length (grantedVotes ?rf)) - 1 \<and>
      (\<forall>v \<in> V. (p, v, currentTerm ?rf) \<notin> set (vote_keys (tasks c)))"
  proof (cases ?v)
    case True
    then have v: "state ?rf = StateCandidate" "currentTerm ?rf = rva_Term args"
      by (simp_all add: isStillValidCandidate_def)
    have co: "counting_ok N a (tasks c) p ?rf" by (rule D(7) [OF pq(1) v(1)])
    then obtain W where W: "tally N a p ?rf W"
      "\<forall>v \<in> W. (p, v, currentTerm ?rf) \<notin> set (vote_keys (tasks c))"
      by (auto simp: counting_ok_def)
    have "counter_ok p ?rf (VoteReply p q args addr reply)" using co mem by (auto simp: counting_ok_def)
    then have "addr = int (length (grantedVotes ?rf)) - 1" using v by simp
    moreover have "(p, q, currentTerm ?rf) \<in> set (vote_keys (tasks c))"
      using vote_keys_mem [OF mem] v by auto
    ultimately show ?thesis using that [of W] W by blast
  qed (use that in blast)
  obtain rf b where r: "requestVoteFromPeer ?rf args addr (Some reply) = Some rf"
    "local_step N G {} a p ?rf rf b \<or>
      asteps N a b \<and> touches p a b \<and> node_ok N G b p rf \<and> calm N p (eff rf) \<and>
      keeps_vote ?rf rf \<and> known b = known a \<and> state ?rf = StateCandidate \<and> currentTerm ?rf = rva_Term args \<and> currentTerm rf = currentTerm ?rf \<and>
      length (grantedVotes rf) = length (grantedVotes ?rf) \<and> tally N b p rf (insert q V)"
    using requestVoteFromPeer_sim [OF D(1) D(5) [OF pq(1)] D(6) [OF pq(1)] pb pq(2,3) gr, of V addr] V
    by blast
  have td: "tasks_step N G b (tasks c) ?ts" by (rule tasks_step_del [OF k(1) D(4)])
  have "sim_step N G {} a c (finish p rf ?ts c) b"
    using r(2)
  proof (elim disjE conjE)
    assume l: "local_step N G {} a p ?rf rf b"
    then show ?thesis by (rule sim_local [OF sim pq(1) _ td])
  next
    assume n: "asteps N a b" "touches p a b" "node_ok N G b p rf" "calm N p (eff rf)"
      "state ?rf = StateCandidate" "currentTerm ?rf = rva_Term args" "currentTerm rf = currentTerm ?rf"
      "length (grantedVotes rf) = length (grantedVotes ?rf)" "tally N b p rf (insert q V)"
      "keeps_vote ?rf rf" "known b = known a"
    have v: ?v using n(5,6) by (simp add: isStillValidCandidate_def)
    have ext: "aext a b" using n(2) by (simp add: touches_def)
    have ts: "tasks_step N G b (tasks c) (?ts @ spawned p (eff rf))"
      by (rule tasks_step_spawn [OF td n(4) pq(1)])
    have keys: "vote_keys (?ts @ spawned p (eff rf)) = vote_keys ?ts" using n(4) by simp
    have "sim N G b (finish p rf ?ts c)"
    proof (rule sim_finish [OF sim pq(1) n(1-3) _ refl])
      have "\<forall>m \<in> set (tasks c). counter_ok p rf m"
        using D(7) [OF pq(1) n(5)] counter_ok_cong [OF n(7,8)] by (auto simp: counting_ok_def)
      then have "\<forall>m \<in> set (?ts @ spawned p (eff rf)). counter_ok p rf m"
        using ts unfolding tasks_step_def by blast
      moreover have "\<forall>w \<in> insert q V. (p, w, currentTerm rf) \<notin> set (vote_keys ?ts)"
        using V [OF v] vote_keys_del(2,3) [OF k(1) D(4)] key n(6,7) by auto
      ultimately show "counting_ok N b (?ts @ spawned p (eff rf)) p rf"
        unfolding counting_ok_def keys using n(9) by blast
    next
      show "\<forall>m \<in> set (?ts @ spawned p (eff rf)). task_ok N G b m \<and> routed N m"
        using ts task_ok_aext [OF D(1) ext] D(8,9) unfolding tasks_step_def by blast
      show "distinct (vote_keys (?ts @ spawned p (eff rf)))" using ts by (simp add: tasks_step_def)
    next
      fix w assume "w \<in> node_set N" "state (node c w) = StateCandidate"
      then show "counting_ok N b (?ts @ spawned p (eff rf)) w (node c w)"
        using counting_ok_step [OF ext D(7) ts] by blast
    qed
    then show ?thesis using sim_step_finish [OF sim pq(1) n(1) _ n(10)] n(11) by simp
  qed
  then show ?thesis using r(1) k(2) by (auto simp: run_task_def)
qed

section \<open>The other tasks\<close>

lemma request_tasks_ok:
  assumes "\<forall>args. req = SendAppendEntries args \<longrightarrow> (\<exists>M. append_ok N a args M)"
    "\<forall>args. req = SendInstallSnapshot args \<longrightarrow> (\<exists>M. install_ok N G a args M)"
    "p \<in> node_set N" "q \<in> node_set N" "p \<noteq> q"
  shows "\<forall>m \<in> set (request_tasks p q req). task_ok N G a m \<and> routed N m"
    "\<forall>m \<in> set (request_tasks p q req). vote_key m = []"
  using assms by (cases req; simp add: request_tasks_def routed_def)+

lemma sim_replicate:
  assumes sim: "sim N G a c" and pq: "p \<in> node_set N" "q \<in> node_set N" "p \<noteq> q"
    and ts: "tasks_step N G a (tasks c) ts"
  shows "\<exists>req. replicateToPeer (node c p) q = Some (req, node c p) \<and>
    sim_step N G {} a c (finish p (node c p) (ts @ request_tasks p q req) c) a"
proof -
  note D = simD [OF sim]
  have qb: "0 \<le> q" "q < int N" using pq(2) by (simp_all add: node_set_def)
  obtain req where r: "replicateToPeer (node c p) q = Some (req, node c p)"
    "\<forall>args. req = SendAppendEntries args \<longrightarrow> (\<exists>M. append_ok N a args M)"
    "\<forall>args. req = SendInstallSnapshot args \<longrightarrow> (\<exists>M. install_ok N G a args M)"
    using replicateToPeer_sim [OF D(1) D(5) [OF pq(1)] qb] by blast
  have "sim_step N G {} a c (finish p (node c p) (ts @ request_tasks p q req) c) a"
    by (rule sim_local [OF sim pq(1) local_refl [OF D(5) [OF pq(1)] D(6) [OF pq(1)]]
          tasks_step_append [OF ts request_tasks_ok [OF r(2,3) pq]]])
  with r(1) show ?thesis by blast
qed

lemma sim_run_task:
  assumes sim: "sim N G a c" and k: "k < length (tasks c)"
  shows "\<exists>c' b. run_task k c = Some c' \<and> sim_step N G {} a c c' b"
proof -
  note D = simD [OF sim]
  let ?m = "tasks c ! k"
  have mem: "?m \<in> set (tasks c)" using k by simp
  have ok: "task_ok N G a ?m" and rt: "caller ?m \<in> node_set N" "callee ?m \<in> node_set N"
      "caller ?m \<noteq> callee ?m"
    using D(8,9) [OF mem] by (simp_all add: routed_def)
  have bd: "0 \<le> x \<and> x < int N" if "x \<in> node_set N" for x using that by (simp add: node_set_def)
  have td: "tasks_step N G b (tasks c) (del k (tasks c))" for b by (rule tasks_step_del [OF k D(4)])
  show ?thesis
  proof (cases ?m)
    case (Replicate p q)
    with rt have pq: "p \<in> node_set N" "q \<in> node_set N" "p \<noteq> q" by simp_all
    from sim_replicate [OF sim pq td] show ?thesis using Replicate by (auto simp: run_task_def)
  next
    case (VoteRequest p q args addr)
    with rt have pq: "p \<in> node_set N" "q \<in> node_set N" "p \<noteq> q" by simp_all
    have vo: "vote_ok a p args" using ok VoteRequest by simp
    obtain rf reply b where r: "RequestVote (node c q) args = Some (rf, reply)"
      "local_step N G {} a q (node c q) rf b" "rvr_VoteGranted reply \<longrightarrow> avote b q (rva_Term args) = Some p"
      using RequestVote_sim [OF D(1) D(5) [OF pq(2)] D(6) [OF pq(2)] vo pq(3)] bd pq by blast
    have "aext a b" using r(2) by (simp add: local_step_def touches_def)
    then have "tasks_step N G b (tasks c) ((tasks c)[k := VoteReply p q args addr reply])"
      using r(3) vote_ok_aext vo VoteRequest pq by (intro tasks_step_update k D(4)) (auto simp: routed_def)
    from sim_local [OF sim pq(2) r(2) this] r(1,2) VoteRequest show ?thesis
      by (auto simp: run_task_def)
  next
    case (VoteReply p q args addr reply)
    then show ?thesis by (rule sim_VoteReply [OF sim k])
  next
    case (AppendRequest p q args)
    with rt have pq: "p \<in> node_set N" "q \<in> node_set N" "p \<noteq> q" by simp_all
    obtain M where M: "append_ok N a args M" using ok AppendRequest by auto
    obtain rf reply b where r: "AppendEntries (node c q) args = Some (rf, reply)"
      "local_step N G {} a q (node c q) rf b"
      "aer_Success reply \<longrightarrow> length M \<le> acked b q (aea_Term args)"
      "\<not> aer_Success reply \<and> aer_Term reply \<le> aea_Term args \<longrightarrow>
        aer_ConflictIndex reply \<le> int (length (llog b (aea_Term args)))"
      using AppendEntries_sim [OF D(1) D(5) [OF pq(2)] D(6) [OF pq(2)] M] by blast
    have "aext a b" using r(2) by (simp add: local_step_def touches_def)
    from append_ok_aext [OF D(1) this M] r(3,4) have "task_ok N G b (AppendReply p q args reply)" by auto
    then have "tasks_step N G b (tasks c) ((tasks c)[k := AppendReply p q args reply])"
      using AppendRequest pq by (intro tasks_step_update k D(4)) (auto simp: routed_def)
    from sim_local [OF sim pq(2) r(2) this] r(1,2) AppendRequest show ?thesis
      by (auto simp: run_task_def)
  next
    case (AppendReply p q args reply)
    with rt have pq: "p \<in> node_set N" "q \<in> node_set N" by simp_all
    obtain M where M: "append_ok N a args M" "aer_Success reply \<longrightarrow> length M \<le> acked a q (aea_Term args)"
      "\<not> aer_Success reply \<and> aer_Term reply \<le> aea_Term args \<longrightarrow>
        aer_ConflictIndex reply \<le> int (length (llog a (aea_Term args)))"
      using ok AppendReply by auto
    obtain rf b where r: "handleAppendEntriesReply (node c p) q args reply = Some rf"
      "local_step N G {} a p (node c p) rf b"
      using handleAppendEntriesReply_sim [OF D(1) D(5) [OF pq(1)] D(6) [OF pq(1)] _ _ _ _ M] bd pq by blast
    from sim_local [OF sim pq(1) r(2) td] r AppendReply show ?thesis
      by (auto simp: run_task_def)
  next
    case (SnapshotRequest p q args)
    with rt have pq: "p \<in> node_set N" "q \<in> node_set N" "p \<noteq> q" by simp_all
    obtain M where M: "install_ok N G a args M" using ok SnapshotRequest by auto
    obtain rf reply b where r: "InstallSnapshot (node c q) args = Some (rf, reply)"
      "local_step N G {} a q (node c q) rf b"
      "isr_Term reply \<le> isa_Term args \<longrightarrow> length M \<le> acked b q (isa_Term args)"
      using InstallSnapshot_sim [OF D(1) D(5) [OF pq(2)] D(6) [OF pq(2)] M] by blast
    have "aext a b" using r(2) by (simp add: local_step_def touches_def)
    from install_ok_aext [OF D(1) this M] r(3) have "task_ok N G b (SnapshotReply p q args reply)" by auto
    then have "tasks_step N G b (tasks c) ((tasks c)[k := SnapshotReply p q args reply])"
      using SnapshotRequest pq by (intro tasks_step_update k D(4)) (auto simp: routed_def)
    from sim_local [OF sim pq(2) r(2) this] r(1,2) SnapshotRequest show ?thesis
      by (auto simp: run_task_def)
  next
    case (SnapshotReply p q args reply)
    with rt have pq: "p \<in> node_set N" "q \<in> node_set N" by simp_all
    obtain M where M: "install_ok N G a args M"
      "isr_Term reply \<le> isa_Term args \<longrightarrow> length M \<le> acked a q (isa_Term args)"
      using ok SnapshotReply by auto
    obtain rf b where r: "handleInstallSnapshotReply (node c p) q args reply = Some rf"
      "local_step N G {} a p (node c p) rf b"
      using handleInstallSnapshotReply_sim [OF D(1) D(5) [OF pq(1)] D(6) [OF pq(1)] _ _ M] bd pq by blast
    from sim_local [OF sim pq(1) r(2) td] r SnapshotReply show ?thesis
      by (auto simp: run_task_def)
  qed
qed

section \<open>Every event\<close>

lemma sim_Lose:
  assumes "sim N G a c" "k < length (tasks c)"
  shows "sim_step N G {} a c (c\<lparr>tasks := del k (tasks c)\<rparr>) a"
proof -
  note D = simD [OF assms(1)]
  note v = vote_keys_del [OF assms(2) D(4)]
  have "counting_ok N a (del k (tasks c)) p (node c p)"
    if "p \<in> node_set N" "state (node c p) = StateCandidate" for p
    by (rule counting_ok_step [OF aext_refl D(7) [OF that] tasks_step_del [OF assms(2) D(4)]])
  moreover have "node (c\<lparr>tasks := del k (tasks c)\<rparr>) p = node c p" for p by (simp add: node_def)
  ultimately show ?thesis
    using D v(1) del_subset [of k "tasks c"] unfolding sim_step_def sim_def by auto
qed

lemma sim_Apply:
  assumes "sim N G a c" "p \<in> node_set N"
  shows "\<exists>msgs rf. applier (node c p) = Some (msgs, rf) \<and>
    sim_step N G {} a c ((finish p rf (tasks c) c)\<lparr>applied := (applied c)[nat p := applied c ! nat p @ msgs]\<rparr>) a"
proof -
  note D = simD [OF assms(1)]
  obtain msgs rf where r: "applier (node c p) = Some (msgs, rf)" "local_step N G {} a p (node c p) rf a"
    "\<forall>m \<in> set msgs. apply_ok N G a m"
    using applier_sim [OF D(1) D(5) [OF assms(2)] D(6) [OF assms(2)]] by blast
  let ?c = "finish p rf (tasks c) c"
  let ?d = "?c\<lparr>applied := (applied c)[nat p := applied c ! nat p @ msgs]\<rparr>"
  have s: "sim_step N G {} a c ?c a" by (rule sim_local [OF assms r(2) tasks_step_refl [OF D(4)]])
  have "applied ?c = applied c" by (simp add: finish_def)
  moreover have "apply_ok N G a m" if "q \<in> node_set N" "m \<in> set (applied ?d ! nat q)" for q m
    using that D(3) D(10) r(3) assms(2)
    by (cases "q = p") (auto simp: node_set_def nth_list_update nat_eq_iff)
  moreover have "node ?d q = node ?c q" for q by (simp add: node_def)
  ultimately have "sim_step N G {} a c ?d a" using s unfolding sim_step_def sim_def by simp
  with r(1) show ?thesis by blast
qed

text \<open>The log entries that an event creates: those of client commands at a leader.\<close>

definition created :: "event \<Rightarrow> cluster \<Rightarrow> Entry set" where
  "created e c = (case e of Submit p cmd \<Rightarrow> started (node c p) cmd | _ \<Rightarrow> {})"

lemma sim_exec:
  assumes sim: "sim N G a c" and po: "possible e c"
    and snap: "\<And>p i d. e = TakeSnapshot p i d \<Longrightarrow> lastIncludedIndex (node c p) < i \<Longrightarrow>
      i \<le> commitIndex (node c p) \<Longrightarrow> G (take (nat (i + 1)) (alog a p)) d"
  shows "\<exists>c' b. exec e c = Some c' \<and> sim_step N G (created e c) a c c' b"
proof -
  note D = simD [OF sim]
  have nd: "is_node c p \<longleftrightarrow> p \<in> node_set N" for p using D(2) by (simp add: is_node_def node_set_def)
  have fin: "sim_step N G K a c (finish p rf (tasks c) c) b"
    if "local_step N G K a p (node c p) rf b" "p \<in> node_set N" for p rf b K
    by (rule sim_local [OF sim that(2,1) tasks_step_refl [OF D(4)]])
  show ?thesis
  proof (cases e)
    case (ElectionTimeout p)
    then show ?thesis using sim_ElectionTimeout [OF sim] po by (simp add: possible_def nd created_def)
  next
    case (HeartbeatTimeout p)
    then have p: "p \<in> node_set N" using po by (simp add: possible_def nd)
    have "local_step N G {} a p (node c p) (ticker_heartbeat (node c p)) a"
      by (rule ticker_heartbeat_sim [OF D(5,6) [OF p]])
    from fin [OF this p] HeartbeatTimeout show ?thesis by (auto simp: exec_def created_def)
  next
    case (Replicator p q)
    then have pq: "p \<in> node_set N" "q \<in> node_set N" "p \<noteq> q" using po by (simp_all add: possible_def nd)
    have "node_base N G a p (node c p)" "0 \<le> q" "q < int N"
      using D(5) [OF pq(1)] pq(2) by (simp_all add: node_ok_def node_set_def)
    then obtain b where "needsReplication (node c p) q = Some b"
      using needsReplication_ok [OF D(1)] by blast
    then show ?thesis
      using sim_replicate [OF sim pq tasks_step_refl [OF D(4)]] sim_step_refl [OF sim] Replicator
      by (cases b) (auto simp: exec_def created_def)
  next
    case (Run k)
    then show ?thesis using sim_run_task [OF sim] po by (simp add: possible_def exec_def created_def)
  next
    case (Lose k)
    then show ?thesis using sim_Lose [OF sim] po by (auto simp: possible_def exec_def created_def)
  next
    case (Submit p cmd)
    then have p: "p \<in> node_set N" using po by (simp add: possible_def nd)
    obtain r rf b where "Start (node c p) cmd = Some (r, rf)" "local_step N G (started (node c p) cmd) a p (node c p) rf b"
      using Start_sim [OF D(1) D(5,6) [OF p]] by blast
    with fin [OF this(2) p] Submit show ?thesis by (auto simp: exec_def created_def)
  next
    case (TakeSnapshot p i d)
    then have p: "p \<in> node_set N" using po by (simp add: possible_def nd)
    obtain rf where "Snapshot (node c p) i d = Some rf" "local_step N G {} a p (node c p) rf a"
      using Snapshot_sim [OF D(1) D(5,6) [OF p] snap [OF TakeSnapshot]] by blast
    with fin [OF this(2) p] TakeSnapshot show ?thesis by (auto simp: exec_def created_def)
  next
    case (Apply p)
    then have p: "p \<in> node_set N" using po by (simp add: possible_def nd)
    from sim_Apply [OF sim p] Apply show ?thesis by (auto simp: exec_def created_def)
  next
    case (Crash p)
    then have p: "p \<in> node_set N" using po by (simp add: possible_def nd)
    obtain rf where "restart (node c p) = Some rf" "local_step N G {} a p (node c p) rf a"
      using restart_sim [OF D(5) [OF p]] by blast
    with fin [OF this(2) p] Crash show ?thesis by (auto simp: exec_def created_def)
  next
    case (CrashInElection p)
    then have p: "p \<in> node_set N" using po by (simp add: possible_def nd)
    have h: "healthy (node c p)" using D(5) [OF p] by (simp add: node_ok_def node_base_def)
    let ?r = "stored ((node c p)\<lparr>state := StateCandidate, currentTerm := currentTerm (node c p) + 1\<rparr>)
            (disk_snapshot (persister (node c p)))"
    have "currentTerm (node c p) < currentTerm ?r" by simp
    then obtain rf b where "restart ?r = Some rf" "local_step N G {} a p (node c p) rf b"
      using restart_later_term [OF D(1) D(5) [OF p] same_core_stored(1) [OF h]] by blast
    with fin [OF this(2) p] CrashInElection sim_step_refl [OF sim] enterCandidate_eq [OF h] show ?thesis
      by (auto simp: exec_def created_def)
  next
    case (CrashInInstall k)
    show ?thesis
    proof (cases "\<exists>p q args. tasks c ! k = SnapshotRequest p q args \<and> isa_Term args > currentTerm (node c q)")
      case False
      then show ?thesis using CrashInInstall sim_step_refl [OF sim] by (auto simp: exec_def created_def split: task.splits)
    next
      case True
      then obtain p q args where m: "tasks c ! k = SnapshotRequest p q args"
        "currentTerm (node c q) < isa_Term args" by blast
      have "routed N (tasks c ! k)" using D(9) po CrashInInstall by (simp add: possible_def)
      then have q: "q \<in> node_set N" using m(1) by (simp add: routed_def)
      have h: "healthy (node c q)" using D(5) [OF q] by (simp add: node_ok_def node_base_def)
      let ?q = "(node c q)\<lparr>currentTerm := isa_Term args, votedFor := -1\<rparr>"
      have h': "healthy ?q" using h by (simp add: healthy_def)
      have "currentTerm (node c q) < currentTerm (stored ?q (disk_snapshot (persister (node c q))))"
        using m(2) by simp
      then obtain rf b where "restart (stored ?q (disk_snapshot (persister (node c q)))) = Some rf"
        "local_step N G {} a q (node c q) rf b"
        using restart_later_term [OF D(1) D(5) [OF q] same_core_stored(2) [OF h]] by blast
      with fin [OF this(2) q] CrashInInstall m persist_ok [OF h'] show ?thesis
        by (auto simp: exec_def created_def)
    qed
  qed
qed

section \<open>The initial state\<close>

lemma sim_init:
  assumes "erand \<noteq> 0"
  shows "sim N G ainit (init_cluster N emin erand hb)"
proof -
  have nd: "node (init_cluster N emin erand hb) p = init_node N emin erand hb p"
    if "p \<in> node_set N" for p
  proof -
    have "nat p < N" "int (nat p) = p" using that by (auto simp: node_set_def)
    then show ?thesis by (simp add: node_def init_cluster_def)
  qed
  have cp: "cprefix N ainit 0 [zero_Entry]" by (auto simp: cprefix_def committed_def)
  have "node_ok N G ainit p (init_node N emin erand hb p)" if "p \<in> node_set N" for p
    using assms cp
    by (simp add: node_ok_def node_base_def init_node_def fresh_Raft_def ainit_def healthy_def
        no_faults_def synced_def log_rel_def snapshot_ok_def disk_snapshot_def zero_Entry_def)
  then show ?thesis
    unfolding sim_def using ainit_ainv nd
    by (auto simp: init_cluster_def init_node_def fresh_Raft_def node_set_def vote_keys_def)
qed

text \<open>The cluster simulates the abstract protocol, and no server ever panics.\<close>

lemma reachable_sim:
  assumes "reachable N c"
  shows "\<exists>a. areach N a \<and> sim N (\<lambda>_ _. True) a c"
  using assms
proof induction
  case (start erand emin hb)
  then show ?case using sim_init areach.init by blast
next
  case (step c e c')
  then obtain a where a: "areach N a" "sim N (\<lambda>_ _. True) a c" by blast
  then obtain d b where d: "exec e c = Some d" "asteps N a b" "sim N (\<lambda>_ _. True) b d"
    using sim_exec [OF a(2) step.hyps(2)] unfolding sim_step_def by blast
  have "areach N b" using d(2) a(1) by (induction rule: rtranclp_induct) (auto intro: areach.step)
  then show ?case using d step.hyps(3) by auto
qed

end
