(* ===== verification/Raft_Safety.thy ===== *)
theory Raft_Safety
  imports Raft_Refinement
begin

text \<open>
  The safety theorems of the Raft cluster, stated on the states that the handlers of
  \<^verbatim>\<open>kvraft/internal/raft\<close> reach: what the servers store, commit and apply. They follow
  from the simulation and from the invariants of the abstract protocol.
\<close>

section \<open>A concrete run\<close>

text \<open>
  Three servers: server 0 is elected by server 1, a command is started, replicated to
  server 1, committed and applied by both. Afterwards server 0 crashes and server 1 is
  elected in the next term by server 2.
\<close>

definition demo_start :: cluster where
  "demo_start = init_cluster 3 600 400 100"

definition demo_commit :: "event list" where
  "demo_commit = [ElectionTimeout 0, Run 0, Run 0, Submit 0 (AnyInt 7), Replicator 0 1, Run 3, Run 3,
     Apply 0, Run 1, Run 2, Run 2, Apply 1]"

definition demo_change :: "event list" where
  "demo_change = [Crash 0, ElectionTimeout 1, Run 3, Run 3]"

definition run_from :: "cluster \<Rightarrow> event list \<Rightarrow> cluster" where
  "run_from c es = (case exec_all es c of Some c' \<Rightarrow> c' | None \<Rightarrow> c)"

definition demo :: cluster where
  "demo = run_from demo_start demo_commit"

definition demo_later :: cluster where
  "demo_later = run_from demo demo_change"

section \<open>Reading the logs\<close>

lemma log_rel_getLog_iff:
  assumes "log_rel rf X" "indexed X" "lastIncludedIndex rf < i"
  shows "getLog rf i = (if i < int (length X) then Some (X ! nat i) else None)"
proof (cases "i < int (length X)")
  case True
  obtain e where "getLog rf i = Some e" "e = X ! nat i"
    using log_rel_getLog [OF assms(1,2) less_imp_le [OF assms(3)] True] assms(3) by metis
  with True show ?thesis by simp
next
  case False
  have "int (length (logs rf)) = int (length X) - lastIncludedIndex rf"
    using assms(1) log_rel_length [OF assms(1)] by (auto simp: log_rel_def)
  with False show ?thesis by (simp add: getLog_def getPhysicalIndex_def idx_def)
qed

text \<open>What the relation says about one server of a cluster.\<close>

lemma sim_node:
  assumes "sim N G a c" "is_node c p"
  shows "p \<in> node_set N" "node_ok N G a p (node c p)" "wfl a (alog a p)" "ainv N a"
    "aterm a p = currentTerm (node c p)"
    "0 \<le> lastIncludedIndex (node c p)" "commitIndex (node c p) < int (length (alog a p))"
    "cprefix N a (currentTerm (node c p)) (take (nat (commitIndex (node c p) + 1)) (alog a p))"
    "lastIncludedIndex (node c p) < i \<Longrightarrow>
      getLog (node c p) i = (if i < int (length (alog a p)) then Some (alog a p ! nat i) else None)"
proof -
  note D = simD [OF assms(1)]
  show p: "p \<in> node_set N" using assms(2) D(2) by (simp add: is_node_def node_set_def)
  show ok: "node_ok N G a p (node c p)" by (rule D(5) [OF p])
  then have base: "node_base N G a p (node c p)" by (simp add: node_ok_def)
  note wf = node_base_wfl [OF D(1) base]
  show "wfl a (alog a p)" "ainv N a" using wf D(1) by simp_all
  show "aterm a p = currentTerm (node c p)" "commitIndex (node c p) < int (length (alog a p))"
    "cprefix N a (currentTerm (node c p)) (take (nat (commitIndex (node c p) + 1)) (alog a p))"
    using base by (simp_all add: node_base_def)
  show "0 \<le> lastIncludedIndex (node c p)" using wf(1) by (simp add: log_rel_def)
  show "lastIncludedIndex (node c p) < i \<Longrightarrow>
      getLog (node c p) i = (if i < int (length (alog a p)) then Some (alog a p ! nat i) else None)"
    by (rule log_rel_getLog_iff [OF wf(1,2)])
qed

lemma sim_leader:
  assumes "sim N G a c" "is_node c p" "state (node c p) = StateLeader"
  shows "elog a (currentTerm (node c p)) \<noteq> None" "aleader a (currentTerm (node c p)) = p"
    "alog a p = llog a (currentTerm (node c p))" "0 < currentTerm (node c p)"
  using sim_node(2) [OF assms(1,2)] assms(3) by (auto simp: node_ok_def leader_ok_def Let_def)

lemma exec_nodes:
  assumes "sim N G a c" "sim N H b c'"
  shows "is_node c' p = is_node c p"
  using simD(2) [OF assms(1)] simD(2) [OF assms(2)] by (simp add: is_node_def)

abbreviation any_snapshot :: snapshot_pred where
  "any_snapshot \<equiv> \<lambda>_ _. True"

lemma exec_all_step:
  assumes "sim N any_snapshot a c" "exec_all es c = Some c'"
  shows "\<exists>K b. sim_step N any_snapshot K a c c' b"
  using assms
proof (induction es arbitrary: a c)
  case (Cons e es)
  then have p: "possible e c" by (simp split: if_splits)
  obtain d b where d: "exec e c = Some d" "sim_step N any_snapshot (created e c) a c d b"
    using sim_exec [OF Cons.prems(1) p] by blast
  then have "exec_all es d = Some c'" using Cons.prems(2) p by simp
  then obtain K b' where "sim_step N any_snapshot K b d c' b'"
    using Cons.IH d(2) unfolding sim_step_def by blast
  with d(2) show ?case using sim_step_trans by blast
qed (auto intro: sim_step_refl)

lemma exec_all_sim:
  assumes "sim N any_snapshot a c" "exec_all es c = Some c'"
  shows "\<exists>b. asteps N a b \<and> sim N any_snapshot b c'"
  using exec_all_step [OF assms] by (auto simp: sim_step_def)

text \<open>An entry that a server has committed, as the abstract protocol sees it.\<close>

lemma committed_entry:
  assumes "sim N G a c" "is_node c p" "lastIncludedIndex (node c p) < i" "i \<le> commitIndex (node c p)"
  obtains X where "cprefix N a (currentTerm (node c p)) X" "nat i < length X"
    "getLog (node c p) i = Some (X ! nat i)" "0 \<le> i"
proof -
  let ?X = "take (nat (commitIndex (node c p) + 1)) (alog a p)"
  note S = sim_node [OF assms(1,2)]
  have i: "0 \<le> i" "i < int (length (alog a p))" using S(6,7) assms(3,4) by auto
  have "nat i < length ?X" using i S(7) assms(4) by simp
  moreover have "getLog (node c p) i = Some (?X ! nat i)"
    using S(9) [OF assms(3)] i assms(4) by simp
  ultimately show ?thesis using that S(8) i(1) by blast
qed

lemma cprefix_nth:
  assumes "ainv N a" "cprefix N a u X" "cprefix N a w Y" "i < length X" "i < length Y"
  shows "X ! i = Y ! i"
  using cprefix_chain [OF assms(1-3)] prefix_nth [of X Y i] prefix_nth [of Y X i] assms(4,5) by auto

section \<open>Facts of the concrete run\<close>

lemma run_from_Some: "exec_all es c \<noteq> None \<Longrightarrow> exec_all es c = Some (run_from c es)"
  by (auto simp: run_from_def)

lemma demo_reachable: "reachable 3 demo"
proof -
  have "exec_all demo_commit demo_start \<noteq> None" by code_simp
  then have "exec_all demo_commit demo_start = Some demo"
    unfolding demo_def by (rule run_from_Some)
  moreover have "reachable 3 demo_start" unfolding demo_start_def by (rule reachable.start) simp
  ultimately show ?thesis using exec_all_reachable by blast
qed

lemma demo_later_steps: "exec_all demo_change demo = Some demo_later"
proof -
  have "exec_all demo_change demo \<noteq> None" by code_simp
  then show ?thesis unfolding demo_later_def by (rule run_from_Some)
qed

lemma demo_facts:
  "is_node demo 0" "is_node demo 1" "state (node demo 0) = StateLeader"
  "currentTerm (node demo 1) = currentTerm (node demo 0)"
  "lastIncludedIndex (node demo 0) < 1" "lastIncludedIndex (node demo 1) < 1"
  "1 \<le> commitIndex (node demo 0)" "1 \<le> commitIndex (node demo 1)"
  "getLog (node demo 0) 1 = Some \<lparr>Index = 1, Term = 1, Command = AnyInt 7\<rparr>"
  "getLog (node demo 1) 1 = Some \<lparr>Index = 1, Term = 1, Command = AnyInt 7\<rparr>"
  by code_simp+

lemma demo_later_facts:
  "is_node demo_later 1" "state (node demo_later 1) = StateLeader"
  "currentTerm (node demo 0) \<le> currentTerm (node demo_later 1)"
  "lastIncludedIndex (node demo_later 1) < 1" "1 \<le> commitIndex (node demo_later 1)"
  by code_simp+

section \<open>Theorems\<close>

text \<open>
  (C8) No reachable state of the cluster makes a server panic: every election timeout, heartbeat,
  replication round, RPC handler, reply handler, client command, snapshot, applier round and
  restart runs to its end. In particular every index into the compacted log, into
  \<open>nextIndex\<close> and \<open>matchIndex\<close> and into the vote counters is in range.
\<close>

theorem no_panic:
  assumes "reachable n c" "possible e c"
  shows "\<exists>c'. exec e c = Some c'"
proof -
  obtain a where "sim n any_snapshot a c" using reachable_sim [OF assms(1)] by blast
  from sim_exec [OF this assms(2)] show ?thesis by blast
qed

theorem no_panic_witness: "possible (Crash 0) demo \<and> (\<exists>c'. exec (Crash 0) demo = Some c')"
proof -
  have "possible (Crash 0) demo" by code_simp
  with no_panic [OF demo_reachable] show ?thesis by blast
qed

text \<open>
  (C3) Election Safety: at most one server is leader in a term.
\<close>

theorem election_safety:
  assumes "reachable n c" "is_node c p" "is_node c q" "p \<noteq> q"
    and "state (node c p) = StateLeader" "currentTerm (node c q) = currentTerm (node c p)"
  shows "state (node c q) \<noteq> StateLeader"
proof
  assume q: "state (node c q) = StateLeader"
  obtain a where a: "sim n any_snapshot a c" using reachable_sim [OF assms(1)] by blast
  from sim_leader(2) [OF a assms(2,5)] sim_leader(2) [OF a assms(3) q] assms(4,6) show False by simp
qed

theorem election_safety_witness:
  "state (node demo 0) = StateLeader \<and> currentTerm (node demo 1) = currentTerm (node demo 0) \<and>
   state (node demo 1) \<noteq> StateLeader"
  using election_safety [OF demo_reachable demo_facts(1,2) _ demo_facts(3,4)] demo_facts(3,4) by simp

text \<open>
  (C7) Log Matching: if two servers hold an entry of the same term at the same index, their logs
  agree on every index up to it, as far as both still hold the entries.
\<close>

theorem log_matching_servers:
  assumes "reachable n c" "is_node c p" "is_node c q"
    and "lastIncludedIndex (node c p) < i" "lastIncludedIndex (node c q) < i"
    and "getLog (node c p) i = Some e" "getLog (node c q) i = Some e'" "Term e = Term e'"
    and "lastIncludedIndex (node c p) < j" "lastIncludedIndex (node c q) < j" "j \<le> i"
  shows "getLog (node c p) j = getLog (node c q) j"
proof -
  obtain a where a: "sim n any_snapshot a c" using reachable_sim [OF assms(1)] by blast
  let ?X = "alog a p" and ?Y = "alog a q"
  note P = sim_node [OF a assms(2)] and Q = sim_node [OF a assms(3)]
  have i: "i < int (length ?X)" "i < int (length ?Y)" "e = ?X ! nat i" "e' = ?Y ! nat i" "0 \<le> j"
    using P(9) [OF assms(4)] Q(9) [OF assms(5)] assms(6,7,9) P(6) by (auto split: if_splits)
  have "nat i < length ?X" "nat i < length ?Y" using i assms(11) by auto
  from log_matching [OF P(3) Q(3) this] assms(8) i(3,4) have "take (Suc (nat i)) ?X = take (Suc (nat i)) ?Y"
    by simp
  then have "?X ! nat j = ?Y ! nat j"
    using assms(11) by (metis le_imp_less_Suc nat_mono nth_take)
  with P(9) [OF assms(9)] Q(9) [OF assms(10)] i assms(11) show ?thesis by simp
qed

theorem log_matching_servers_witness: "getLog (node demo 0) 1 = getLog (node demo 1) 1"
  by (rule log_matching_servers [OF demo_reachable demo_facts(1,2,5,6,9,10) refl demo_facts(5,6)]) simp

text \<open>
  (C5) Leader Completeness, over time: an entry that some server has committed is in the log of
  every server that leads a later term (or the same one) in any later state, unless that leader
  has compacted it into its snapshot.
\<close>

theorem leader_completeness_servers:
  assumes "reachable n c" "is_node c p" "lastIncludedIndex (node c p) < i" "i \<le> commitIndex (node c p)"
    and "exec_all es c = Some c'" "is_node c' q" "state (node c' q) = StateLeader"
    and "currentTerm (node c p) \<le> currentTerm (node c' q)" "lastIncludedIndex (node c' q) < i"
  shows "getLog (node c' q) i = getLog (node c p) i \<and> i < getLen (node c' q)"
proof -
  obtain a where a: "sim n any_snapshot a c" using reachable_sim [OF assms(1)] by blast
  obtain b where b: "asteps n a b" "sim n any_snapshot b c'" using exec_all_sim [OF a assms(5)] by blast
  obtain X where X: "cprefix n a (currentTerm (node c p)) X" "nat i < length X"
    "getLog (node c p) i = Some (X ! nat i)" "0 \<le> i" by (rule committed_entry [OF a assms(2-4)])
  have inv: "ainv n a" "ainv n b" using simD(1) [OF a] simD(1) [OF b(2)] by simp_all
  note Q = sim_node [OF b(2) assms(6)] and L = sim_leader [OF b(2) assms(6,7)]
  have "cprefix n b (currentTerm (node c p)) X" by (rule cprefix_aext [OF inv(1) asteps_aext [OF b(1) inv(1)] X(1)])
  moreover obtain E where "elog b (currentTerm (node c' q)) = Some E" using L(1) by auto
  ultimately have p: "prefix X (alog b q)" unfolding L(3) using cprefix_in_leader inv(2) assms(8) by blast
  have len: "i < int (length (alog b q))" using prefix_length_le [OF p] X(2,4) by linarith
  have "log_rel (node c' q) (alog b q)" using Q(2) by (simp add: node_ok_def node_base_def)
  with len show ?thesis
    using Q(9) [OF assms(9)] X(3) prefix_nth [OF p X(2)] by (simp add: log_rel_getLen)
qed

theorem leader_completeness_servers_witness:
  "getLog (node demo_later 1) 1 = getLog (node demo 0) 1 \<and> 1 < getLen (node demo_later 1)"
  by (rule leader_completeness_servers [OF demo_reachable demo_facts(1,5,7) demo_later_steps
        demo_later_facts(1-4)])

text \<open>
  (C4) Committed entries are never lost or replaced: if a server has committed an entry at an index,
  then every server that has committed that index, now or in any later state and whatever
  crashes, restarts and elections happen in between, has committed the same entry.
\<close>

theorem committed_entries_agree:
  assumes "reachable n c" "is_node c p" "lastIncludedIndex (node c p) < i" "i \<le> commitIndex (node c p)"
    and "exec_all es c = Some c'"
    and "is_node c' q" "lastIncludedIndex (node c' q) < i" "i \<le> commitIndex (node c' q)"
  shows "getLog (node c' q) i = getLog (node c p) i"
proof -
  obtain a where a: "sim n any_snapshot a c" using reachable_sim [OF assms(1)] by blast
  obtain b where b: "asteps n a b" "sim n any_snapshot b c'" using exec_all_sim [OF a assms(5)] by blast
  obtain X where X: "cprefix n a (currentTerm (node c p)) X" "nat i < length X"
    "getLog (node c p) i = Some (X ! nat i)" by (rule committed_entry [OF a assms(2-4)])
  obtain Y where Y: "cprefix n b (currentTerm (node c' q)) Y" "nat i < length Y"
    "getLog (node c' q) i = Some (Y ! nat i)" by (rule committed_entry [OF b(2) assms(6-8)])
  have inv: "ainv n a" "ainv n b" using simD(1) [OF a] simD(1) [OF b(2)] by simp_all
  have "cprefix n b (currentTerm (node c p)) X" by (rule cprefix_aext [OF inv(1) asteps_aext [OF b(1) inv(1)] X(1)])
  from cprefix_nth [OF inv(2) this Y(1) X(2) Y(2)] X(3) Y(3) show ?thesis by simp
qed

theorem committed_entries_agree_witness: "getLog (node demo_later 1) 1 = getLog (node demo 0) 1"
  by (rule committed_entries_agree [OF demo_reachable demo_facts(1,5,7) demo_later_steps
        demo_later_facts(1,4,5)])

text \<open>
  (C6) State Machine Safety: the commands that any two servers have sent on \<open>applyCh\<close> with the same
  index are the same command, over the whole life of the cluster.
\<close>

theorem applied_commands_agree:
  assumes "reachable n c" "is_node c p" "is_node c q"
    and "m \<in> set (applied c ! nat p)" "m' \<in> set (applied c ! nat q)"
    and "CommandValid m" "CommandValid m'" "CommandIndex m = CommandIndex m'"
  shows "am_Command m = am_Command m'"
proof -
  obtain a where a: "sim n any_snapshot a c" using reachable_sim [OF assms(1)] by blast
  have ok: "\<exists>u X i. cprefix n a u X \<and> i < length X \<and> x = command_msg (X ! i) \<and> Index (X ! i) = int i"
    if "is_node c r" "x \<in> set (applied c ! nat r)" "CommandValid x" for r x
    using simD(10) [OF a sim_node(1) [OF a that(1)] that(2)] that(3) by (auto simp: apply_ok_def)
  obtain u X i where X: "cprefix n a u X" "i < length X" "m = command_msg (X ! i)" "Index (X ! i) = int i"
    using ok [OF assms(2,4,6)] by blast
  obtain w Y j where Y: "cprefix n a w Y" "j < length Y" "m' = command_msg (Y ! j)" "Index (Y ! j) = int j"
    using ok [OF assms(3,5,7)] by blast
  have "i = j" using assms(8) X(3,4) Y(3,4) by (simp add: command_msg_def)
  with cprefix_nth [OF simD(1) [OF a] X(1) Y(1)] X Y show ?thesis by simp
qed

theorem applied_commands_agree_witness:
  "am_Command (applied demo ! 0 ! 0) = am_Command (applied demo ! 1 ! 0)"
proof (rule applied_commands_agree [OF demo_reachable demo_facts(1,2)])
  have "0 < length (applied demo ! nat 0)" "0 < length (applied demo ! nat 1)" by code_simp+
  then show "applied demo ! 0 ! 0 \<in> set (applied demo ! nat 0)"
    "applied demo ! 1 ! 0 \<in> set (applied demo ! nat 1)" by simp_all
  show "CommandValid (applied demo ! 0 ! 0)" by code_simp
  show "CommandValid (applied demo ! 1 ! 0)" by code_simp
  show "CommandIndex (applied demo ! 0 ! 0) = CommandIndex (applied demo ! 1 ! 0)" by code_simp
qed

text \<open>
  (C11) Leader Append-Only: while a server leads a term it never overwrites or removes an entry that
  it still holds; its log only grows.
\<close>

theorem leader_append_only:
  assumes "reachable n c" "is_node c p" "state (node c p) = StateLeader"
    and "exec_all es c = Some c'" "state (node c' p) = StateLeader"
    and "currentTerm (node c' p) = currentTerm (node c p)"
    and "lastIncludedIndex (node c p) < i" "lastIncludedIndex (node c' p) < i"
    and "getLog (node c p) i = Some e"
  shows "getLog (node c' p) i = Some e"
proof -
  obtain a where a: "sim n any_snapshot a c" using reachable_sim [OF assms(1)] by blast
  obtain b where b: "asteps n a b" "sim n any_snapshot b c'" using exec_all_sim [OF a assms(4)] by blast
  have p': "is_node c' p" using exec_nodes [OF a b(2)] assms(2) by simp
  have "aext a b" by (rule asteps_aext [OF b(1) simD(1) [OF a]])
  then have p: "prefix (alog a p) (alog b p)"
    using sim_leader(1,3) [OF a assms(2,3)] sim_leader(3) [OF b(2) p' assms(5)] assms(6)
    by (auto simp: aext_def ext_def)
  have i: "i < int (length (alog a p))" "e = alog a p ! nat i" "0 \<le> i"
    using sim_node(6,9) [OF a assms(2)] assms(7,9) by (auto split: if_splits)
  then have "nat i < length (alog a p)" by simp
  with i prefix_nth [OF p this] prefix_length_le [OF p] sim_node(9) [OF b(2) p' assms(8)]
  show ?thesis by simp
qed

theorem leader_append_only_witness:
  "getLog (node (run_from demo [Submit 0 (AnyInt 8)]) 0) 1 = Some \<lparr>Index = 1, Term = 1, Command = AnyInt 7\<rparr>"
proof (rule leader_append_only [OF demo_reachable demo_facts(1,3) _ _ _ demo_facts(5) _ demo_facts(9)])
  have "exec_all [Submit 0 (AnyInt 8)] demo \<noteq> None" by code_simp
  then show "exec_all [Submit 0 (AnyInt 8)] demo = Some (run_from demo [Submit 0 (AnyInt 8)])"
    by (rule run_from_Some)
  show "state (node (run_from demo [Submit 0 (AnyInt 8)]) 0) = StateLeader" by code_simp
  show "currentTerm (node (run_from demo [Submit 0 (AnyInt 8)]) 0) = currentTerm (node demo 0)" by code_simp
  show "lastIncludedIndex (node (run_from demo [Submit 0 (AnyInt 8)]) 0) < 1" by code_simp
qed

text \<open>
  (C12) Votes are kept: over any run, crashes and restarts included, the term of a server never
  decreases, and a server that has voted in a term has the same vote as long as it stays in
  that term.
\<close>

theorem votes_are_kept:
  assumes "reachable n c" "is_node c p" "exec_all es c = Some c'"
  shows "currentTerm (node c p) \<le> currentTerm (node c' p) \<and>
    (currentTerm (node c' p) = currentTerm (node c p) \<and> votedFor (node c p) \<noteq> -1 \<longrightarrow>
      votedFor (node c' p) = votedFor (node c p))"
proof -
  obtain a where a: "sim n any_snapshot a c" using reachable_sim [OF assms(1)] by blast
  from exec_all_step [OF a assms(3)] sim_node(1) [OF a assms(2)] show ?thesis
    by (auto simp: sim_step_def keeps_vote_def)
qed

theorem votes_are_kept_witness:
  "votedFor (node demo_later 0) = votedFor (node demo 0) \<and> votedFor (node demo 0) = 0"
proof -
  have "currentTerm (node demo_later 0) = currentTerm (node demo 0)" "votedFor (node demo 0) = 0"
    by code_simp+
  with votes_are_kept [OF demo_reachable demo_facts(1) demo_later_steps] show ?thesis by simp
qed

text \<open>
  (C13) Durability of what a server has promised: a server of a reachable cluster that stops and is
  started again has the term, the vote, the log and the snapshot boundary it had, and starts from
  its snapshot. So a vote or an acknowledged entry survives every crash between critical sections.
\<close>

theorem restart_recovers:
  assumes "reachable n c" "is_node c p"
  shows "\<exists>rf. restart (node c p) = Some rf \<and> currentTerm rf = currentTerm (node c p) \<and>
    votedFor rf = votedFor (node c p) \<and> logs rf = logs (node c p) \<and>
    lastIncludedIndex rf = lastIncludedIndex (node c p) \<and>
    lastIncludedTerm rf = lastIncludedTerm (node c p) \<and>
    commitIndex rf = lastIncludedIndex (node c p) \<and> lastApplied rf = lastIncludedIndex (node c p) \<and>
    state rf = StateFollower \<and> persister rf = persister (node c p)"
proof -
  obtain a where a: "sim n any_snapshot a c" using reachable_sim [OF assms(1)] by blast
  let ?rf = "node c p"
  have "healthy ?rf" "synced ?rf"
    using sim_node(2) [OF a assms(2)] by (simp_all add: node_ok_def node_base_def)
  then show ?thesis
    using sim_node(6) [OF a assms(2)]
    by (simp add: restart_def Make_restarts healthy_def restarted_def fresh_Raft_def)
qed

theorem restart_recovers_witness:
  "is_node demo 0 \<and> (\<exists>rf. restart (node demo 0) = Some rf \<and> votedFor rf = votedFor (node demo 0) \<and>
     logs rf = logs (node demo 0))"
  using restart_recovers [OF demo_reachable demo_facts(1)] demo_facts(1) by auto

text \<open>
  (C10) The cluster implements the abstract protocol: every reachable state corresponds to a reachable
  state of the protocol on whole logs, in which the terms are the servers' terms, each compacted
  log represents the server's whole log, each leader is the leader of its term with that term's
  log, and what a server has committed is a committed prefix.
\<close>

theorem cluster_refines_protocol:
  assumes "reachable n c"
  shows "\<exists>a. areach n a \<and> (\<forall>p. is_node c p \<longrightarrow>
    aterm a p = currentTerm (node c p) \<and> log_rel (node c p) (alog a p) \<and>
    (state (node c p) = StateLeader \<longrightarrow> aleader a (currentTerm (node c p)) = p \<and>
       llog a (currentTerm (node c p)) = alog a p) \<and>
    cprefix n a (currentTerm (node c p)) (take (nat (commitIndex (node c p) + 1)) (alog a p)))"
proof -
  obtain a where a: "areach n a" "sim n any_snapshot a c" using reachable_sim [OF assms] by blast
  have "log_rel (node c p) (alog a p)" if "is_node c p" for p
    using sim_node(2) [OF a(2) that] by (simp add: node_ok_def node_base_def)
  with a sim_node(5,8) [OF a(2)] sim_leader(2,3) [OF a(2)] show ?thesis by (intro exI [of _ a]) auto
qed

theorem cluster_refines_protocol_witness:
  "\<exists>a. areach 3 a \<and> aleader a (currentTerm (node demo 0)) = 0 \<and> log_rel (node demo 0) (alog a 0)"
  using cluster_refines_protocol [OF demo_reachable] demo_facts(1,3) by blast

end
