(* ===== verification/Rsm.thy ===== *)
theory Rsm
  imports Raft_Node Kv_Store "HOL-Library.AList"
begin

text \<open>
  The replicated state machine of \<^verbatim>\<open>kvraft/internal/rsm/rsm.go\<close>: \<^verbatim>\<open>Submit\<close> hands a request
  to Raft and waits for its result, the goroutine \<^verbatim>\<open>reader\<close> executes the committed commands
  on the store and answers the waiting requests.

  \<^verbatim>\<open>Submit\<close> and \<^verbatim>\<open>reader\<close> are cut where another goroutine can run: at the lock
  \<^verbatim>\<open>rsm.mu\<close>, at the unbuffered channel of each request, and at the calls of Raft, which
  takes its own lock. The pieces are functions on the record \<open>RSM\<close>; what the goroutine does
  next is the program counter \<open>reader_pc\<close>. The Raft instance \<^verbatim>\<open>rsm.rf\<close> is an argument.
\<close>

section \<open>State\<close>

text \<open>\<^verbatim>\<open>int64\<close> identifiers are 64 bit words; the sentinel \<open>-1\<close> is the word of all ones.\<close>

record result =
  res_id :: "64 word"
  res_val :: any

text \<open>A channel is named by the number of the \<^verbatim>\<open>Submit\<close> call that made it.\<close>

record pendingEntry =
  pe_id :: "64 word"
  pe_term :: int
  pe_ch :: nat

text \<open>
  The map \<^verbatim>\<open>pending\<close> is an association list with distinct keys. A \<^verbatim>\<open>range\<close> over it visits
  the entries in the order of the list; Go leaves the order open.
\<close>

record RSM =
  rsm_me :: int
  maxRaftState :: int
  rsm_sm :: Store
  pending :: "(int \<times> pendingEntry) list"
  rsm_lastApplied :: int

text \<open>A send on a channel that the reader has still to make.\<close>

type_synonym send = "nat \<times> result"

definition retry_result :: result where
  "retry_result = \<lparr>res_id = -1, res_val = AnyNil\<rparr>"

section \<open>MakeRSM\<close>

text \<open>
  The part of \<^verbatim>\<open>MakeRSM\<close> after Raft has been started on the same persister. A read error of
  the snapshot counts as an empty snapshot; a snapshot that cannot be decoded is fatal.
\<close>

definition MakeRSM_state ::
  "int \<Rightarrow> int \<Rightarrow> Store \<Rightarrow> FilePersister \<Rightarrow> (RSM \<times> FilePersister) option" where
  "MakeRSM_state i maxRaft sm ps =
     (let (r, ps') = ReadSnapshot ps; snapshot = snapshot_or_nil r
      in do {
        sm' \<leftarrow> (if snapshot \<noteq> [] then Restore sm snapshot else Some sm);
        Some (\<lparr>rsm_me = i, maxRaftState = maxRaft, rsm_sm = sm', pending = [],
               rsm_lastApplied = 0\<rparr>, ps')
      })"

definition MakeRSM ::
  "nat \<Rightarrow> int \<Rightarrow> FilePersister \<Rightarrow> int \<Rightarrow> Store \<Rightarrow> int \<Rightarrow> int \<Rightarrow> int \<Rightarrow> (RSM \<times> Raft) option" where
  "MakeRSM servers i ps maxRaft sm electionMin electionRand hb =
     do {
       rf \<leftarrow> Make servers i ps electionMin electionRand hb;
       (rsm, ps') \<leftarrow> MakeRSM_state i maxRaft sm (persister rf);
       Some (rsm, rf\<lparr>persister := ps'\<rparr>)
     }"

section \<open>Submit\<close>

text \<open>
  The critical section of \<^verbatim>\<open>Submit\<close>: the command is started and, at a leader, registered
  under its index; \<open>Inl\<close> is the answer of a server that does not lead.
\<close>

definition Submit_enter ::
  "RSM \<Rightarrow> Raft \<Rightarrow> 64 word \<Rightarrow> any \<Rightarrow> nat \<Rightarrow> (((Err \<times> any) + int) \<times> RSM \<times> Raft) option" where
  "Submit_enter rsm rf i req ch =
     do {
       ((index, term, isLeader), rf1) \<leftarrow> Start rf (Op (rsm_me rsm) i req);
       if \<not> isLeader then Some (Inl (ErrWrongLeader, AnyInt (Leader rf1)), rsm, rf1)
       else Some (Inr index,
              rsm\<lparr>pending := AList.update index \<lparr>pe_id = i, pe_term = term, pe_ch = ch\<rparr>
                                (pending rsm)\<rparr>, rf1)
     }"

text \<open>The two branches of the \<^verbatim>\<open>select\<close>. \<open>None\<close> is what a closed channel yields.\<close>

definition Submit_receive :: "Raft \<Rightarrow> 64 word \<Rightarrow> result option \<Rightarrow> Err \<times> any" where
  "Submit_receive rf i msg =
     (case msg of
        None \<Rightarrow> (ErrWrongLeader, AnyInt (Leader rf))
      | Some res \<Rightarrow>
          if res_id res \<noteq> i then (ErrWrongLeader, AnyInt (Leader rf)) else (OK, res_val res))"

definition Submit_timeout :: "Raft \<Rightarrow> Err \<times> any" where
  "Submit_timeout rf = (ErrWrongLeader, AnyInt (Leader rf))"

text \<open>The deferred function of \<^verbatim>\<open>Submit\<close>.\<close>

definition Submit_defer :: "RSM \<Rightarrow> int \<Rightarrow> RSM" where
  "Submit_defer rsm index = rsm\<lparr>pending := AList.delete index (pending rsm)\<rparr>"

section \<open>Answering\<close>

text \<open>
  \<^verbatim>\<open>notifyOutdated\<close> reads term and role once and then visits every entry; the sends are
  made one after the other while the lock is held.
\<close>

definition outdated :: "Raft \<Rightarrow> int \<Rightarrow> int \<times> pendingEntry \<Rightarrow> bool" where
  "outdated rf index x =
     (case x of (i, entry) \<Rightarrow>
        let (currentTerm, isLeader) = State rf
        in i \<le> index \<or> \<not> isLeader \<or> pe_term entry \<noteq> currentTerm)"

definition notifyOutdated :: "RSM \<Rightarrow> Raft \<Rightarrow> int \<Rightarrow> send list \<times> RSM" where
  "notifyOutdated rsm rf index =
     (map (\<lambda>(i, entry). (pe_ch entry, retry_result)) (filter (outdated rf index) (pending rsm)),
      rsm\<lparr>pending := filter (\<lambda>x. \<not> outdated rf index x) (pending rsm)\<rparr>)"

text \<open>\<^verbatim>\<open>notifyPending\<close> up to its call of \<^verbatim>\<open>notifyOutdated\<close>.\<close>

definition notifyPending :: "RSM \<Rightarrow> Raft \<Rightarrow> int \<Rightarrow> 64 word \<Rightarrow> any \<Rightarrow> send list \<times> RSM" where
  "notifyPending rsm rf index i val =
     (let (_, isLeader) = State rf
      in case map_of (pending rsm) index of
           None \<Rightarrow> ([], rsm)
         | Some entry \<Rightarrow>
             ([(pe_ch entry,
                if isLeader \<and> pe_id entry = i then \<lparr>res_id = i, res_val = val\<rparr> else retry_result)],
              rsm\<lparr>pending := AList.delete index (pending rsm)\<rparr>))"

text \<open>
  \<^verbatim>\<open>checkSnapshot\<close> decides whether to take a snapshot; \<open>byte_size\<close> is the length in bytes
  of an encoded value. The encoding of the store's map does not fail.
\<close>

definition checkSnapshot :: "(bytes \<Rightarrow> int) \<Rightarrow> RSM \<Rightarrow> Raft \<Rightarrow> bytes option" where
  "checkSnapshot byte_size rsm rf =
     (if maxRaftState rsm \<noteq> -1 \<and> PersistBytes byte_size rf \<ge> maxRaftState rsm
      then Some (store_Snapshot (rsm_sm rsm)) else None)"

text \<open>
  \<^verbatim>\<open>cleanup\<close>, when Raft has closed \<^verbatim>\<open>applyCh\<close>: the channels it closes, and the RSM.
\<close>

definition cleanup :: "RSM \<Rightarrow> nat list \<times> RSM" where
  "cleanup rsm = (map (\<lambda>(i, entry). pe_ch entry) (pending rsm), rsm\<lparr>pending := []\<rparr>)"

definition LastApplied :: "RSM \<Rightarrow> int" where
  "LastApplied rsm = rsm_lastApplied rsm"

section \<open>The reader\<close>

text \<open>The first critical section of \<^verbatim>\<open>handleCommand\<close>: \<open>None\<close> when it returns early.\<close>

definition handleCommand_enter :: "RSM \<Rightarrow> ApplyMsg \<Rightarrow> (64 word \<times> any \<times> RSM) option" where
  "handleCommand_enter rsm msg =
     (case am_Command msg of
        Op _ i req \<Rightarrow>
          if CommandIndex msg \<le> rsm_lastApplied rsm then None
          else Some (i, req, rsm\<lparr>rsm_lastApplied := CommandIndex msg\<rparr>)
      | _ \<Rightarrow> None)"

text \<open>\<^verbatim>\<open>handleSnapshot\<close>, whole; a snapshot that cannot be restored is fatal.\<close>

definition handleSnapshot :: "RSM \<Rightarrow> Raft \<Rightarrow> ApplyMsg \<Rightarrow> (send list \<times> RSM) option" where
  "handleSnapshot rsm rf msg =
     do {
       sm' \<leftarrow> Restore (rsm_sm rsm) (am_Snapshot msg);
       Some (notifyOutdated (rsm\<lparr>rsm_sm := sm', rsm_lastApplied := SnapshotIndex msg\<rparr>) rf
               (SnapshotIndex msg))
     }"

text \<open>
  What the reader does next. \<open>RExec\<close>: execute a command, without the lock. \<open>RNotify\<close>: take
  the lock and answer. \<open>RSend\<close>: the lock is held, these sends are left, and then the rest
  of the handler follows.
\<close>

datatype reader_rest =
    KOutdated int
  | KCheck int
  | KTake int bytes
  | KUnlock

datatype reader_pc =
    RIdle
  | RExec int "64 word" any
  | RNotify int "64 word" any
  | RSend "send list" reader_rest

definition holds_lock :: "reader_pc \<Rightarrow> bool" where
  "holds_lock pc = (case pc of RSend _ _ \<Rightarrow> True | _ \<Rightarrow> False)"

text \<open>The next message of \<^verbatim>\<open>applyCh\<close>, received by the loop of \<^verbatim>\<open>reader\<close>.\<close>

definition reader_receive :: "RSM \<Rightarrow> Raft \<Rightarrow> ApplyMsg \<Rightarrow> (RSM \<times> reader_pc) option" where
  "reader_receive rsm rf msg =
     (if SnapshotValid msg
      then do { (sends, rsm1) \<leftarrow> handleSnapshot rsm rf msg; Some (rsm1, RSend sends KUnlock) }
      else if CommandValid msg
      then Some (case handleCommand_enter rsm msg of
                   None \<Rightarrow> (rsm, RIdle)
                 | Some (i, req, rsm1) \<Rightarrow> (rsm1, RExec (CommandIndex msg) i req))
      else Some (rsm, RIdle))"

text \<open>
  A step of the reader inside a handler that needs no other goroutine: executing the
  command, computing the next sends, deciding on a snapshot, releasing the lock. The
  remaining steps are the sends, and the call of \<^verbatim>\<open>rf.Snapshot\<close> at \<open>RSend [] (KTake i d)\<close>.
\<close>

definition reader_advance ::
  "(bytes \<Rightarrow> int) \<Rightarrow> RSM \<Rightarrow> Raft \<Rightarrow> reader_pc \<Rightarrow> (RSM \<times> reader_pc) option" where
  "reader_advance byte_size rsm rf pc =
     (case pc of
        RExec index i req \<Rightarrow>
          (let (val, sm') = DoOp (rsm_sm rsm) req
           in Some (rsm\<lparr>rsm_sm := sm'\<rparr>, RNotify index i val))
      | RNotify index i val \<Rightarrow>
          (let (sends, rsm1) = notifyPending rsm rf index i val
           in Some (rsm1, RSend sends (KOutdated index)))
      | RSend [] (KOutdated index) \<Rightarrow>
          (let (sends, rsm1) = notifyOutdated rsm rf index
           in Some (rsm1, RSend sends (KCheck index)))
      | RSend [] (KCheck index) \<Rightarrow>
          Some (rsm, case checkSnapshot byte_size rsm rf of
                       None \<Rightarrow> RIdle
                     | Some d \<Rightarrow> RSend [] (KTake index d))
      | RSend [] KUnlock \<Rightarrow> Some (rsm, RIdle)
      | _ \<Rightarrow> None)"

end
