(* ===== verification/Raft_Frame.thy ===== *)
theory Raft_Frame
  imports Raft_Refinement
begin

text \<open>
  What the steps of a cluster leave alone: \<open>lastApplied\<close> of a server changes only in its applier
  and when it is restarted, and nothing but the appliers sends on \<^verbatim>\<open>applyCh\<close>.
\<close>

named_theorems keeps_applied \<open>handlers that leave lastApplied alone\<close>

lemma emit_applied [simp]: "lastApplied (emit rf x) = lastApplied rf"
  by (simp add: emit_def)

lemma signalApplier_applied [simp]: "lastApplied (signalApplier rf) = lastApplied rf"
  by (simp add: signalApplier_def)

lemma foldl_applied:
  "(\<And>r x. lastApplied (f r x) = lastApplied r) \<Longrightarrow> lastApplied (foldl f rf xs) = lastApplied rf"
  by (induction xs arbitrary: rf) simp_all

lemma broadcast_applied [simp]: "lastApplied (signalBroadcastReplication rf h) = lastApplied rf"
  unfolding signalBroadcastReplication_def by (rule foldl_applied) simp

lemma save_applied [keeps_applied]: "save_or_fatal rf d = Some rf' \<Longrightarrow> lastApplied rf' = lastApplied rf"
  by (auto simp: save_or_fatal_def split: prod.splits option.splits)

lemma persist_applied [keeps_applied]: "persist rf = Some rf' \<Longrightarrow> lastApplied rf' = lastApplied rf"
  by (auto simp: persist_def dest!: save_applied split: if_splits prod.splits)

lemma reset_applied [keeps_applied]:
  "resetElectionTimer rf = Some rf' \<Longrightarrow> lastApplied rf' = lastApplied rf"
  by (auto simp: resetElectionTimer_def split: if_splits)

lemma signal_applied [keeps_applied]:
  "signalReplication rf q = Some rf' \<Longrightarrow> lastApplied rf' = lastApplied rf"
  by (auto simp: signalReplication_def split: if_splits)

lemma higher_applied [keeps_applied]:
  "handleHigherTerm rf t = Some (b, rf') \<Longrightarrow> lastApplied rf' = lastApplied rf"
  by (auto simp: handleHigherTerm_def bind_eq_Some_conv dest!: keeps_applied split: if_splits)

lemma candidate_applied [keeps_applied]:
  assumes "becomeCandidate rf = Some rf'"
  shows "lastApplied rf' = lastApplied rf"
proof -
  have "lastApplied r' = lastApplied r" if "startElection r = Some r'" for r r'
    using that by (auto simp: startElection_def bind_eq_Some_conv Let_def foldl_applied dest!: persist_applied)
  then show ?thesis
    using assms by (auto simp: becomeCandidate_def enterCandidate_def bind_eq_Some_conv dest!: keeps_applied)
qed

lemma ticker_election_applied [keeps_applied]:
  "ticker_election rf = Some rf' \<Longrightarrow> lastApplied rf' = lastApplied rf"
  by (auto simp: ticker_election_def dest!: keeps_applied split: if_splits)

lemma ticker_heartbeat_applied [simp]: "lastApplied (ticker_heartbeat rf) = lastApplied rf"
  by (simp add: ticker_heartbeat_def resetHeartbeatTimer_def)

lemma leader_applied [keeps_applied]: "becomeLeader rf = Some rf' \<Longrightarrow> lastApplied rf' = lastApplied rf"
  by (auto simp: becomeLeader_def resetHeartbeatTimer_def bind_eq_Some_conv Let_def)

lemma vote_reply_applied [keeps_applied]:
  assumes "requestVoteFromPeer rf args k res = Some rf'"
  shows "lastApplied rf' = lastApplied rf"
proof (cases "\<exists>reply. res = Some reply \<and> isStillValidCandidate rf (rva_Term args)")
  case True
  then obtain reply b r where r: "res = Some reply" "isStillValidCandidate rf (rva_Term args)"
    "handleHigherTerm rf (rvr_Term reply) = Some (b, r)"
    using assms by (auto simp: requestVoteFromPeer_def bind_eq_Some_conv)
  have "rf' = r \<or> (\<exists>gs. rf' = r\<lparr>grantedVotes := gs\<rparr> \<or> becomeLeader (r\<lparr>grantedVotes := gs\<rparr>) = Some rf')"
    using assms r by (auto simp: requestVoteFromPeer_def bind_eq_Some_conv Let_def split: if_splits)
  then have "lastApplied rf' = lastApplied r"
    using leader_applied by fastforce
  with higher_applied [OF r(3)] show ?thesis by simp
next
  case False
  then show ?thesis using assms by (cases res) (auto simp: requestVoteFromPeer_def)
qed

lemma replicate_applied [keeps_applied]:
  "replicateToPeer rf q = Some (req, rf') \<Longrightarrow> lastApplied rf' = lastApplied rf"
  by (auto simp: replicateToPeer_def genInstallSnapshotArgs_def bind_eq_Some_conv
      split: if_splits prod.splits)

lemma RequestVote_applied [keeps_applied]:
  "RequestVote rf args = Some (rf', r) \<Longrightarrow> lastApplied rf' = lastApplied rf"
  by (auto simp: RequestVote_def Let_def bind_eq_Some_conv dest!: keeps_applied split: if_splits)

lemma append_applied [keeps_applied]:
  "appendNewEntries rf es = Some rf' \<Longrightarrow> lastApplied rf' = lastApplied rf"
  by (induction rf es rule: appendNewEntries.induct)
    (auto simp: Let_def bind_eq_Some_conv split: if_splits)

lemma AppendEntries_applied [keeps_applied]:
  assumes "AppendEntries rf args = Some (rf', r)"
  shows "lastApplied rf' = lastApplied rf"
proof -
  have "lastApplied (advanceCommitIndex r0 k) = lastApplied r0" for r0 k
    by (simp add: advanceCommitIndex_def Let_def)
  then show ?thesis
    using assms
    by (auto simp: AppendEntries_def Let_def bind_eq_Some_conv dest!: keeps_applied split: if_splits)
qed

lemma truncate_applied [keeps_applied]:
  "truncateLogWithSnapshot rf i t = Some rf' \<Longrightarrow> lastApplied rf' = lastApplied rf"
  by (auto simp: truncateLogWithSnapshot_def bind_eq_Some_conv split: if_splits)

lemma install_body_applied:
  assumes "truncateLogWithSnapshot r4 i t = Some r5"
    "save_or_fatal (if commitIndex r5 < i then r5\<lparr>lastIncludedIndex := i, lastIncludedTerm := t,
        commitIndex := i\<rparr> else r5\<lparr>lastIncludedIndex := i, lastIncludedTerm := t\<rparr>) d = Some r8"
  shows "lastApplied r8 = lastApplied r4"
  using save_applied [OF assms(2)] truncate_applied [OF assms(1)] by (simp split: if_splits)

lemma InstallSnapshot_applied [keeps_applied]:
  assumes "InstallSnapshot rf args = Some (rf', r)"
  shows "lastApplied rf' = lastApplied rf"
proof (cases "isa_Term args < currentTerm rf")
  case False
  define m where "m = (if isa_Term args > currentTerm rf
    then persist (rf\<lparr>currentTerm := isa_Term args, votedFor := -1\<rparr>) else Some rf)"
  have eq: "InstallSnapshot rf args = m \<bind> (\<lambda>rf1.
      resetElectionTimer (if state rf1 \<noteq> StateFollower
        then rf1\<lparr>currentLeader := isa_LeaderId args, state := StateFollower\<rparr>
        else rf1\<lparr>currentLeader := isa_LeaderId args\<rparr>) \<bind> (\<lambda>r4.
      if isa_LastIncludedIndex args \<le> lastIncludedIndex r4 then Some (r4, \<lparr>isr_Term = currentTerm rf\<rparr>)
      else truncateLogWithSnapshot r4 (isa_LastIncludedIndex args) (isa_LastIncludedTerm args) \<bind>
        (\<lambda>r5. save_or_fatal (if commitIndex r5 < isa_LastIncludedIndex args
          then r5\<lparr>lastIncludedIndex := isa_LastIncludedIndex args,
                 lastIncludedTerm := isa_LastIncludedTerm args, commitIndex := isa_LastIncludedIndex args\<rparr>
          else r5\<lparr>lastIncludedIndex := isa_LastIncludedIndex args,
                 lastIncludedTerm := isa_LastIncludedTerm args\<rparr>) (isa_Data args) \<bind>
        (\<lambda>r8. Some (signalApplier r8, \<lparr>isr_Term = currentTerm rf\<rparr>)))))"
    using False by (simp add: InstallSnapshot_def Let_def m_def cong: if_cong)
  obtain r1 r4 where r: "m = Some r1"
    "resetElectionTimer (if state r1 \<noteq> StateFollower
        then r1\<lparr>currentLeader := isa_LeaderId args, state := StateFollower\<rparr>
        else r1\<lparr>currentLeader := isa_LeaderId args\<rparr>) = Some r4"
    using assms unfolding eq by (auto simp: bind_eq_Some_conv)
  have "lastApplied r1 = lastApplied rf" using r(1) by (auto simp: m_def dest: persist_applied split: if_splits)
  moreover have "lastApplied r4 = lastApplied r1" using reset_applied [OF r(2)] by (simp split: if_splits)
  moreover have "lastApplied rf' = lastApplied r4"
    using assms r unfolding eq by (cases "isa_LastIncludedIndex args \<le> lastIncludedIndex r4")
      (auto simp: bind_eq_Some_conv dest: install_body_applied)
  ultimately show ?thesis by simp
qed (use assms in \<open>simp add: InstallSnapshot_def\<close>)

lemma updateCommit_applied [keeps_applied]:
  "updateCommitIndex rf = Some rf' \<Longrightarrow> lastApplied rf' = lastApplied rf"
proof -
  have "updateCommitLoop rf n = Some rf' \<Longrightarrow> lastApplied rf' = lastApplied rf" for n
    by (induction rf n rule: updateCommitLoop.induct)
      (subst (asm) updateCommitLoop.simps, auto simp: bind_eq_Some_conv split: if_splits)
  then show "updateCommitIndex rf = Some rf' \<Longrightarrow> lastApplied rf' = lastApplied rf"
    by (simp add: updateCommitIndex_def)
qed

lemma append_reply_applied [keeps_applied]:
  "handleAppendEntriesReply rf q args reply = Some rf' \<Longrightarrow> lastApplied rf' = lastApplied rf"
  by (auto simp: handleAppendEntriesReply_def shouldIgnoreReply_def resolveConflict_def
      advancePeerIndices_def Let_def bind_eq_Some_conv dest!: keeps_applied split: if_splits)

lemma snapshot_reply_applied [keeps_applied]:
  "handleInstallSnapshotReply rf q args reply = Some rf' \<Longrightarrow> lastApplied rf' = lastApplied rf"
  by (auto simp: handleInstallSnapshotReply_def Let_def bind_eq_Some_conv dest!: keeps_applied
      split: if_splits)

lemma Start_applied [keeps_applied]: "Start rf cmd = Some (r, rf') \<Longrightarrow> lastApplied rf' = lastApplied rf"
  by (auto simp: Start_def Let_def bind_eq_Some_conv dest!: keeps_applied split: if_splits)

lemma Snapshot_applied [keeps_applied]: "Snapshot rf i d = Some rf' \<Longrightarrow> lastApplied rf' = lastApplied rf"
  by (auto simp: Snapshot_def Let_def bind_eq_Some_conv dest!: keeps_applied split: if_splits)

section \<open>Events of the cluster\<close>

text \<open>The server that an event restarts, and the server whose applier it runs.\<close>

definition restarted_by :: "event \<Rightarrow> cluster \<Rightarrow> int option" where
  "restarted_by e c =
     (case e of
        Crash p \<Rightarrow> Some p
      | CrashInElection p \<Rightarrow> if state (node c p) = StateLeader then None else Some p
      | CrashInInstall k \<Rightarrow>
          (case tasks c ! k of
             SnapshotRequest p q args \<Rightarrow>
               if isa_Term args > currentTerm (node c q) then Some q else None
           | _ \<Rightarrow> None)
      | _ \<Rightarrow> None)"

lemma finish_sel [simp]: "applied (finish p rf ts c) = applied c"
  by (simp add: finish_def)

lemma node_sel [simp]: "node (c\<lparr>tasks := ts\<rparr>) p = node c p" "node (c\<lparr>applied := ms\<rparr>) p = node c p"
  by (simp_all add: node_def)

lemma finish_applied:
  assumes "lastApplied rf = lastApplied (node c q)"
  shows "lastApplied (node (finish q rf ts c) p) = lastApplied (node c p)"
  using assms
  by (cases "nat q < length (nodes c)"; cases "nat p = nat q")
    (auto simp: node_def finish_def list_update_beyond)

lemma finish_other:
  "nat q \<noteq> nat p \<Longrightarrow> node (finish q rf ts c) p = node c p"
  by (simp add: node_def finish_def)

lemma run_task_applied:
  assumes "run_task k c = Some c'"
  shows "applied c' = applied c" "lastApplied (node c' p) = lastApplied (node c p)"
  using assms
  by (auto simp: run_task_def bind_eq_Some_conv dest!: keeps_applied intro: finish_applied
      split: task.splits)

lemma exec_applied:
  assumes "exec e c = Some c'" "\<And>p. e \<noteq> Apply p" "0 \<le> p" "\<And>q. restarted_by e c = Some q \<Longrightarrow> 0 \<le> q \<and> q \<noteq> p"
  shows "lastApplied (node c' p) = lastApplied (node c p)"
proof (cases "\<exists>q. restarted_by e c = Some q")
  case True
  then obtain q where q: "restarted_by e c = Some q" "0 \<le> q" "q \<noteq> p" using assms(4) by blast
  then have "nat q \<noteq> nat p" using assms(3) by linarith
  with q(1) assms(1) show ?thesis
    by (auto simp: restarted_by_def exec_def bind_eq_Some_conv finish_other
        split: event.splits task.splits if_splits)
next
  case False
  with assms(1,2) show ?thesis
    by (cases e) (auto simp: restarted_by_def exec_def bind_eq_Some_conv run_task_applied
        dest!: keeps_applied intro!: finish_applied split: task.splits if_splits)
qed

lemma exec_messages:
  assumes "exec e c = Some c'" "\<And>p. e \<noteq> Apply p"
  shows "applied c' = applied c"
  using assms
  by (cases e) (auto simp: exec_def bind_eq_Some_conv run_task_applied split: task.splits if_splits)

end
