(* ===== verification/System.thy ===== *)
theory System
  imports Rsm Raft_Frame
begin

text \<open>
  The whole service: the Raft cluster, on every server the replicated state machine with its
  store and its \<^verbatim>\<open>reader\<close>, and every call of \<^verbatim>\<open>Submit\<close> that clients have made. A step is a
  step of the cluster, a step of a reader, or a step of one \<^verbatim>\<open>Submit\<close> call; the lock
  \<^verbatim>\<open>rsm.mu\<close> and the unbuffered channels decide which steps are possible. A server that
  crashes loses its replicated state machine and its calls, and starts again with \<open>MakeRSM\<close>.
\<close>

section \<open>State\<close>

text \<open>
  Where a \<^verbatim>\<open>Submit\<close> call is: in its \<^verbatim>\<open>select\<close>; with a value received; after its timeout,
  before it gets the lock to print the pending table; with its answer, before the deferred
  function gets the lock; returned; or gone with its server.
\<close>

datatype call_pc =
    CSelect
  | CGot "result option"
  | CTimedOut
  | CDefer "Err \<times> any"
  | CDone "Err \<times> any"
  | CDead

record call =
  call_node :: int
  call_id :: "64 word"
  call_req :: any
  call_index :: int
  call_pc :: call_pc

record replica =
  rep_rsm :: RSM
  rep_pc :: reader_pc
  rep_read :: nat

text \<open>
  \<open>rep_read\<close> counts the messages of \<^verbatim>\<open>applyCh\<close> that the reader has received; the messages
  that Raft has sent or is about to send are \<open>applied\<close> of the cluster.
\<close>

record system =
  cl :: cluster
  replicas :: "replica list"
  calls :: "call list"

definition replica :: "system \<Rightarrow> int \<Rightarrow> replica" where
  "replica s p = replicas s ! nat p"

definition store_of :: "system \<Rightarrow> int \<Rightarrow> Store" where
  "store_of s p = rsm_sm (rep_rsm (replica s p))"

definition unread :: "system \<Rightarrow> int \<Rightarrow> ApplyMsg list" where
  "unread s p = drop (rep_read (replica s p)) (applied (cl s) ! nat p)"

definition lock_free :: "system \<Rightarrow> int \<Rightarrow> bool" where
  "lock_free s p \<longleftrightarrow> \<not> holds_lock (rep_pc (replica s p))"

definition set_replica :: "int \<Rightarrow> replica \<Rightarrow> system \<Rightarrow> system" where
  "set_replica p r s = s\<lparr>replicas := (replicas s)[nat p := r]\<rparr>"

definition set_call :: "nat \<Rightarrow> call_pc \<Rightarrow> system \<Rightarrow> system" where
  "set_call w pc s = s\<lparr>calls := (calls s)[w := (calls s ! w)\<lparr>call_pc := pc\<rparr>]\<rparr>"

section \<open>Steps\<close>

datatype sys_event =
    Net event
  | Call int "64 word" any
  | Reader int
  | Timeout nat
  | Dump nat
  | Decide nat
  | Finish nat

definition lose_calls :: "int \<Rightarrow> call list \<Rightarrow> call list" where
  "lose_calls p = map (\<lambda>w.
     if call_node w = p then
       (case call_pc w of CDone r \<Rightarrow> w | _ \<Rightarrow> w\<lparr>call_pc := CDead\<rparr>)
     else w)"

text \<open>The replicated state machine of a server that has just been restarted.\<close>

definition reboot :: "int \<Rightarrow> system \<Rightarrow> system option" where
  "reboot p s =
     do {
       (rsm, ps) \<leftarrow> MakeRSM_state p (maxRaftState (rep_rsm (replica s p))) NewStore
                      (persister (node (cl s) p));
       Some (set_replica p \<lparr>rep_rsm = rsm, rep_pc = RIdle, rep_read = length (applied (cl s) ! nat p)\<rparr>
              (s\<lparr>cl := (cl s)\<lparr>nodes := (nodes (cl s))[nat p := (node (cl s) p)\<lparr>persister := ps\<rparr>]\<rparr>,
                 calls := lose_calls p (calls s)\<rparr>))
     }"

definition exec_net :: "event \<Rightarrow> system \<Rightarrow> system option" where
  "exec_net e s =
     do {
       c \<leftarrow> exec e (cl s);
       (case restarted_by e (cl s) of
          None \<Rightarrow> Some (s\<lparr>cl := c\<rparr>)
        | Some p \<Rightarrow> reboot p (s\<lparr>cl := c\<rparr>))
     }"

text \<open>A client's request arrives at server \<open>p\<close>; \<open>i\<close> is the random identifier it gets.\<close>

definition exec_call :: "int \<Rightarrow> 64 word \<Rightarrow> any \<Rightarrow> system \<Rightarrow> system option" where
  "exec_call p i req s =
     do {
       (r, rsm, rf) \<leftarrow> Submit_enter (rep_rsm (replica s p)) (node (cl s) p) i req (length (calls s));
       let w = \<lparr>call_node = p, call_id = i, call_req = req,
                call_index = (case r of Inl a \<Rightarrow> 0 | Inr index \<Rightarrow> index),
                call_pc = (case r of Inl a \<Rightarrow> CDone a | Inr index \<Rightarrow> CSelect)\<rparr>;
       Some (set_replica p ((replica s p)\<lparr>rep_rsm := rsm\<rparr>)
              (s\<lparr>cl := finish p rf (tasks (cl s)) (cl s), calls := calls s @ [w]\<rparr>))
     }"

text \<open>
  A step of the reader of server \<open>p\<close>: receive the next message, hand a result to a waiting
  call, give a snapshot to Raft, or go on inside the handler.
\<close>

definition exec_reader :: "(bytes \<Rightarrow> int) \<Rightarrow> int \<Rightarrow> system \<Rightarrow> system option" where
  "exec_reader byte_size p s =
     (let r = replica s p; rsm = rep_rsm r; rf = node (cl s) p
      in case rep_pc r of
           RIdle \<Rightarrow> do {
             (rsm1, pc) \<leftarrow> reader_receive rsm rf (hd (unread s p));
             Some (set_replica p \<lparr>rep_rsm = rsm1, rep_pc = pc, rep_read = Suc (rep_read r)\<rparr> s)
           }
         | RSend ((ch, res) # sends) k \<Rightarrow>
             Some (set_call ch (CGot (Some res)) (set_replica p (r\<lparr>rep_pc := RSend sends k\<rparr>) s))
         | RSend [] (KTake index d) \<Rightarrow> do {
             c \<leftarrow> exec (TakeSnapshot p index d) (cl s);
             Some (set_replica p (r\<lparr>rep_pc := RIdle\<rparr>) (s\<lparr>cl := c\<rparr>))
           }
         | pc \<Rightarrow> do {
             (rsm1, pc1) \<leftarrow> reader_advance byte_size rsm rf pc;
             Some (set_replica p (r\<lparr>rep_rsm := rsm1, rep_pc := pc1\<rparr>) s)
           })"

definition sys_exec :: "(bytes \<Rightarrow> int) \<Rightarrow> sys_event \<Rightarrow> system \<Rightarrow> system option" where
  "sys_exec byte_size e s =
     (case e of
        Net e' \<Rightarrow> exec_net e' s
      | Call p i req \<Rightarrow> exec_call p i req s
      | Reader p \<Rightarrow> exec_reader byte_size p s
      | Timeout w \<Rightarrow> Some (set_call w CTimedOut s)
      | Dump w \<Rightarrow> Some (set_call w (CDefer (Submit_timeout (node (cl s) (call_node (calls s ! w))))) s)
      | Decide w \<Rightarrow>
          (case call_pc (calls s ! w) of
             CGot msg \<Rightarrow> Some (set_call w (CDefer (Submit_receive
                          (node (cl s) (call_node (calls s ! w))) (call_id (calls s ! w)) msg)) s)
           | _ \<Rightarrow> Some s)
      | Finish w \<Rightarrow>
          (case call_pc (calls s ! w) of
             CDefer a \<Rightarrow>
               let p = call_node (calls s ! w); r = replica s p
               in Some (set_call w (CDone a)
                    (set_replica p (r\<lparr>rep_rsm := Submit_defer (rep_rsm r) (call_index (calls s ! w))\<rparr>) s))
           | _ \<Rightarrow> Some s))"

text \<open>
  Which steps are possible. A send waits for its receiver to be in its \<^verbatim>\<open>select\<close>; the
  critical sections of \<^verbatim>\<open>Submit\<close> wait for the lock. The identifiers that \<^verbatim>\<open>randValue\<close>
  draws are assumed to be fresh and different from \<open>-1\<close>.
\<close>

definition reader_possible :: "system \<Rightarrow> int \<Rightarrow> bool" where
  "reader_possible s p =
     (case rep_pc (replica s p) of
        RIdle \<Rightarrow> unread s p \<noteq> []
      | RSend ((ch, res) # sends) k \<Rightarrow> call_pc (calls s ! ch) = CSelect
      | _ \<Rightarrow> True)"

definition call_at :: "system \<Rightarrow> nat \<Rightarrow> call_pc option" where
  "call_at s w = (if w < length (calls s) then Some (call_pc (calls s ! w)) else None)"

definition call_lock_free :: "system \<Rightarrow> nat \<Rightarrow> bool" where
  "call_lock_free s w \<longleftrightarrow> lock_free s (call_node (calls s ! w))"

definition sys_possible :: "sys_event \<Rightarrow> system \<Rightarrow> bool" where
  "sys_possible e s =
     (case e of
        Net e' \<Rightarrow> possible e' (cl s) \<and>
          (case e' of Submit _ _ \<Rightarrow> False | TakeSnapshot _ _ _ \<Rightarrow> False | _ \<Rightarrow> True)
      | Call p i req \<Rightarrow> is_node (cl s) p \<and> lock_free s p \<and> i \<noteq> -1 \<and> i \<notin> set (map call_id (calls s))
      | Reader p \<Rightarrow> is_node (cl s) p \<and> reader_possible s p
      | Timeout w \<Rightarrow> call_at s w = Some CSelect
      | Dump w \<Rightarrow> call_at s w = Some CTimedOut \<and> call_lock_free s w
      | Decide w \<Rightarrow> (case call_at s w of Some (CGot _) \<Rightarrow> True | _ \<Rightarrow> False)
      | Finish w \<Rightarrow> (case call_at s w of Some (CDefer _) \<Rightarrow> True | _ \<Rightarrow> False) \<and> call_lock_free s w)"

definition init_replica :: "int \<Rightarrow> int \<Rightarrow> replica" where
  "init_replica maxRaft i =
     \<lparr>rep_rsm = \<lparr>rsm_me = i, maxRaftState = maxRaft, rsm_sm = NewStore, pending = [],
                 rsm_lastApplied = 0\<rparr>, rep_pc = RIdle, rep_read = 0\<rparr>"

definition init_system :: "nat \<Rightarrow> int \<Rightarrow> int \<Rightarrow> int \<Rightarrow> int \<Rightarrow> system" where
  "init_system n maxRaft emin erand hb =
     \<lparr>cl = init_cluster n emin erand hb, replicas = map (\<lambda>i. init_replica maxRaft (int i)) [0..<n],
      calls = []\<rparr>"

inductive sys_reachable :: "(bytes \<Rightarrow> int) \<Rightarrow> nat \<Rightarrow> system \<Rightarrow> bool" for byte_size n where
  start: "erand \<noteq> 0 \<Longrightarrow> sys_reachable byte_size n (init_system n maxRaft emin erand hb)"
| step: "sys_reachable byte_size n s \<Longrightarrow> sys_possible e s \<Longrightarrow> sys_exec byte_size e s = Some s' \<Longrightarrow>
    sys_reachable byte_size n s'"

fun sys_exec_all :: "(bytes \<Rightarrow> int) \<Rightarrow> sys_event list \<Rightarrow> system \<Rightarrow> system option" where
  "sys_exec_all byte_size [] s = Some s"
| "sys_exec_all byte_size (e # es) s =
     (if sys_possible e s then sys_exec byte_size e s \<bind> sys_exec_all byte_size es else None)"

lemma sys_exec_all_reachable:
  "sys_reachable byte_size n s \<Longrightarrow> sys_exec_all byte_size es s = Some s' \<Longrightarrow>
   sys_reachable byte_size n s'"
  by (induction es arbitrary: s)
    (auto simp: bind_eq_Some_conv split: if_splits intro: sys_reachable.step)

end
