(* ===== verification/System_Inv.thy ===== *)
theory System_Inv
  imports System
begin

text \<open>
  The invariant of the whole service: every store is the result of executing a committed
  prefix of the log, the messages that a reader has not received continue where its store
  is, every snapshot is a snapshot of the prefix it stands for, and every answer that a
  call has got is the answer of its command in the committed order.
\<close>

section \<open>The commands of a log\<close>

definition op_of :: "Entry \<Rightarrow> (64 word \<times> any) list" where
  "op_of e = (case Command e of Op _ i req \<Rightarrow> [(i, req)] | _ \<Rightarrow> [])"

text \<open>Identifier and request of the operations in a log, in order.\<close>

definition ops :: "Entry list \<Rightarrow> (64 word \<times> any) list" where
  "ops X = concat (map op_of X)"

text \<open>The store after the commands of a log prefix.\<close>

definition final :: "Entry list \<Rightarrow> Store" where
  "final X = do_ops NewStore (map snd (ops X))"

definition store_pred :: snapshot_pred where
  "store_pred X d \<longleftrightarrow> d = store_Snapshot (final X)"

lemma ops_simps [simp]: "ops [] = []" "ops (X @ Y) = ops X @ ops Y" "ops [e] = op_of e"
  by (simp_all add: ops_def)

lemma final_snoc: "Command e = Op m i req \<Longrightarrow> final (X @ [e]) = snd (DoOp (final X) req)"
  by (simp add: final_def op_of_def do_ops_append)

lemma final_skip: "\<forall>m i req. Command e \<noteq> Op m i req \<Longrightarrow> final (X @ [e]) = final X"
  by (cases "Command e") (simp_all add: final_def op_of_def)

lemma final_zero [simp]: "final [zero_Entry] = NewStore"
  by (simp add: final_def op_of_def zero_Entry_def)

lemma Restore_final:
  assumes "prefix X Y"
  shows "Restore (final X) (store_Snapshot (final Y)) = Some (final Y)"
proof -
  obtain Z where "Y = X @ Z" using assms by (auto simp: prefix_def)
  then show ?thesis
    using store.restore_run [of "map snd (ops X)" "map snd (ops Z)"] by (simp add: final_def)
qed

lemma store_Snapshot_nonempty [simp]: "store_Snapshot s \<noteq> []"
  by (simp add: store_Snapshot_def)

section \<open>Committed prefixes\<close>

text \<open>\<open>com N a X\<close>: \<open>X\<close> is committed, in whatever term.\<close>

definition com :: "nat \<Rightarrow> abs \<Rightarrow> Entry list \<Rightarrow> bool" where
  "com N a X \<longleftrightarrow> X \<noteq> [] \<and> (\<exists>u. cprefix N a u X)"

lemma com_wfl:
  assumes "ainv N a" "com N a X"
  shows "wfl a X"
proof -
  obtain u P where P: "committed N a u P" "prefix X P" "X \<noteq> []"
    using assms(2) by (auto simp: com_def cprefix_def)
  obtain t E where t: "elog a t = Some E" "prefix P (llog a t)"
    using committed_cases [OF assms(1) P(1)] by blast
  have "wfl a (llog a t)" using assms(1) t(1) by (auto simp: ainv_def inv_leaders_def)
  then show ?thesis using wfl_prefix prefix_order.trans [OF P(2) t(2)] P(3) by blast
qed

lemma com_aext: "ainv N a \<Longrightarrow> aext a b \<Longrightarrow> com N a X \<Longrightarrow> com N b X"
  using cprefix_aext unfolding com_def by blast

lemma com_prefix: "com N a X \<Longrightarrow> prefix Y X \<Longrightarrow> Y \<noteq> [] \<Longrightarrow> com N a Y"
  using cprefix_prefix unfolding com_def by blast

lemma com_chain: "ainv N a \<Longrightarrow> com N a X \<Longrightarrow> com N a Y \<Longrightarrow> prefix X Y \<or> prefix Y X"
  using cprefix_chain unfolding com_def by blast

lemma com_nth: "ainv N a \<Longrightarrow> com N a X \<Longrightarrow> com N a Y \<Longrightarrow> i < length X \<Longrightarrow> i < length Y \<Longrightarrow> X ! i = Y ! i"
  using com_chain [of N a X Y] prefix_nth [of X Y i] prefix_nth [of Y X i] by auto

lemma com_prefix_of:
  "ainv N a \<Longrightarrow> com N a X \<Longrightarrow> com N a Y \<Longrightarrow> length X \<le> length Y \<Longrightarrow> prefix X Y"
  using com_chain [of N a X Y] by (auto simp: prefix_conv_take)

lemma com_known: "ainv N a \<Longrightarrow> com N a X \<Longrightarrow> set X \<subseteq> known a"
  using com_wfl wfl_known by blast

lemma com_zero: "ainv N a \<Longrightarrow> com N a [zero_Entry]"
  by (auto simp: com_def cprefix_def committed_def)

section \<open>Messages and answers\<close>

text \<open>
  \<open>chain N a k ms l\<close>: the messages \<open>ms\<close> lead a reader that has applied everything up to index
  \<open>k\<close> to index \<open>l\<close>.
\<close>

definition next_cmd :: "nat \<Rightarrow> abs \<Rightarrow> int \<Rightarrow> ApplyMsg \<Rightarrow> bool" where
  "next_cmd N a k m \<longleftrightarrow> (\<exists>X e. com N a (X @ [e]) \<and> X \<noteq> [] \<and> int (length X) = k + 1 \<and>
     m = command_msg e \<and> Index e = k + 1)"

definition next_snap :: "nat \<Rightarrow> abs \<Rightarrow> int \<Rightarrow> ApplyMsg \<Rightarrow> bool" where
  "next_snap N a k m \<longleftrightarrow> SnapshotValid m \<and> k < SnapshotIndex m \<and>
     (\<exists>X. com N a X \<and> int (length X) = SnapshotIndex m + 1 \<and> store_pred X (am_Snapshot m))"

fun chain :: "nat \<Rightarrow> abs \<Rightarrow> int \<Rightarrow> ApplyMsg list \<Rightarrow> int \<Rightarrow> bool" where
  "chain N a k [] l \<longleftrightarrow> k = l"
| "chain N a k (m # ms) l \<longleftrightarrow> next_cmd N a k m \<and> chain N a (k + 1) ms l \<or>
     next_snap N a k m \<and> chain N a (SnapshotIndex m) ms l"

lemma next_aext:
  assumes "ainv N a" "aext a b"
  shows "next_cmd N a k m \<Longrightarrow> next_cmd N b k m" "next_snap N a k m \<Longrightarrow> next_snap N b k m"
  using com_aext [OF assms] unfolding next_cmd_def next_snap_def by blast+

lemma chain_aext:
  assumes "ainv N a" "aext a b"
  shows "chain N a k ms l \<Longrightarrow> chain N b k ms l"
  by (induction ms arbitrary: k) (use next_aext [OF assms] in auto)

lemma chain_append: "chain N a k ms l \<Longrightarrow> chain N a l ms' l' \<Longrightarrow> chain N a k (ms @ ms') l'"
  by (induction ms arbitrary: k) auto

text \<open>
  \<open>explained N a i v\<close>: \<open>v\<close> is the answer of the operation with identifier \<open>i\<close> at its place in the
  committed log.
\<close>

definition explained_at :: "Entry list \<Rightarrow> nat \<Rightarrow> 64 word \<Rightarrow> any \<Rightarrow> any \<Rightarrow> bool" where
  "explained_at X k i req v \<longleftrightarrow> k < length X \<and> (\<exists>m. Command (X ! k) = Op m i req) \<and>
     v = fst (DoOp (final (take k X)) req)"

definition explained :: "nat \<Rightarrow> abs \<Rightarrow> 64 word \<Rightarrow> any \<Rightarrow> bool" where
  "explained N a i v \<longleftrightarrow> (\<exists>X k req. com N a X \<and> explained_at X k i req v)"

lemma explained_aext: "ainv N a \<Longrightarrow> aext a b \<Longrightarrow> explained N a i v \<Longrightarrow> explained N b i v"
  using com_aext unfolding explained_def by blast

definition answer_ok :: "nat \<Rightarrow> abs \<Rightarrow> result \<Rightarrow> bool" where
  "answer_ok N a res \<longleftrightarrow> res_id res = -1 \<or> explained N a (res_id res) (res_val res)"

lemma answer_ok_aext: "ainv N a \<Longrightarrow> aext a b \<Longrightarrow> answer_ok N a res \<Longrightarrow> answer_ok N b res"
  using explained_aext unfolding answer_ok_def by blast

lemma retry_ok [simp]: "answer_ok N a retry_result"
  by (simp add: answer_ok_def retry_result_def)

section \<open>The invariant\<close>

text \<open>
  The sends and the rest of a handler, for a reader that has applied index \<open>k\<close> and whose store
  is \<open>sm\<close>; \<open>n\<close> is the number of calls.
\<close>

definition sends_ok :: "nat \<Rightarrow> abs \<Rightarrow> nat \<Rightarrow> send list \<Rightarrow> bool" where
  "sends_ok N a n sends \<longleftrightarrow> (\<forall>(ch, res) \<in> set sends. ch < n \<and> answer_ok N a res)"

definition rest_ok :: "int \<Rightarrow> Store \<Rightarrow> reader_rest \<Rightarrow> bool" where
  "rest_ok k sm rest =
     (case rest of KOutdated i \<Rightarrow> i = k | KCheck i \<Rightarrow> i = k
      | KTake i d \<Rightarrow> i = k \<and> d = store_Snapshot sm | KUnlock \<Rightarrow> True)"

definition pc_ok :: "nat \<Rightarrow> abs \<Rightarrow> nat \<Rightarrow> Entry list \<Rightarrow> int \<Rightarrow> reader_pc \<Rightarrow> bool" where
  "pc_ok N a n X k pc =
     (case pc of
        RIdle \<Rightarrow> int (length X) = k + 1
      | RExec index i req \<Rightarrow> index = k \<and> int (length X) = k \<and>
          (\<exists>e m. com N a (X @ [e]) \<and> Command e = Op m i req)
      | RNotify index i val \<Rightarrow> index = k \<and> int (length X) = k + 1 \<and> explained N a i val
      | RSend sends rest \<Rightarrow> int (length X) = k + 1 \<and> sends_ok N a n sends \<and> rest_ok k (final X) rest)"

definition pending_ok :: "nat \<Rightarrow> RSM \<Rightarrow> bool" where
  "pending_ok n rsm \<longleftrightarrow> (\<forall>(i, e) \<in> set (pending rsm). pe_ch e < n)"

definition rep_ok :: "nat \<Rightarrow> abs \<Rightarrow> nat \<Rightarrow> RSM \<Rightarrow> reader_pc \<Rightarrow> int \<Rightarrow> bool" where
  "rep_ok N a n rsm pc k \<longleftrightarrow> (\<exists>X. com N a X \<and> rsm_sm rsm = final X \<and> pc_ok N a n X k pc) \<and>
     rsm_lastApplied rsm \<le> k \<and> pending_ok n rsm"

definition call_ok :: "nat \<Rightarrow> abs \<Rightarrow> call \<Rightarrow> bool" where
  "call_ok N a w \<longleftrightarrow> call_node w \<in> node_set N \<and> call_id w \<noteq> -1 \<and>
     (case call_pc w of
        CGot (Some res) \<Rightarrow> answer_ok N a res
      | CDefer (e, v) \<Rightarrow> e = OK \<longrightarrow> explained N a (call_id w) v
      | CDone (e, v) \<Rightarrow> e = OK \<longrightarrow> explained N a (call_id w) v
      | _ \<Rightarrow> True)"

definition submitted :: "system \<Rightarrow> (64 word \<times> any) list" where
  "submitted s = map (\<lambda>w. (call_id w, call_req w)) (calls s)"

definition ids_ok :: "abs \<Rightarrow> (64 word \<times> any) list \<Rightarrow> bool" where
  "ids_ok a subs \<longleftrightarrow> distinct (map fst subs) \<and>
     (\<forall>e \<in> known a. \<forall>x \<in> set (op_of e). x \<in> set subs) \<and>
     (\<forall>e \<in> known a. \<forall>e' \<in> known a. \<forall>x \<in> set (op_of e). \<forall>x' \<in> set (op_of e'). fst x = fst x' \<longrightarrow> e = e')"

definition replica_ok :: "nat \<Rightarrow> abs \<Rightarrow> system \<Rightarrow> int \<Rightarrow> bool" where
  "replica_ok N a s p \<longleftrightarrow> (\<exists>k. rep_ok N a (length (calls s)) (rep_rsm (replica s p)) (rep_pc (replica s p)) k \<and>
     chain N a k (unread s p) (lastApplied (node (cl s) p))) \<and>
     rep_read (replica s p) \<le> length (applied (cl s) ! nat p)"

definition sys_inv :: "nat \<Rightarrow> abs \<Rightarrow> system \<Rightarrow> bool" where
  "sys_inv N a s \<longleftrightarrow> sim N store_pred a (cl s) \<and> length (replicas s) = N \<and>
     (\<forall>p \<in> node_set N. replica_ok N a s p) \<and> (\<forall>w \<in> set (calls s). call_ok N a w) \<and>
     ids_ok a (submitted s)"

lemma pc_ok_mono:
  assumes "ainv N a" "aext a b" "n \<le> n'"
  shows "pc_ok N a n X k pc \<Longrightarrow> pc_ok N b n' X k pc"
proof -
  have "sends_ok N a n sends \<Longrightarrow> sends_ok N b n' sends" for sends
    using assms(3) answer_ok_aext [OF assms(1,2)] unfolding sends_ok_def by fastforce
  then show "pc_ok N a n X k pc \<Longrightarrow> pc_ok N b n' X k pc"
    using com_aext [OF assms(1,2)] explained_aext [OF assms(1,2)]
    by (cases pc) (auto simp: pc_ok_def)
qed

lemma rep_ok_mono:
  assumes "ainv N a" "aext a b" "n \<le> n'"
  shows "rep_ok N a n rsm pc k \<Longrightarrow> rep_ok N b n' rsm pc k"
proof -
  have "pending_ok n rsm \<Longrightarrow> pending_ok n' rsm" using assms(3) unfolding pending_ok_def by fastforce
  then show "rep_ok N a n rsm pc k \<Longrightarrow> rep_ok N b n' rsm pc k"
    using com_aext [OF assms(1,2)] pc_ok_mono [OF assms] unfolding rep_ok_def by blast
qed

lemma call_ok_aext:
  assumes "ainv N a" "aext a b"
  shows "call_ok N a w \<Longrightarrow> call_ok N b w"
  using answer_ok_aext [OF assms] explained_aext [OF assms]
  by (auto simp: call_ok_def split: call_pc.splits option.splits)

end
