(* ===== verification/System_Step.thy ===== *)
theory System_Step
  imports System_Inv
begin

text \<open>
  Every step of the service keeps its invariant, and none of them panics: cluster steps,
  restarts, new calls, the steps of the readers and of the waiting calls.
\<close>

lemma sys_invD:
  assumes "sys_inv N a s"
  shows "sim N store_pred a (cl s)" "ainv N a" "length (replicas s) = N" "length (nodes (cl s)) = N"
    "length (applied (cl s)) = N" "p \<in> node_set N \<Longrightarrow> replica_ok N a s p"
    "w \<in> set (calls s) \<Longrightarrow> call_ok N a w" "ids_ok a (submitted s)"
    "p \<in> node_set N \<Longrightarrow> node_base N store_pred a p (node (cl s) p)"
proof -
  show s: "sim N store_pred a (cl s)" using assms by (simp add: sys_inv_def)
  note D = simD [OF s]
  show "ainv N a" "length (nodes (cl s)) = N" "length (applied (cl s)) = N" by (fact D)+
  show "p \<in> node_set N \<Longrightarrow> node_base N store_pred a p (node (cl s) p)"
    using D(5) by (simp add: node_ok_def)
qed (use assms in \<open>simp_all add: sys_inv_def\<close>)

lemma is_node_iff: "length (nodes c) = N \<Longrightarrow> is_node c p \<longleftrightarrow> p \<in> node_set N"
  by (simp add: is_node_def node_set_def)

section \<open>Identifiers\<close>

lemma ids_ok_sub: "ids_ok a subs \<Longrightarrow> known b \<subseteq> known a \<Longrightarrow> ids_ok b subs"
  unfolding ids_ok_def by blast

lemma ids_ok_new:
  assumes "ids_ok a subs" "known b \<subseteq> known a \<union> K" "\<forall>e \<in> K. op_of e = [(i, req)]" "i \<notin> fst ` set subs"
    "\<forall>e \<in> K. \<forall>e' \<in> K. e = e'"
  shows "ids_ok b (subs @ [(i, req)])"
proof -
  have old: "x \<in> set subs" if "e \<in> known a" "x \<in> set (op_of e)" for e x
    using assms(1) that unfolding ids_ok_def by blast
  have new: "x = (i, req)" if "e \<in> K" "x \<in> set (op_of e)" for e x using assms(3) that by auto
  have ne: "fst x \<noteq> i" if "e \<in> known a" "x \<in> set (op_of e)" for e x
    using old [OF that] assms(4) by auto
  have "e = e'" if e: "e \<in> known b" "e' \<in> known b" "x \<in> set (op_of e)" "x' \<in> set (op_of e')" "fst x = fst x'"
    for e e' x x'
  proof (cases "e \<in> known a")
    case True
    then have "fst x' \<noteq> i" using ne [OF True e(3)] e(5) by simp
    then have "e' \<in> known a" using new [OF _ e(4)] e(2) assms(2) by auto
    with True assms(1) e(3-5) show ?thesis unfolding ids_ok_def by blast
  next
    case False
    then have k: "e \<in> K" using e(1) assms(2) by auto
    then have "fst x' = i" using new [OF k e(3)] e(5) by simp
    then have "e' \<in> K" using ne [OF _ e(4)] e(2) assms(2) by auto
    with k assms(5) show ?thesis by blast
  qed
  moreover have "x \<in> set (subs @ [(i, req)])" if "e \<in> known b" "x \<in> set (op_of e)" for e x
    using old [OF _ that(2)] new [OF _ that(2)] that(1) assms(2) by auto
  moreover have "distinct (map fst (subs @ [(i, req)]))"
    using assms(1,4) by (auto simp: ids_ok_def)
  ultimately show ?thesis unfolding ids_ok_def by blast
qed

section \<open>Steps of the cluster\<close>

lemma unread_cl:
  assumes "applied c ! nat p = applied (cl s) ! nat p @ ms" "rep_read (replica s p) \<le> length (applied (cl s) ! nat p)"
  shows "unread (s\<lparr>cl := c\<rparr>) p = unread s p @ ms"
  using assms by (simp add: unread_def replica_def)

text \<open>A replica whose server has only sent messages that continue the ones before.\<close>

lemma replica_ok_cl:
  assumes "sys_inv N a s" "aext a b" "replica_ok N a s p"
    "applied c ! nat p = applied (cl s) ! nat p @ ms"
    "chain N a (lastApplied (node (cl s) p)) ms (lastApplied (node c p))"
  shows "replica_ok N b (s\<lparr>cl := c\<rparr>) p"
proof -
  note inv = sys_invD(2) [OF assms(1)]
  obtain k where k: "rep_ok N a (length (calls s)) (rep_rsm (replica s p)) (rep_pc (replica s p)) k"
    "chain N a k (unread s p) (lastApplied (node (cl s) p))"
    "rep_read (replica s p) \<le> length (applied (cl s) ! nat p)"
    using assms(3) by (auto simp: replica_ok_def)
  have "chain N b k (unread (s\<lparr>cl := c\<rparr>) p) (lastApplied (node c p))"
    unfolding unread_cl [OF assms(4) k(3)]
    by (rule chain_aext [OF inv assms(2) chain_append [OF k(2) assms(5)]])
  moreover have "rep_ok N b (length (calls s)) (rep_rsm (replica s p)) (rep_pc (replica s p)) k"
    by (rule rep_ok_mono [OF inv assms(2) order_refl k(1)])
  ultimately show ?thesis using k(3) assms(4) by (auto simp: replica_ok_def replica_def)
qed

text \<open>A replica that has received no message.\<close>

lemma replica_ok_step:
  assumes "ainv N a" "aext a b" "replica_ok N a s p"
    "\<And>k. rep_ok N a (length (calls s)) (rep_rsm (replica s p)) (rep_pc (replica s p)) k \<Longrightarrow>
      rep_ok N b (length (calls s')) (rep_rsm (replica s' p)) (rep_pc (replica s' p)) k"
    "rep_read (replica s' p) = rep_read (replica s p)"
    "applied (cl s') ! nat p = applied (cl s) ! nat p"
    "lastApplied (node (cl s') p) = lastApplied (node (cl s) p)"
  shows "replica_ok N b s' p"
proof -
  have "unread s' p = unread s p" using assms(5,6) by (simp add: unread_def)
  then show ?thesis
    using assms(3,4) chain_aext [OF assms(1,2)] unfolding replica_ok_def assms(5-7) by metis
qed

lemma replica_ok_mono:
  assumes "ainv N a" "aext a b" "replica_ok N a s p" "replica s' p = replica s p"
    "length (calls s) \<le> length (calls s')" "applied (cl s') ! nat p = applied (cl s) ! nat p"
    "lastApplied (node (cl s') p) = lastApplied (node (cl s) p)"
  shows "replica_ok N b s' p"
  by (rule replica_ok_step [OF assms(1-3)])
    (use assms rep_ok_mono [OF assms(1,2,5)] in auto)

lemma applier_chain:
  assumes "ainv N a" "node_base N store_pred a p rf" "applier rf = Some (ms, rf')"
  shows "chain N a (lastApplied rf) ms (lastApplied rf')"
proof -
  let ?X = "alog a p" and ?P = "take (nat (commitIndex rf + 1)) (alog a p)"
  note wf = node_base_wfl [OF assms(1,2)] and len = commit_length [OF assms(2)]
  have b: "commitIndex rf < int (length ?X)" "0 \<le> lastApplied rf" "cprefix N a (currentTerm rf) ?P"
    "snapshot_ok store_pred ?X (lastIncludedIndex rf) (disk_snapshot (persister rf))"
    using assms(2) by (simp_all add: node_base_def)
  have com: "com N a (take (nat (j + 1)) ?X)" if "0 \<le> j" "j \<le> commitIndex rf" for j
  proof -
    have "prefix (take (nat (j + 1)) ?X) ?P" using that by (intro prefix_take_mono) simp
    moreover have "take (nat (j + 1)) ?X \<noteq> []" using that b(1) by auto
    ultimately show ?thesis using b(3) cprefix_prefix unfolding com_def by blast
  qed
  have cmds: "chain N a k (map command_msg (drop (nat (k + 1)) ?P)) (commitIndex rf)"
    if "0 \<le> k" "k \<le> commitIndex rf" for k
    using that
  proof (induction "nat (commitIndex rf - k)" arbitrary: k)
    case 0
    then have "k = commitIndex rf" by simp
    then show ?case using len by simp
  next
    case (Suc d)
    then have k: "0 \<le> k" "k < commitIndex rf" by auto
    let ?i = "nat (k + 1)"
    have i: "?i < length ?P" "?i < length ?X" "Suc ?i = nat (k + 1 + 1)" using k b(1) len(1) by auto
    have d: "drop ?i ?P = ?X ! ?i # drop (nat (k + 1 + 1)) ?P"
      using Cons_nth_drop_Suc [OF i(1)] i k by simp
    have "take (nat (k + 1 + 1)) ?X = take ?i ?X @ [?X ! ?i]"
      using i take_Suc_conv_app_nth by metis
    then have "com N a (take ?i ?X @ [?X ! ?i])" using com [of "k + 1"] k by simp
    moreover have "int (length (take ?i ?X)) = k + 1" "take ?i ?X \<noteq> []" "Index (?X ! ?i) = k + 1"
      using i k wf(2) by (auto simp: indexed_def)
    ultimately have "next_cmd N a k (command_msg (?X ! ?i))" unfolding next_cmd_def by blast
    moreover have "chain N a (k + 1) (map command_msg (drop (nat (k + 1 + 1)) ?P)) (commitIndex rf)"
      using Suc.hyps(1) [of "k + 1"] Suc.hyps(2) k by simp
    ultimately show ?case unfolding d by simp
  qed
  have snap: "next_snap N a (lastApplied rf) (snapshot_msg rf)"
    if "lastApplied rf < lastIncludedIndex rf"
  proof -
    let ?M = "take (nat (lastIncludedIndex rf + 1)) ?X"
    have "store_pred ?M (disk_snapshot (persister rf))"
      using b(2,4) that by (simp add: snapshot_ok_def)
    moreover have "int (length ?M) = lastIncludedIndex rf + 1" using b(1) len by simp
    ultimately show ?thesis
      using com [OF len(2,3)] that by (auto simp: next_snap_def snapshot_msg_def)
  qed
  have "lastApplied rf \<le> commitIndex rf" using assms(2) by (simp add: node_base_def)
  then show ?thesis
    using assms(3) cmds [OF b(2)] snap unfolding applier_eq [OF wf(4,1) b(1)]
    by (auto simp: snapshot_msg_def split: if_splits)
qed

lemma inv_cl:
  assumes "sys_inv N a s" "sim_step N store_pred {} a (cl s) c b"
    "\<And>p. p \<in> node_set N \<Longrightarrow> replica_ok N b (s\<lparr>cl := c\<rparr>) p"
  shows "sys_inv N b (s\<lparr>cl := c\<rparr>)"
proof -
  note D = sys_invD [OF assms(1)]
  have st: "asteps N a b" "sim N store_pred b c" "known b \<subseteq> known a"
    using assms(2) by (simp_all add: sim_step_def)
  have "aext a b" by (rule asteps_aext [OF st(1) D(2)])
  then have "call_ok N b w" if "w \<in> set (calls s)" for w using call_ok_aext [OF D(2)] D(7) that by blast
  moreover have "ids_ok b (submitted s)" by (rule ids_ok_sub [OF D(8) st(3)])
  ultimately show ?thesis
    using st(2) D(3) assms(3) by (simp add: sys_inv_def submitted_def)
qed

lemma nat_node_eq: "p \<in> node_set N \<Longrightarrow> q \<in> node_set N \<Longrightarrow> nat p = nat q \<longleftrightarrow> p = q"
  by (auto simp: node_set_def)

lemma nat_node_less: "p \<in> node_set N \<Longrightarrow> nat p < N"
  by (auto simp: node_set_def)

text \<open>A step of the cluster without a restart.\<close>

lemma inv_net_plain:
  assumes inv: "sys_inv N a s" and po: "sys_possible (Net e) s" and no: "restarted_by e (cl s) = None"
  shows "\<exists>s' b. exec_net e s = Some s' \<and> asteps N a b \<and> sys_inv N b s'"
proof -
  note D = sys_invD [OF inv]
  have e: "possible e (cl s)" "\<And>p cmd. e \<noteq> Submit p cmd" "\<And>p i d. e \<noteq> TakeSnapshot p i d"
    using po by (auto simp: sys_possible_def)
  have cr: "created e (cl s) = {}" using e(2) by (auto simp: created_def split: event.splits)
  obtain c b where c: "exec e (cl s) = Some c" "sim_step N store_pred {} a (cl s) c b"
    using sim_exec [OF D(1) e(1)] e(3) cr by auto
  have st: "asteps N a b" "aext a b"
    using c(2) asteps_aext [OF _ D(2)] by (auto simp: sim_step_def)
  have "replica_ok N b (s\<lparr>cl := c\<rparr>) p" if p: "p \<in> node_set N" for p
  proof (cases "\<exists>q. e = Apply q")
    case True
    then obtain q where q: "e = Apply q" by blast
    then have qn: "q \<in> node_set N" using e(1) is_node_iff [OF D(4)] by (simp add: possible_def)
    obtain ms rf where a: "applier (node (cl s) q) = Some (ms, rf)"
      "c = (finish q rf (tasks (cl s)) (cl s))\<lparr>applied := (applied (cl s))[nat q := applied (cl s) ! nat q @ ms]\<rparr>"
      using c(1) q by (auto simp: exec_def bind_eq_Some_conv)
    show ?thesis
    proof (cases "p = q")
      case True
      have "node c p = rf\<lparr>eff := []\<rparr>" using a(2) True node_finish [OF D(4) qn qn] by simp
      moreover have "applied c ! nat p = applied (cl s) ! nat p @ ms"
        using a(2) True D(5) nat_node_less [OF qn] by simp
      ultimately show ?thesis
        using replica_ok_cl [OF inv st(2) D(6) [OF p]] applier_chain [OF D(2) D(9) [OF qn] a(1)] True by simp
    next
      case False
      then have "nat p \<noteq> nat q" using nat_node_eq [OF p qn] by simp
      then have "applied c ! nat p = applied (cl s) ! nat p @ []" using a(2) by simp
      moreover have "node c p = node (cl s) p" using a(2) False node_finish [OF D(4) qn p] by simp
      ultimately show ?thesis using replica_ok_cl [OF inv st(2) D(6) [OF p]] by simp
    qed
  next
    case False
    then have na: "\<And>q. e \<noteq> Apply q" by blast
    have "applied c ! nat p = applied (cl s) ! nat p @ []" using exec_messages [OF c(1) na] by simp
    moreover have "lastApplied (node c p) = lastApplied (node (cl s) p)"
      by (rule exec_applied [OF c(1) na]) (use p no in \<open>auto simp: node_set_def\<close>)
    ultimately show ?thesis using replica_ok_cl [OF inv st(2) D(6) [OF p]] by simp
  qed
  from inv_cl [OF inv c(2) this] c(1) no st(1) show ?thesis by (auto simp: exec_net_def)
qed

section \<open>Restarts\<close>

lemma restart_lastApplied:
  assumes "restart rf = Some rf'" "0 \<le> lastIncludedIndex rf'"
  shows "lastApplied rf' = lastIncludedIndex rf'"
  using assms
  by (auto simp: restart_def Make_def readPersist_def fresh_Raft_def bind_eq_Some_conv Let_def
      split: sum.splits prod.splits if_splits)

lemma exec_restarted:
  assumes "exec e c = Some c'" "restarted_by e c = Some q" "q \<in> node_set (length (nodes c))"
  shows "\<exists>rf rf'. restart rf = Some rf' \<and> node c' q = rf'\<lparr>eff := []\<rparr>"
  using assms(1,2) node_finish [OF refl assms(3,3)]
  by (auto simp: restarted_by_def exec_def bind_eq_Some_conv split: event.splits task.splits if_splits)

lemma restarted_node:
  assumes "sim N G a c" "possible e c" "restarted_by e c = Some q"
  shows "q \<in> node_set N"
proof -
  note D = simD [OF assms(1)]
  have "callee (tasks c ! k) \<in> node_set N" if "k < length (tasks c)" for k
    using D(9) [OF nth_mem [OF that]] by (simp add: routed_def)
  then show ?thesis
    using assms(2,3) is_node_iff [OF D(2)]
    by (auto simp: restarted_by_def possible_def split: event.splits task.splits if_splits)
      (metis callee.simps(6))
qed

lemma MakeRSM_ok:
  assumes "ainv N b" "node_base N store_pred b q rf" "lastApplied rf = lastIncludedIndex rf"
  shows "\<exists>rsm. MakeRSM_state i mx NewStore (persister rf) = Some (rsm, persister rf) \<and>
    rep_ok N b n rsm RIdle (lastApplied rf)"
proof -
  let ?d = "disk_snapshot (persister rf)" and ?L = "lastIncludedIndex rf"
  let ?M = "take (nat (?L + 1)) (alog b q)"
  note wf = node_base_wfl [OF assms(1,2)] and len = commit_length [OF assms(2)]
  have h: "no_faults (persister rf)" using wf(4) by (simp add: healthy_def)
  have rd: "ReadSnapshot (persister rf) = (Inr ?d, persister rf)"
    using read_files [OF h] by (simp add: disk_snapshot_def)
  have b: "commitIndex rf < int (length (alog b q))" "snapshot_ok store_pred (alog b q) ?L ?d"
    "cprefix N b (currentTerm rf) (take (nat (commitIndex rf + 1)) (alog b q))"
    using assms(2) by (simp_all add: node_base_def)
  have M: "int (length ?M) = ?L + 1" using b(1) len by simp
  have "prefix ?M (take (nat (commitIndex rf + 1)) (alog b q))" using len by (intro prefix_take_mono) simp
  moreover have "?M \<noteq> []" using M len(2) by (cases ?M) auto
  ultimately have com: "com N b ?M" using b(3) cprefix_prefix unfolding com_def by blast
  have z: "?M = [zero_Entry]" if "?L = 0"
  proof -
    have "length ?M = 1" using M that by simp
    then show ?thesis using wf(3) by (cases "alog b q") (auto simp: wfl_def that)
  qed
  obtain sm where sm: "(if ?d \<noteq> [] then Restore NewStore ?d else Some NewStore) = Some sm" "sm = final ?M"
  proof (cases "?L = 0")
    case True
    then show ?thesis using that b(2) z by (simp add: snapshot_ok_def)
  next
    case False
    then have "?d = store_Snapshot (final ?M)" using b(2) by (simp add: snapshot_ok_def store_pred_def)
    moreover have "Restore NewStore (store_Snapshot (final ?M)) = Some (final ?M)"
      unfolding final_def by (rule store.restore_init) simp
    ultimately show ?thesis using that by simp
  qed
  have "rep_ok N b n \<lparr>rsm_me = i, maxRaftState = mx, rsm_sm = sm, pending = [], rsm_lastApplied = 0\<rparr>
      RIdle (lastApplied rf)"
    using com sm(2) M assms(3) len(2) by (auto simp: rep_ok_def pc_ok_def pending_ok_def)
  moreover have "MakeRSM_state i mx NewStore (persister rf) =
      Some (\<lparr>rsm_me = i, maxRaftState = mx, rsm_sm = sm, pending = [], rsm_lastApplied = 0\<rparr>, persister rf)"
    using rd sm(1) by (simp add: MakeRSM_state_def snapshot_or_nil_def)
  ultimately show ?thesis by blast
qed

lemma replica_set [simp]:
  assumes "length (replicas s) = N" "p \<in> node_set N" "q \<in> node_set N"
  shows "replica (set_replica p r s) q = (if q = p then r else replica s q)"
  using assms nat_node_eq [OF assms(2,3)] nat_node_less [OF assms(2)]
  by (auto simp: replica_def set_replica_def)

lemma set_sel [simp]:
  "cl (set_replica p r s) = cl s" "calls (set_replica p r s) = calls s"
  "length (replicas (set_replica p r s)) = length (replicas s)"
  "cl (set_call w pc s) = cl s" "replicas (set_call w pc s) = replicas s"
  "length (calls (set_call w pc s)) = length (calls s)" "replica (set_call w pc s) p = replica s p"
  by (simp_all add: set_replica_def set_call_def replica_def)

lemma replica_cl [simp]:
  "replica (s\<lparr>cl := c\<rparr>) p = replica s p" "replica (s\<lparr>calls := ws\<rparr>) p = replica s p"
  by (simp_all add: replica_def)

lemma lose_calls_sel [simp]:
  "length (lose_calls p ws) = length ws"
  "map (\<lambda>w. (call_id w, call_req w)) (lose_calls p ws) = map (\<lambda>w. (call_id w, call_req w)) ws"
  by (auto simp: lose_calls_def comp_def split: call_pc.splits)

lemma lose_calls_ok:
  "\<forall>w \<in> set ws. call_ok N a w \<Longrightarrow> \<forall>w \<in> set (lose_calls p ws). call_ok N a w"
  by (auto simp: lose_calls_def call_ok_def split: call_pc.splits)

text \<open>The parts of the invariant after a step of server \<open>q\<close>.\<close>

lemma inv_parts:
  assumes "sys_inv N a s" "asteps N a b" "sim N store_pred b (cl s')" "length (replicas s') = N"
    "\<And>p. p \<in> node_set N \<Longrightarrow> p \<noteq> q \<Longrightarrow> replica s' p = replica s p \<and>
       applied (cl s') ! nat p = applied (cl s) ! nat p \<and>
       lastApplied (node (cl s') p) = lastApplied (node (cl s) p)"
    "length (calls s) \<le> length (calls s')" "q \<in> node_set N \<Longrightarrow> replica_ok N b s' q"
    "\<forall>w \<in> set (calls s'). call_ok N b w" "ids_ok b (submitted s')"
  shows "sys_inv N b s'"
proof -
  note D = sys_invD [OF assms(1)]
  have "aext a b" by (rule asteps_aext [OF assms(2) D(2)])
  then have "replica_ok N b s' p" if "p \<in> node_set N" for p
    using replica_ok_mono [OF D(2) _ D(6)] assms(5-7) that by (cases "p = q") blast+
  with assms(3,4,8,9) show ?thesis by (simp add: sys_inv_def)
qed

lemma inv_net_restart:
  assumes inv: "sys_inv N a s" and po: "sys_possible (Net e) s" and re: "restarted_by e (cl s) = Some q"
  shows "\<exists>s' b. exec_net e s = Some s' \<and> asteps N a b \<and> sys_inv N b s'"
proof -
  note D = sys_invD [OF inv]
  have e: "possible e (cl s)" "\<And>p cmd. e \<noteq> Submit p cmd" "\<And>p i d. e \<noteq> TakeSnapshot p i d" "\<And>p. e \<noteq> Apply p"
    using po re by (auto simp: sys_possible_def restarted_by_def)
  have cr: "created e (cl s) = {}" using e(2) by (auto simp: created_def split: event.splits)
  obtain c b where c: "exec e (cl s) = Some c" "sim_step N store_pred {} a (cl s) c b"
    using sim_exec [OF D(1) e(1)] e(3) cr by auto
  have st: "asteps N a b" "aext a b" "sim N store_pred b c" "known b \<subseteq> known a"
    using c(2) asteps_aext [OF _ D(2)] by (auto simp: sim_step_def)
  note Dc = simD [OF st(3)]
  have q: "q \<in> node_set N" by (rule restarted_node [OF D(1) e(1) re])
  have base: "node_base N store_pred b q (node c q)" using Dc(5) [OF q] by (simp add: node_ok_def)
  obtain rf rf' where "restart rf = Some rf'" "node c q = rf'\<lparr>eff := []\<rparr>"
    using exec_restarted [OF c(1) re] q D(4) by auto
  then have la: "lastApplied (node c q) = lastIncludedIndex (node c q)"
    using restart_lastApplied commit_length(2) [OF base] by simp
  obtain rsm where rsm: "MakeRSM_state q (maxRaftState (rep_rsm (replica s q))) NewStore (persister (node c q)) =
      Some (rsm, persister (node c q))" "rep_ok N b (length (calls s)) rsm RIdle (lastApplied (node c q))"
    using MakeRSM_ok [OF Dc(1) base la] by blast
  have id: "(nodes c)[nat q := (node c q)\<lparr>persister := persister (node c q)\<rparr>] = nodes c"
    by (simp add: node_def)
  define s' where "s' = set_replica q \<lparr>rep_rsm = rsm, rep_pc = RIdle, rep_read = length (applied c ! nat q)\<rparr>
      (s\<lparr>cl := c, calls := lose_calls q (calls s)\<rparr>)"
  have "reboot q (s\<lparr>cl := c\<rparr>) = Some s'" using rsm(1) id by (simp add: reboot_def s'_def)
  then have ex: "exec_net e s = Some s'" using c(1) re by (simp add: exec_net_def)
  have "sys_inv N b s'"
  proof (rule inv_parts [OF inv st(1), where q = q])
    show "sim N store_pred b (cl s')" "length (replicas s') = N" "length (calls s) \<le> length (calls s')"
      using st(3) D(3) by (simp_all add: s'_def)
    show "replica_ok N b s' q"
      using rsm(2) q D(3) by (auto simp: replica_ok_def s'_def unread_def)
    have "submitted s' = submitted s" by (simp add: submitted_def s'_def)
    then show "ids_ok b (submitted s')" using ids_ok_sub [OF D(8) st(4)] by simp
    have "\<forall>w \<in> set (calls s). call_ok N b w" using call_ok_aext [OF D(2) st(2)] D(7) by blast
    then show "\<forall>w \<in> set (calls s'). call_ok N b w" using lose_calls_ok by (simp add: s'_def)
    fix p assume p: "p \<in> node_set N" "p \<noteq> q"
    have "lastApplied (node c p) = lastApplied (node (cl s) p)"
      by (rule exec_applied [OF c(1) e(4)]) (use p q re in \<open>auto simp: node_set_def\<close>)
    then show "replica s' p = replica s p \<and> applied (cl s') ! nat p = applied (cl s) ! nat p \<and>
       lastApplied (node (cl s') p) = lastApplied (node (cl s) p)"
      using p q D(3) exec_messages [OF c(1) e(4)] by (simp add: s'_def)
  qed
  with ex st(1) show ?thesis by blast
qed

section \<open>Calls\<close>

lemma pending_ok_update:
  assumes "pending_ok n rsm" "pe_ch e < n"
  shows "pending_ok n (rsm\<lparr>pending := AList.update k e (pending rsm)\<rparr>)"
proof -
  have "set (AList.update k e es) \<subseteq> insert (k, e) (set es)" for es by (induction es) auto
  with assms show ?thesis unfolding pending_ok_def by fastforce
qed

lemma pending_ok_subset:
  "pending_ok n rsm \<Longrightarrow> set (pending rsm') \<subseteq> set (pending rsm) \<Longrightarrow> pending_ok n rsm'"
  unfolding pending_ok_def by blast

lemma inv_call:
  assumes inv: "sys_inv N a s" and po: "sys_possible (Call p i req) s"
  shows "\<exists>s' b. exec_call p i req s = Some s' \<and> asteps N a b \<and> sys_inv N b s'"
proof -
  note D = sys_invD [OF inv]
  have p: "p \<in> node_set N" "i \<noteq> -1" "i \<notin> fst ` set (submitted s)" "is_node (cl s) p"
    using po is_node_iff [OF D(4)] by (auto simp: sys_possible_def submitted_def)
  let ?rsm = "rep_rsm (replica s p)" and ?rf = "node (cl s) p" and ?n = "length (calls s)"
  let ?cmd = "Op (rsm_me ?rsm) i req"
  have "possible (Submit p ?cmd) (cl s)" using p(4) by (simp add: possible_def)
  from sim_exec [OF D(1) this] obtain c b where c: "exec (Submit p ?cmd) (cl s) = Some c"
    "sim_step N store_pred (started ?rf ?cmd) a (cl s) c b"
    by (auto simp: created_def)
  obtain index t l rf where rf: "Start ?rf ?cmd = Some ((index, t, l), rf)" "c = finish p rf (tasks (cl s)) (cl s)"
    using c(1) by (auto simp: exec_def bind_eq_Some_conv)
  have st: "asteps N a b" "aext a b" "sim N store_pred b c" "known b \<subseteq> known a \<union> started ?rf ?cmd"
    using c(2) asteps_aext [OF _ D(2)] by (auto simp: sim_step_def)
  define rsm where "rsm = (if l then ?rsm\<lparr>pending := AList.update index
      \<lparr>pe_id = i, pe_term = t, pe_ch = ?n\<rparr> (pending ?rsm)\<rparr> else ?rsm)"
  define w where "w = \<lparr>call_node = p, call_id = i, call_req = req, call_index = (if l then index else 0),
      call_pc = (if l then CSelect else CDone (ErrWrongLeader, AnyInt (Leader rf)))\<rparr>"
  define s' where "s' = set_replica p ((replica s p)\<lparr>rep_rsm := rsm\<rparr>) (s\<lparr>cl := c, calls := calls s @ [w]\<rparr>)"
  have ex: "exec_call p i req s = Some s'"
    using rf by (cases l) (simp_all add: exec_call_def Submit_enter_def s'_def w_def rsm_def)
  have pend: "pending_ok (Suc ?n) rsm" if "pending_ok ?n ?rsm"
  proof -
    have "pending_ok (Suc ?n) ?rsm" using that unfolding pending_ok_def by fastforce
    then show ?thesis using pending_ok_update by (simp add: rsm_def)
  qed
  have "sys_inv N b s'"
  proof (rule inv_parts [OF inv st(1), where q = p])
    show "sim N store_pred b (cl s')" "length (replicas s') = N" "length (calls s) \<le> length (calls s')"
      using st(3) D(3) by (simp_all add: s'_def)
    have "lastApplied (node c p) = lastApplied ?rf"
      using rf(2) finish_applied [of rf "cl s" p] Start_applied [OF rf(1)] by simp
    moreover have "rep_ok N b (Suc ?n) rsm pc k" if "rep_ok N a ?n ?rsm pc k" for pc k
      using rep_ok_mono [OF D(2) st(2) _ that, of "Suc ?n"] pend that
      by (auto simp: rep_ok_def rsm_def)
    ultimately show "replica_ok N b s' p"
      using p(1) D(3) rf(2) by (intro replica_ok_step [OF D(2) st(2) D(6) [OF p(1)]]) (simp_all add: s'_def)
    have "submitted s' = submitted s @ [(i, req)]" by (simp add: submitted_def s'_def w_def)
    moreover have "ids_ok b (submitted s @ [(i, req)])"
      by (rule ids_ok_new [OF D(8) st(4) _ p(3)]) (auto simp: started_def op_of_def)
    ultimately show "ids_ok b (submitted s')" by simp
    have "\<forall>w \<in> set (calls s). call_ok N b w" using call_ok_aext [OF D(2) st(2)] D(7) by blast
    moreover have "call_ok N b w" using p(1,2) by (simp add: call_ok_def w_def)
    ultimately show "\<forall>w \<in> set (calls s'). call_ok N b w" by (simp add: s'_def)
    fix q assume q: "q \<in> node_set N" "q \<noteq> p"
    then show "replica s' q = replica s q \<and> applied (cl s') ! nat q = applied (cl s) ! nat q \<and>
       lastApplied (node (cl s') q) = lastApplied (node (cl s) q)"
      using p(1) D(3) rf(2) node_finish [OF D(4) p(1) q(1)] by (simp add: s'_def)
  qed
  with ex st(1) show ?thesis by blast
qed

text \<open>Steps that leave the cluster alone.\<close>

lemma inv_local:
  assumes "sys_inv N a s" "cl s' = cl s" "length (replicas s') = N"
    "\<And>p. p \<in> node_set N \<Longrightarrow> p \<noteq> q \<Longrightarrow> replica s' p = replica s p"
    "q \<in> node_set N \<Longrightarrow> replica_ok N a s' q" "length (calls s) = length (calls s')"
    "\<forall>w \<in> set (calls s'). call_ok N a w" "submitted s' = submitted s"
  shows "sys_inv N a s'"
  by (rule inv_parts [OF assms(1) rtranclp.rtrancl_refl, where q = q])
    (use assms sys_invD(1,8) [OF assms(1)] in simp_all)

lemma submitted_set_call [simp]: "submitted (set_call w pc s) = submitted s"
proof -
  let ?f = "\<lambda>w. (call_id w, call_req w)"
  have "map ?f ((calls s)[w := (calls s ! w)\<lparr>call_pc := pc\<rparr>]) = (map ?f (calls s))[w := ?f (calls s ! w)]"
    by (simp add: map_update)
  also have "\<dots> = map ?f (calls s)"
    by (cases "w < length (calls s)") (simp_all add: list_update_same_conv list_update_beyond)
  finally show ?thesis by (simp add: submitted_def set_call_def)
qed

lemma submitted_set_replica [simp]: "submitted (set_replica p r s) = submitted s"
  by (simp add: submitted_def)

lemma set_call_ok:
  assumes "sys_inv N a s" "w < length (calls s)" "call_ok N a ((calls s ! w)\<lparr>call_pc := pc\<rparr>)"
  shows "\<forall>v \<in> set (calls (set_call w pc s)). call_ok N a v"
  using assms(3) sys_invD(7) [OF assms(1)] set_update_subset_insert [of "calls s" w]
  unfolding set_call_def by auto

lemma inv_set_call:
  assumes "sys_inv N a s" "w < length (calls s)" "call_ok N a ((calls s ! w)\<lparr>call_pc := pc\<rparr>)"
  shows "sys_inv N a (set_call w pc s)"
proof (rule inv_local [OF assms(1), where q = "-1"])
  show "\<forall>v \<in> set (calls (set_call w pc s)). call_ok N a v" by (rule set_call_ok [OF assms])
  show "-1 \<in> node_set N \<Longrightarrow> replica_ok N a (set_call w pc s) (-1)" by (simp add: node_set_def)
qed (use sys_invD(3) [OF assms(1)] in simp_all)

lemma call_atD: "call_at s w = Some pc \<Longrightarrow> w < length (calls s) \<and> call_pc (calls s ! w) = pc"
  by (auto simp: call_at_def split: if_splits)

lemma inv_waiting:
  assumes inv: "sys_inv N a s" and e: "e \<in> {Timeout w, Dump w, Decide w}" and po: "sys_possible e s"
  shows "\<exists>s'. sys_exec bs e s = Some s' \<and> sys_inv N a s'"
proof -
  note D = sys_invD [OF inv]
  let ?w = "calls s ! w"
  have w: "w < length (calls s)" using e po by (auto simp: sys_possible_def call_at_def split: if_splits option.splits)
  then have ok: "call_ok N a ?w" using D(7) by simp
  from e consider "e = Timeout w" | "e = Dump w" | "e = Decide w" by auto
  then show ?thesis
  proof cases
    case 1
    have "call_ok N a (?w\<lparr>call_pc := CTimedOut\<rparr>)" using ok by (simp add: call_ok_def)
    from inv_set_call [OF inv w this] 1 show ?thesis by (simp add: sys_exec_def)
  next
    case 2
    have "call_ok N a (?w\<lparr>call_pc := CDefer (Submit_timeout rf)\<rparr>)" for rf
      using ok by (simp add: call_ok_def Submit_timeout_def)
    from inv_set_call [OF inv w this] 2 show ?thesis by (simp add: sys_exec_def)
  next
    case 3
    then obtain msg where m: "call_pc ?w = CGot msg"
      using po by (auto simp: sys_possible_def dest!: call_atD split: option.splits call_pc.splits)
    have "call_ok N a (?w\<lparr>call_pc := CDefer (Submit_receive rf (call_id ?w) msg)\<rparr>)" for rf
      using ok m by (auto simp: call_ok_def Submit_receive_def answer_ok_def split: option.splits)
    from inv_set_call [OF inv w this] 3 m show ?thesis by (simp add: sys_exec_def)
  qed
qed

lemma rep_ok_sub:
  assumes "rep_ok N a n rsm pc k" "rsm_sm rsm' = rsm_sm rsm" "rsm_lastApplied rsm' = rsm_lastApplied rsm"
    "set (pending rsm') \<subseteq> set (pending rsm)"
  shows "rep_ok N a n rsm' pc k"
  using assms pending_ok_subset [of n rsm rsm'] unfolding rep_ok_def by simp

lemma inv_finish:
  assumes inv: "sys_inv N a s" and po: "sys_possible (Finish w) s"
  shows "\<exists>s'. sys_exec bs (Finish w) s = Some s' \<and> sys_inv N a s'"
proof -
  note D = sys_invD [OF inv]
  let ?w = "calls s ! w" and ?p = "call_node (calls s ! w)"
  obtain r where w: "w < length (calls s)" "call_pc ?w = CDefer r"
    using po by (auto simp: sys_possible_def dest!: call_atD split: option.splits call_pc.splits)
  then have ok: "call_ok N a ?w" using D(7) by simp
  then have p: "?p \<in> node_set N" by (simp add: call_ok_def)
  let ?R = "(replica s ?p)\<lparr>rep_rsm := Submit_defer (rep_rsm (replica s ?p)) (call_index ?w)\<rparr>"
  let ?s = "set_call w (CDone r) (set_replica ?p ?R s)"
  have sub: "set (AList.delete k es) \<subseteq> set es" for k and es :: "(int \<times> pendingEntry) list"
    by (auto simp: AList.delete_eq)
  have "sys_inv N a ?s"
  proof (rule inv_local [OF inv, where q = ?p])
    show "replica_ok N a ?s ?p"
      using p D(3) sub rep_ok_sub
      by (intro replica_ok_step [OF D(2) aext_refl D(6) [OF p]]) (auto simp: Submit_defer_def)
    have "call_ok N a (?w\<lparr>call_pc := CDone r\<rparr>)" using ok w(2) by (auto simp: call_ok_def)
    then show "\<forall>v \<in> set (calls ?s). call_ok N a v"
      using set_call_ok [OF inv w(1)] by (simp add: set_call_def)
  qed (use p D(3) in simp_all)
  then show ?thesis using w(2) by (simp add: sys_exec_def Let_def)
qed

section \<open>The reader\<close>

lemma notifyOutdated_ok:
  assumes "notifyOutdated rsm rf i = (sends, rsm')" "pending_ok n rsm"
  shows "sends_ok N a n sends" "pending_ok n rsm'" "rsm_sm rsm' = rsm_sm rsm"
    "rsm_lastApplied rsm' = rsm_lastApplied rsm"
  using assms unfolding notifyOutdated_def sends_ok_def pending_ok_def by auto

lemma notifyPending_ok:
  assumes "notifyPending rsm rf index i val = (sends, rsm')" "pending_ok n rsm" "explained N a i val"
  shows "sends_ok N a n sends" "pending_ok n rsm'" "rsm_sm rsm' = rsm_sm rsm"
    "rsm_lastApplied rsm' = rsm_lastApplied rsm"
proof -
  have e: "pe_ch e < n" if "map_of (pending rsm) index = Some e" for e
    using assms(2) map_of_SomeD [OF that] unfolding pending_ok_def by fastforce
  show "sends_ok N a n sends"
    using assms(1,3) e
    by (auto simp: notifyPending_def State_def sends_ok_def answer_ok_def retry_result_def split: option.splits if_splits)
  have "set (pending rsm') \<subseteq> set (pending rsm)"
    using assms(1) by (auto simp: notifyPending_def State_def AList.delete_eq split: option.splits)
  then show "pending_ok n rsm'" by (rule pending_ok_subset [OF assms(2)])
  show "rsm_sm rsm' = rsm_sm rsm" "rsm_lastApplied rsm' = rsm_lastApplied rsm"
    using assms(1) by (auto simp: notifyPending_def State_def split: option.splits)
qed

text \<open>The next message is received: no message is skipped and none is executed twice.\<close>

lemma receive_ok:
  assumes "ainv N a" "rep_ok N a n rsm RIdle k" "chain N a k (m # ms) l"
  shows "\<exists>rsm' pc k'. reader_receive rsm rf m = Some (rsm', pc) \<and> rep_ok N a n rsm' pc k' \<and> chain N a k' ms l"
proof -
  obtain X where X: "com N a X" "rsm_sm rsm = final X" "int (length X) = k + 1"
    and r: "rsm_lastApplied rsm \<le> k" "pending_ok n rsm"
    using assms(2) by (auto simp: rep_ok_def pc_ok_def)
  from assms(3) consider (cmd) "next_cmd N a k m" "chain N a (k + 1) ms l"
    | (snap) "next_snap N a k m" "chain N a (SnapshotIndex m) ms l" by auto
  then show ?thesis
  proof cases
    case cmd
    then obtain X' e where e: "com N a (X' @ [e])" "X' \<noteq> []" "int (length X') = k + 1" "m = command_msg e"
      "Index e = k + 1" by (auto simp: next_cmd_def)
    have "com N a X'" using com_prefix [OF e(1)] e(2) by simp
    then have "X' = X"
      using com_prefix_of [OF assms(1) _ X(1), of X'] X(3) e(3)
      by (metis append_eq_conv_conj of_nat_eq_iff order_refl prefix_def take_all)
    then have c: "com N a (X @ [e])" using e(1) by simp
    have m: "\<not> SnapshotValid m" "CommandValid m" "CommandIndex m = k + 1" "am_Command m = Command e"
      using e(4,5) by (simp_all add: command_msg_def zero_ApplyMsg_def)
    show ?thesis
    proof (cases "\<exists>j i req. Command e = Op j i req")
      case True
      then obtain j i req where o: "Command e = Op j i req" by blast
      have "reader_receive rsm rf m = Some (rsm\<lparr>rsm_lastApplied := k + 1\<rparr>, RExec (k + 1) i req)"
        using m o r(1) by (simp add: reader_receive_def handleCommand_enter_def)
      moreover have "rep_ok N a n (rsm\<lparr>rsm_lastApplied := k + 1\<rparr>) (RExec (k + 1) i req) (k + 1)"
        using X c o r(2) by (auto simp: rep_ok_def pc_ok_def pending_ok_def)
      ultimately show ?thesis using cmd(2) by blast
    next
      case False
      have "reader_receive rsm rf m = Some (rsm, RIdle)"
        using m False by (simp add: reader_receive_def handleCommand_enter_def split: any.splits)
      moreover have "rep_ok N a n rsm RIdle (k + 1)"
        unfolding rep_ok_def using X(2,3) c r final_skip [of e X] False
        by (intro conjI exI [of _ "X @ [e]"]) (auto simp: pc_ok_def)
      ultimately show ?thesis using cmd(2) by blast
    qed
  next
    case snap
    then obtain Y where Y: "com N a Y" "int (length Y) = SnapshotIndex m + 1"
      "am_Snapshot m = store_Snapshot (final Y)" "SnapshotValid m" "k < SnapshotIndex m"
      by (auto simp: next_snap_def store_pred_def)
    have "prefix X Y" by (rule com_prefix_of [OF assms(1) X(1) Y(1)]) (use X(3) Y(2,5) in linarith)
    then have rs: "Restore (rsm_sm rsm) (am_Snapshot m) = Some (final Y)"
      using Restore_final X(2) Y(3) by simp
    let ?r = "rsm\<lparr>rsm_sm := final Y, rsm_lastApplied := SnapshotIndex m\<rparr>"
    obtain sends rsm' where o: "notifyOutdated ?r rf (SnapshotIndex m) = (sends, rsm')" by fastforce
    have "pending_ok n ?r" using r(2) by (simp add: pending_ok_def)
    note no = notifyOutdated_ok [OF o this]
    have "reader_receive rsm rf m = Some (rsm', RSend sends KUnlock)"
      using Y(4) rs o by (simp add: reader_receive_def handleSnapshot_def)
    moreover have "rep_ok N a n rsm' (RSend sends KUnlock) (SnapshotIndex m)"
      using no Y(1,2) by (auto simp: rep_ok_def pc_ok_def rest_ok_def)
    ultimately show ?thesis using snap(2) by blast
  qed
qed

text \<open>The other steps of a handler.\<close>

lemma advance_ok:
  assumes "rep_ok N a n rsm pc k" "pc \<noteq> RIdle" "\<And>x xs r. pc \<noteq> RSend (x # xs) r"
    "\<And>i d. pc \<noteq> RSend [] (KTake i d)"
  shows "\<exists>rsm' pc'. reader_advance bs rsm rf pc = Some (rsm', pc') \<and> rep_ok N a n rsm' pc' k"
proof -
  obtain X where X: "com N a X" "rsm_sm rsm = final X" "pc_ok N a n X k pc"
    and r: "rsm_lastApplied rsm \<le> k" "pending_ok n rsm"
    using assms(1) by (auto simp: rep_ok_def)
  show ?thesis
  proof (cases pc)
    case (RExec index i req)
    then obtain e m where e: "com N a (X @ [e])" "Command e = Op m i req" "index = k" "int (length X) = k"
      using X(3) by (auto simp: pc_ok_def)
    let ?v = "fst (DoOp (final X) req)" and ?s = "snd (DoOp (final X) req)"
    have "explained_at (X @ [e]) (length X) i req ?v" using e(2) by (auto simp: explained_at_def)
    then have "explained N a i ?v" using e(1) unfolding explained_def by blast
    then have "rep_ok N a n (rsm\<lparr>rsm_sm := ?s\<rparr>) (RNotify index i ?v) k"
      unfolding rep_ok_def using e(1,3,4) r final_snoc [OF e(2), of X]
      by (intro conjI exI [of _ "X @ [e]"]) (auto simp: pc_ok_def pending_ok_def)
    then show ?thesis using RExec X(2) by (simp add: reader_advance_def split_beta)
  next
    case (RNotify index i val)
    then have p: "index = k" "int (length X) = k + 1" "explained N a i val" using X(3) by (simp_all add: pc_ok_def)
    obtain sends rsm' where n: "notifyPending rsm rf index i val = (sends, rsm')" by fastforce
    note no = notifyPending_ok [OF n r(2) p(3)]
    have "rep_ok N a n rsm' (RSend sends (KOutdated index)) k"
      using no X(1,2) p r(1) by (auto simp: rep_ok_def pc_ok_def rest_ok_def)
    then show ?thesis using RNotify n by (simp add: reader_advance_def)
  next
    case (RSend sends rest)
    then have s: "sends = []" using assms(3) by (cases sends) auto
    have p: "int (length X) = k + 1" "rest_ok k (final X) rest" using X(3) RSend by (simp_all add: pc_ok_def)
    have base: "rep_ok N a n rsm (RSend [] rest') k" if "rest_ok k (final X) rest'" for rest'
      using that X(1,2) p(1) r by (auto simp: rep_ok_def pc_ok_def sends_ok_def)
    have idle: "rep_ok N a n rsm RIdle k" using X(1,2) p(1) r by (auto simp: rep_ok_def pc_ok_def)
    show ?thesis
    proof (cases rest)
      case (KOutdated i)
      obtain sends' rsm' where o: "notifyOutdated rsm rf i = (sends', rsm')" by fastforce
      note no = notifyOutdated_ok [OF o r(2)]
      have "rep_ok N a n rsm' (RSend sends' (KCheck i)) k"
        using no X(1,2) p KOutdated r(1) by (auto simp: rep_ok_def pc_ok_def rest_ok_def)
      then show ?thesis using RSend s KOutdated o by (simp add: reader_advance_def)
    next
      case (KCheck i)
      then have "rest_ok k (final X) (KTake i (store_Snapshot (rsm_sm rsm)))"
        using p(2) X(2) by (simp add: rest_ok_def)
      then show ?thesis
        using base idle RSend s KCheck by (auto simp: reader_advance_def checkSnapshot_def)
    next
      case (KTake i d)
      then show ?thesis using assms(4) RSend s by blast
    next
      case KUnlock
      then show ?thesis using idle RSend s by (simp add: reader_advance_def)
    qed
  qed (use assms(2) in simp)
qed

lemma inv_set_replica:
  assumes "sys_inv N a s" "p \<in> node_set N" "replica_ok N a (set_replica p r s) p"
  shows "sys_inv N a (set_replica p r s)"
  by (rule inv_local [OF assms(1), where q = p])
    (use assms(2,3) sys_invD(3,7) [OF assms(1)] in simp_all)

lemma inv_reader_receive:
  assumes inv: "sys_inv N a s" and p: "p \<in> node_set N" and pc: "rep_pc (replica s p) = RIdle"
    and ne: "unread s p \<noteq> []"
  shows "\<exists>s'. exec_reader bs p s = Some s' \<and> sys_inv N a s'"
proof -
  note D = sys_invD [OF inv]
  let ?r = "replica s p" and ?rf = "node (cl s) p" and ?n = "length (calls s)"
  obtain m ms where u: "unread s p = m # ms" using ne by (cases "unread s p") auto
  obtain k where k: "rep_ok N a ?n (rep_rsm ?r) RIdle k" "chain N a k (m # ms) (lastApplied ?rf)"
    using D(6) [OF p] pc u unfolding replica_ok_def by auto
  obtain rsm pc' k' where r: "reader_receive (rep_rsm ?r) ?rf m = Some (rsm, pc')" "rep_ok N a ?n rsm pc' k'"
    "chain N a k' ms (lastApplied ?rf)"
    using receive_ok [OF D(2) k] by blast
  let ?s = "set_replica p \<lparr>rep_rsm = rsm, rep_pc = pc', rep_read = Suc (rep_read ?r)\<rparr> s"
  have d: "drop (rep_read ?r) (applied (cl s) ! nat p) = m # ms" using u by (simp add: unread_def)
  then have "drop (Suc (rep_read ?r)) (applied (cl s) ! nat p) = ms" by (metis drop_Suc drop_tl list.sel(3))
  moreover have "rep_read ?r < length (applied (cl s) ! nat p)" using d by (metis drop_eq_Nil2 list.distinct(1) not_le)
  ultimately have "replica_ok N a ?s p"
    using r(2,3) p D(3) by (auto simp: replica_ok_def unread_def)
  then have "sys_inv N a ?s" by (rule inv_set_replica [OF inv p])
  then show ?thesis using r(1) pc u by (simp add: exec_reader_def Let_def)
qed

lemma inv_reader_send:
  assumes inv: "sys_inv N a s" and p: "p \<in> node_set N"
    and pc: "rep_pc (replica s p) = RSend ((ch, res) # sends) rest"
  shows "\<exists>s'. exec_reader bs p s = Some s' \<and> sys_inv N a s'"
proof -
  note D = sys_invD [OF inv]
  let ?s = "set_replica p ((replica s p)\<lparr>rep_pc := RSend sends rest\<rparr>) s"
  have step: "rep_ok N a n rsm (RSend sends rest) k" if "rep_ok N a n rsm (RSend ((ch, res) # sends) rest) k"
    for n rsm k using that by (auto simp: rep_ok_def pc_ok_def sends_ok_def)
  have "replica_ok N a ?s p"
    using p D(3) pc step by (intro replica_ok_step [OF D(2) aext_refl D(6) [OF p]]) auto
  then have s1: "sys_inv N a ?s" by (rule inv_set_replica [OF inv p])
  have c: "ch < length (calls s)" "answer_ok N a res"
    using D(6) [OF p] pc by (auto simp: replica_ok_def rep_ok_def pc_ok_def sends_ok_def)
  then have "call_ok N a (calls s ! ch)" using D(7) by simp
  then have "call_ok N a ((calls s ! ch)\<lparr>call_pc := CGot (Some res)\<rparr>)" using c(2) by (simp add: call_ok_def)
  then have "sys_inv N a (set_call ch (CGot (Some res)) ?s)"
    using inv_set_call [OF s1] c(1) by simp
  then show ?thesis using pc by (simp add: exec_reader_def Let_def)
qed

lemma inv_reader_take:
  assumes inv: "sys_inv N a s" and p: "p \<in> node_set N"
    and pc: "rep_pc (replica s p) = RSend [] (KTake i d)"
  shows "\<exists>s' b. exec_reader bs p s = Some s' \<and> asteps N a b \<and> sys_inv N b s'"
proof -
  note D = sys_invD [OF inv]
  let ?e = "TakeSnapshot p i d" and ?rf = "node (cl s) p"
  obtain X where X: "com N a X" "int (length X) = i + 1" "d = store_Snapshot (final X)"
    using D(6) [OF p] pc by (auto simp: replica_ok_def rep_ok_def pc_ok_def rest_ok_def)
  have snap: "store_pred (take (nat (i + 1)) (alog a p)) d" if i: "i \<le> commitIndex ?rf"
  proof -
    let ?M = "take (nat (i + 1)) (alog a p)"
    have b: "commitIndex ?rf < int (length (alog a p))"
      "cprefix N a (currentTerm ?rf) (take (nat (commitIndex ?rf + 1)) (alog a p))"
      using D(9) [OF p] by (simp_all add: node_base_def)
    have l: "length ?M = length X" using X(2) b(1) i by simp
    then have "?M \<noteq> []" using X(1) by (auto simp: com_def)
    moreover have "prefix ?M (take (nat (commitIndex ?rf + 1)) (alog a p))" using i by (intro prefix_take_mono) simp
    ultimately have "com N a ?M" using b(2) cprefix_prefix unfolding com_def by blast
    then have "prefix ?M X" using com_prefix_of [OF D(2) _ X(1)] l by simp
    then have "?M = X" using l by (auto simp: prefix_conv_take)
    then show ?thesis using X(3) by (simp add: store_pred_def)
  qed
  have po: "possible ?e (cl s)" using p is_node_iff [OF D(4)] by (simp add: possible_def)
  obtain c b where c: "exec ?e (cl s) = Some c" "sim_step N store_pred {} a (cl s) c b"
    using sim_exec [OF D(1) po] snap by (auto simp: created_def)
  have st: "asteps N a b" "aext a b" "sim N store_pred b c" "known b \<subseteq> known a"
    using c(2) asteps_aext [OF _ D(2)] by (auto simp: sim_step_def)
  have la: "lastApplied (node c q) = lastApplied (node (cl s) q)" if "q \<in> node_set N" for q
    by (rule exec_applied [OF c(1)]) (use that in \<open>auto simp: node_set_def restarted_by_def\<close>)
  have ap: "applied c = applied (cl s)" by (rule exec_messages [OF c(1)]) simp
  let ?s = "set_replica p ((replica s p)\<lparr>rep_pc := RIdle\<rparr>) (s\<lparr>cl := c\<rparr>)"
  have step: "rep_ok N b n rsm RIdle k" if "rep_ok N a n rsm (RSend [] (KTake i d)) k" for n rsm k
  proof -
    have "rep_ok N a n rsm RIdle k" using that by (auto simp: rep_ok_def pc_ok_def)
    then show ?thesis by (rule rep_ok_mono [OF D(2) st(2) order_refl])
  qed
  have "sys_inv N b ?s"
  proof (rule inv_parts [OF inv st(1), where q = p])
    show "replica_ok N b ?s p"
      using p D(3) pc step ap la [OF p] by (intro replica_ok_step [OF D(2) st(2) D(6) [OF p]]) auto
    show "\<forall>w \<in> set (calls ?s). call_ok N b w" using call_ok_aext [OF D(2) st(2)] D(7) by simp
    have "submitted ?s = submitted s" by (simp add: submitted_def)
    then show "ids_ok b (submitted ?s)" using ids_ok_sub [OF D(8) st(4)] by simp
  qed (use p D(3) st(3) ap la in simp_all)
  then show ?thesis using c(1) pc st(1) by (auto simp: exec_reader_def Let_def)
qed

lemma inv_reader_advance:
  assumes inv: "sys_inv N a s" and p: "p \<in> node_set N"
    and pc: "pc = rep_pc (replica s p)" "pc \<noteq> RIdle" "\<And>x xs r. pc \<noteq> RSend (x # xs) r"
      "\<And>i d. pc \<noteq> RSend [] (KTake i d)"
  shows "\<exists>s'. exec_reader bs p s = Some s' \<and> sys_inv N a s'"
proof -
  note D = sys_invD [OF inv]
  let ?r = "replica s p" and ?rf = "node (cl s) p" and ?n = "length (calls s)"
  obtain k where k: "rep_ok N a ?n (rep_rsm ?r) pc k" "chain N a k (unread s p) (lastApplied ?rf)"
    "rep_read ?r \<le> length (applied (cl s) ! nat p)"
    using D(6) [OF p] pc(1) unfolding replica_ok_def by auto
  obtain rsm pc' where r: "reader_advance bs (rep_rsm ?r) ?rf pc = Some (rsm, pc')" "rep_ok N a ?n rsm pc' k"
    using advance_ok [OF k(1) pc(2-4)] by blast
  let ?s = "set_replica p (?r\<lparr>rep_rsm := rsm, rep_pc := pc'\<rparr>) s"
  have "replica_ok N a ?s p"
    using r(2) k(2,3) p D(3) by (auto simp: replica_ok_def unread_def)
  then have "sys_inv N a ?s" by (rule inv_set_replica [OF inv p])
  moreover have "exec_reader bs p s = Some ?s"
    using r(1) pc by (auto simp: exec_reader_def Let_def split: reader_pc.splits reader_rest.splits list.splits)
  ultimately show ?thesis by blast
qed

section \<open>Every step\<close>

lemma inv_step:
  assumes inv: "sys_inv N a s" and po: "sys_possible e s"
  shows "\<exists>s' b. sys_exec bs e s = Some s' \<and> asteps N a b \<and> sys_inv N b s'"
proof (cases e)
  case (Net e')
  then show ?thesis
    using inv_net_plain [OF inv] inv_net_restart [OF inv] po
    by (cases "restarted_by e' (cl s)") (auto simp: sys_exec_def)
next
  case (Call p i req)
  then show ?thesis using inv_call [OF inv] po by (simp add: sys_exec_def)
next
  case (Reader p)
  then have p: "p \<in> node_set N" "reader_possible s p"
    using po is_node_iff [OF sys_invD(4) [OF inv]] by (auto simp: sys_possible_def)
  consider (idle) "rep_pc (replica s p) = RIdle"
    | (send) ch res sends rest where "rep_pc (replica s p) = RSend ((ch, res) # sends) rest"
    | (take) i d where "rep_pc (replica s p) = RSend [] (KTake i d)"
    | (adv) "rep_pc (replica s p) \<noteq> RIdle" "\<And>x xs r. rep_pc (replica s p) \<noteq> RSend (x # xs) r"
        "\<And>i d. rep_pc (replica s p) \<noteq> RSend [] (KTake i d)"
    by (metis surj_pair)
  then show ?thesis
  proof cases
    case idle
    then have "unread s p \<noteq> []" using p(2) by (simp add: reader_possible_def)
    from inv_reader_receive [OF inv p(1) idle this] Reader show ?thesis
      unfolding sys_exec_def by (simp, blast)
  next
    case send
    from inv_reader_send [OF inv p(1) send] Reader show ?thesis
      unfolding sys_exec_def by (simp, blast)
  next
    case take
    from inv_reader_take [OF inv p(1) take] Reader show ?thesis by (simp add: sys_exec_def)
  next
    case adv
    from inv_reader_advance [OF inv p(1) refl adv] Reader show ?thesis
      unfolding sys_exec_def by (simp, blast)
  qed
next
  case (Finish w)
  then show ?thesis using inv_finish [OF inv] po by blast
qed (use inv_waiting [OF inv _ po] in blast)+

lemma inv_init:
  assumes "erand \<noteq> 0"
  shows "sys_inv N ainit (init_system N mx emin erand hb)"
proof -
  let ?s = "init_system N mx emin erand hb"
  have r: "replica ?s p = init_replica mx p" "applied (cl ?s) ! nat p = []" "lastApplied (node (cl ?s) p) = 0"
    if "p \<in> node_set N" for p
  proof -
    have "nat p < N" "int (nat p) = p" using that by (auto simp: node_set_def)
    then show "replica ?s p = init_replica mx p" "applied (cl ?s) ! nat p = []"
      "lastApplied (node (cl ?s) p) = 0"
      by (simp_all add: replica_def init_system_def init_cluster_def node_def init_node_def fresh_Raft_def)
  qed
  have "rep_ok N ainit 0 (rep_rsm (init_replica mx p)) RIdle 0" for p
    unfolding rep_ok_def using com_zero [OF ainit_ainv]
    by (intro conjI exI [of _ "[zero_Entry]"]) (simp_all add: pc_ok_def init_replica_def pending_ok_def)
  then have "replica_ok N ainit ?s p" if "p \<in> node_set N" for p
    using r [OF that] by (auto simp: replica_ok_def unread_def init_replica_def init_system_def)
  moreover have "op_of e = []" if "e \<in> known ainit" for e
  proof -
    have "e = zero_Entry" using that by (auto simp: known_def ainit_def)
    then show ?thesis by (simp add: op_of_def zero_Entry_def)
  qed
  then have "ids_ok ainit (submitted ?s)" by (simp add: ids_ok_def submitted_def init_system_def)
  moreover have "sim N store_pred ainit (cl ?s)" using sim_init [OF assms] by (simp add: init_system_def)
  ultimately show ?thesis by (simp add: sys_inv_def) (simp add: init_system_def)
qed

lemma reachable_inv:
  assumes "sys_reachable bs N s"
  shows "\<exists>a. sys_inv N a s"
  using assms
proof induction
  case (start erand mx emin hb)
  then show ?case using inv_init by blast
next
  case (step s e s')
  then show ?case using inv_step by (metis option.inject)
qed

lemma exec_all_inv:
  assumes "sys_inv N a s" "sys_exec_all bs es s = Some s'"
  shows "\<exists>b. asteps N a b \<and> sys_inv N b s'"
  using assms
proof (induction es arbitrary: a s)
  case (Cons e es)
  then have p: "sys_possible e s" by (simp split: if_splits)
  obtain d b where d: "sys_exec bs e s = Some d" "asteps N a b" "sys_inv N b d"
    using inv_step [OF Cons.prems(1) p] by blast
  then have "sys_exec_all bs es d = Some s'" using Cons.prems(2) p by simp
  then obtain b' where "asteps N b b'" "sys_inv N b' s'" using Cons.IH [OF d(3)] by blast
  with d(2) show ?case using rtranclp_trans by fastforce
qed auto

end
