(* ===== verification/System_Safety.thy ===== *)
theory System_Safety
  imports System_Step
begin

text \<open>
  The theorems about the whole service: the answers that clients get are those of one
  sequence of operations that all replicas execute, in an order that respects real time;
  no step of the service panics; and what happens when a call times out while the reader
  holds the lock.
\<close>

section \<open>Concrete runs\<close>

text \<open>The calls that have returned \<open>OK\<close>: identifier, request, answer.\<close>

definition answer_of :: "call \<Rightarrow> (64 word \<times> any \<times> any) list" where
  "answer_of w =
     (case call_pc w of
        CDone (e, v) \<Rightarrow> if e = OK then [(call_id w, call_req w, v)] else []
      | _ \<Rightarrow> [])"

definition answered :: "system \<Rightarrow> (64 word \<times> any \<times> any) list" where
  "answered s = concat (map answer_of (calls s))"

definition sys_run :: "system \<Rightarrow> sys_event list \<Rightarrow> system" where
  "sys_run s es = (case sys_exec_all (\<lambda>_. 0) es s of Some s' \<Rightarrow> s' | None \<Rightarrow> s)"

text \<open>
  Server 0 is elected, a \<open>Put\<close> arrives, is replicated to server 1, committed, executed and
  answered; a \<open>Get\<close> at the same server is started.
\<close>

definition sys_start :: system where
  "sys_start = init_system 3 (-1) 600 400 100"

definition sys_put :: "sys_event list" where
  "sys_put = [Net (ElectionTimeout 0), Net (Run 0), Net (Run 0),
     Call 0 7 (AnyPutArgs \<lparr>pa_Key = ''k'', pa_Value = ''v'', pa_Version = 0\<rparr>),
     Net (Replicator 0 1), Net (Run 3), Net (Run 3), Net (Apply 0),
     Reader 0, Reader 0, Reader 0, Reader 0, Reader 0, Reader 0, Decide 0, Finish 0]"

definition sys_demo :: system where
  "sys_demo = sys_run sys_start sys_put"

text \<open>The same, but the call times out after the reader has taken the lock.\<close>

definition sys_late :: "sys_event list" where
  "sys_late = [Net (ElectionTimeout 0), Net (Run 0), Net (Run 0),
     Call 0 7 (AnyPutArgs \<lparr>pa_Key = ''k'', pa_Value = ''v'', pa_Version = 0\<rparr>),
     Net (Replicator 0 1), Net (Run 3), Net (Run 3), Net (Apply 0),
     Reader 0, Reader 0, Reader 0, Timeout 0]"

definition sys_stuck :: system where
  "sys_stuck = sys_run sys_start sys_late"

section \<open>One order of the operations\<close>

lemma com_upper:
  assumes "ainv N a" "finite S" "\<forall>X \<in> S. com N a X"
  shows "\<exists>Z. com N a Z \<and> (\<forall>X \<in> S. prefix X Z)"
  using assms(2,3)
proof (induction rule: finite_induct)
  case empty
  then show ?case using com_zero [OF assms(1)] by blast
next
  case (insert X S)
  then obtain Z where Z: "com N a Z" "\<forall>X \<in> S. prefix X Z" by auto
  then show ?case
    using com_chain [OF assms(1), of X Z] insert.prems prefix_order.trans by (metis insert_iff prefix_order.refl)
qed

lemma com_upper_choice:
  assumes "ainv N a" "finite A" "\<And>x. x \<in> A \<Longrightarrow> \<exists>X. com N a X \<and> P x X"
  shows "\<exists>Z. com N a Z \<and> (\<forall>x \<in> A. \<exists>X. prefix X Z \<and> P x X)"
proof -
  obtain f where f: "\<And>x. x \<in> A \<Longrightarrow> com N a (f x) \<and> P x (f x)" using assms(3) by metis
  obtain Z where "com N a Z" "\<forall>X \<in> f ` A. prefix X Z"
    using com_upper [OF assms(1), of "f ` A"] assms(2) f by blast
  with f show ?thesis by blast
qed

lemma explained_at_prefix:
  assumes "explained_at X k i req v" "prefix X Y"
  shows "explained_at Y k i req v"
proof -
  have "Y ! k = X ! k" "take k Y = take k X" "length X \<le> length Y"
    using assms prefix_nth [OF assms(2)] prefix_take_eq [OF assms(2)] prefix_length_le
    by (auto simp: explained_at_def)
  with assms(1) show ?thesis by (simp add: explained_at_def)
qed

text \<open>The place of an operation among the operations of a log.\<close>

lemma op_place:
  assumes "k < length Y" "Command (Y ! k) = Op m i req"
  shows "length (ops (take k Y)) < length (ops Y)" "ops Y ! length (ops (take k Y)) = (i, req)"
    "take (length (ops (take k Y))) (ops Y) = ops (take k Y)"
proof -
  have "ops Y = ops (take k Y @ Y ! k # drop (Suc k) Y)" using assms(1) by (simp add: id_take_nth_drop [symmetric])
  also have "\<dots> = ops (take k Y) @ (i, req) # ops (drop (Suc k) Y)"
    using assms(2) by (simp add: ops_def op_of_def)
  finally have e: "ops Y = ops (take k Y) @ (i, req) # ops (drop (Suc k) Y)" .
  show "length (ops (take k Y)) < length (ops Y)" "ops Y ! length (ops (take k Y)) = (i, req)"
    "take (length (ops (take k Y))) (ops Y) = ops (take k Y)"
    by (subst e, simp)+
qed

lemma ops_prefix: "prefix X Y \<Longrightarrow> ops X = take (length (ops X)) (ops Y) \<and> length (ops X) \<le> length (ops Y)"
  by (auto simp: prefix_def)

lemma answer_place:
  assumes "explained_at Y k i req v" "prefix Z Y"
  defines "k' \<equiv> length (ops (take k Y))"
  shows "k' < length (ops Y) \<and> ops Y ! k' = (i, req) \<and>
      v = fst (DoOp (do_ops NewStore (map snd (take k' (ops Y)))) req)"
    "k < length Z \<Longrightarrow> k' < length (ops Z)" "length Z \<le> k \<Longrightarrow> length (ops Z) \<le> k'"
proof -
  obtain j where k: "k < length Y" "Command (Y ! k) = Op j i req" "v = fst (DoOp (final (take k Y)) req)"
    using assms(1) by (auto simp: explained_at_def)
  show "k' < length (ops Y) \<and> ops Y ! k' = (i, req) \<and>
      v = fst (DoOp (do_ops NewStore (map snd (take k' (ops Y)))) req)"
    using op_place [OF k(1,2)] k(3) by (simp add: final_def k'_def)
  show "k' < length (ops Z)" if "k < length Z"
    using op_place(1) [OF that, of j i req] k(2) that prefix_take_eq [OF assms(2), of k] prefix_nth [OF assms(2) that]
    by (simp add: k'_def)
  show "length (ops Z) \<le> k'" if "length Z \<le> k"
  proof -
    have "prefix Z (take k Y)" using that assms(2) by (auto simp: prefix_def)
    from ops_prefix [OF this] show ?thesis by (simp add: k'_def)
  qed
qed

lemma ops_distinct:
  assumes "ids_ok a subs" "set Y \<subseteq> known a" "distinct Y"
  shows "distinct (map fst (ops Y))"
  using assms(2,3)
proof (induction Y rule: rev_induct)
  case (snoc e Y)
  have dj: "fst x \<notin> fst ` set (ops Y)" if x: "x \<in> set (op_of e)" for x
  proof
    assume "fst x \<in> fst ` set (ops Y)"
    then obtain e' y where "e' \<in> set Y" "y \<in> set (op_of e')" "fst x = fst y" by (auto simp: ops_def)
    moreover have "e \<in> known a" using snoc.prems(1) by simp
    moreover from calculation(1) have "e' \<in> known a" using snoc.prems(1) by auto
    ultimately have "e = e'" using assms(1) x unfolding ids_ok_def by blast
    with \<open>e' \<in> set Y\<close> show False using snoc.prems(2) by simp
  qed
  have "set (map fst (ops Y)) \<inter> set (map fst (op_of e)) = {}"
  proof (rule equals0I)
    fix y assume "y \<in> set (map fst (ops Y)) \<inter> set (map fst (op_of e))"
    then have y: "y \<in> fst ` set (ops Y)" "y \<in> fst ` set (op_of e)" by simp_all
    from y(2) obtain x where "x \<in> set (op_of e)" "y = fst x" by blast
    with dj [of x] y(1) show False by simp
  qed
  moreover have "distinct (map fst (op_of e))" by (auto simp: op_of_def split: any.splits)
  moreover have "distinct (map fst (ops Y))" using snoc by simp
  ultimately show ?case by simp
qed simp

lemma wfl_distinct:
  assumes "wfl a Y"
  shows "distinct Y"
proof -
  have "i = j" if "i < length Y" "j < length Y" "Y ! i = Y ! j" for i j
  proof -
    have "int i = Index (Y ! i)" "int j = Index (Y ! j)" using assms that unfolding wfl_def by metis+
    then show ?thesis using that(3) by simp
  qed
  then show ?thesis unfolding distinct_conv_nth by blast
qed

lemma answered_explained:
  assumes "sys_inv N a s" "(i, req, v) \<in> set (answered s)"
  shows "\<exists>X. com N a X \<and> (\<exists>k. explained_at X k i req v)" "i \<in> fst ` set (submitted s)"
proof -
  note D = sys_invD [OF assms(1)]
  obtain w where w: "w \<in> set (calls s)" "call_pc w = CDone (OK, v)" "call_id w = i" "call_req w = req"
    using assms(2) by (auto simp: answered_def answer_of_def split: call_pc.splits if_splits)
  have sub: "(i, req) \<in> set (submitted s)" using w by (force simp: submitted_def)
  then show "i \<in> fst ` set (submitted s)" by force
  obtain X k req' where X: "com N a X" "explained_at X k i req' v"
    using D(7) [OF w(1)] w(2,3) by (auto simp: call_ok_def explained_def)
  then have "X ! k \<in> known a" "(i, req') \<in> set (op_of (X ! k))"
    using com_known [OF D(2) X(1)] by (auto simp: explained_at_def op_of_def)
  then have "(i, req') \<in> set (submitted s)" using D(8) unfolding ids_ok_def by blast
  then have "req' = req" using D(8) sub unfolding ids_ok_def by (metis eq_key_imp_eq_value)
  with X show "\<exists>X. com N a X \<and> (\<exists>k. explained_at X k i req v)" by blast
qed

text \<open>A committed log that explains every answer and every store of a state.\<close>

lemma linear_log:
  assumes inv: "sys_inv N a s" and W: "com N a W"
  shows "\<exists>Z. com N a Z \<and> prefix W Z \<and> (\<forall>p \<in> node_set N. \<exists>X. prefix X Z \<and> store_of s p = final X) \<and>
    (\<forall>(i, req, v) \<in> set (answered s). \<exists>k. explained_at Z k i req v)"
proof -
  note D = sys_invD [OF inv]
  have st: "\<exists>X. com N a X \<and> store_of s p = final X" if "p \<in> node_set N" for p
    using D(6) [OF that] by (auto simp: replica_ok_def rep_ok_def store_of_def)
  obtain Z1 where Z1: "com N a Z1" "\<forall>p \<in> node_set N. \<exists>X. prefix X Z1 \<and> store_of s p = final X"
    using com_upper_choice [OF D(2) finite_node_set, of N "\<lambda>p X. store_of s p = final X"] st by blast
  have an: "\<exists>X. com N a X \<and> (\<exists>k. explained_at X k (fst x) (fst (snd x)) (snd (snd x)))"
    if "x \<in> set (answered s)" for x
    using answered_explained(1) [OF inv, of "fst x" "fst (snd x)" "snd (snd x)"] that by simp
  obtain Z2 where Z2: "com N a Z2" "\<forall>x \<in> set (answered s). \<exists>X. prefix X Z2 \<and>
      (\<exists>k. explained_at X k (fst x) (fst (snd x)) (snd (snd x)))"
    using com_upper_choice [OF D(2) finite_set, of "answered s"
      "\<lambda>x X. \<exists>k. explained_at X k (fst x) (fst (snd x)) (snd (snd x))"] an by blast
  obtain Z where Z: "com N a Z" "\<forall>X \<in> {W, Z1, Z2}. prefix X Z"
    using com_upper [OF D(2), of "{W, Z1, Z2}"] W Z1(1) Z2(1) by auto
  have up: "prefix X Z1 \<Longrightarrow> prefix X Z" "prefix X Z2 \<Longrightarrow> prefix X Z" for X
    using Z(2) prefix_order.trans [of X] by blast+
  have "\<exists>X. prefix X Z \<and> store_of s p = final X" if "p \<in> node_set N" for p
    using Z1(2) up(1) that by blast
  moreover have "\<exists>k. explained_at Z k i req v" if x: "(i, req, v) \<in> set (answered s)" for i req v
  proof -
    obtain X k where "prefix X Z2" "explained_at X k i req v" using bspec [OF Z2(2) x] by auto
    then show ?thesis using explained_at_prefix up(2) by blast
  qed
  ultimately show ?thesis using Z by blast
qed

lemma sys_demo_reachable: "sys_reachable (\<lambda>_. 0) 3 sys_demo"
proof -
  have "sys_exec_all (\<lambda>_. 0) sys_put sys_start \<noteq> None" by code_simp
  then have "sys_exec_all (\<lambda>_. 0) sys_put sys_start = Some sys_demo"
    unfolding sys_demo_def sys_run_def by auto
  moreover have "sys_reachable (\<lambda>_. 0) 3 sys_start" unfolding sys_start_def by (rule sys_reachable.start) simp
  ultimately show ?thesis using sys_exec_all_reachable by blast
qed

lemma sys_stuck_reachable: "sys_reachable (\<lambda>_. 0) 3 sys_stuck"
proof -
  have "sys_exec_all (\<lambda>_. 0) sys_late sys_start \<noteq> None" by code_simp
  then have "sys_exec_all (\<lambda>_. 0) sys_late sys_start = Some sys_stuck"
    unfolding sys_stuck_def sys_run_def by auto
  moreover have "sys_reachable (\<lambda>_. 0) 3 sys_start" unfolding sys_start_def by (rule sys_reachable.start) simp
  ultimately show ?thesis using sys_exec_all_reachable by blast
qed

lemma sys_demo_answered:
  "answered sys_demo = [(7, AnyPutArgs \<lparr>pa_Key = ''k'', pa_Value = ''v'', pa_Version = 0\<rparr>, AnyPutReply \<lparr>pr_Err = OK\<rparr>)]"
  by code_simp

text \<open>The order of the operations, for a state and a later one.\<close>

lemma linear_order:
  assumes "sys_reachable bs n s" "sys_exec_all bs es s = Some s'"
  shows "\<exists>cmds m. m \<le> length cmds \<and> distinct (map fst cmds) \<and>
    (\<forall>p. is_node (cl s) p \<longrightarrow> (\<exists>k \<le> m. store_of s p = do_ops NewStore (map snd (take k cmds)))) \<and>
    (\<forall>p. is_node (cl s') p \<longrightarrow>
       (\<exists>k \<le> length cmds. store_of s' p = do_ops NewStore (map snd (take k cmds)))) \<and>
    (\<forall>(i, req, v) \<in> set (answered s'). \<exists>k < length cmds. cmds ! k = (i, req) \<and>
       v = fst (DoOp (do_ops NewStore (map snd (take k cmds))) req) \<and>
       ((i, req, v) \<in> set (answered s) \<longrightarrow> k < m) \<and> (i \<notin> fst ` set (submitted s) \<longrightarrow> m \<le> k))"
proof -
  obtain a where a: "sys_inv n a s" using reachable_inv [OF assms(1)] by blast
  obtain b where b: "asteps n a b" "sys_inv n b s'" using exec_all_inv [OF a assms(2)] by blast
  note A = sys_invD [OF a] and B = sys_invD [OF b(2)]
  have ext: "aext a b" by (rule asteps_aext [OF b(1) A(2)])
  obtain Z where Z: "com n a Z" "\<forall>p \<in> node_set n. \<exists>X. prefix X Z \<and> store_of s p = final X"
    "\<forall>(i, req, v) \<in> set (answered s). \<exists>k. explained_at Z k i req v"
    using linear_log [OF a com_zero [OF A(2)]] by blast
  obtain Y where Y: "com n b Y" "prefix Z Y" "\<forall>p \<in> node_set n. \<exists>X. prefix X Y \<and> store_of s' p = final X"
    "\<forall>(i, req, v) \<in> set (answered s'). \<exists>k. explained_at Y k i req v"
    using linear_log [OF b(2) com_aext [OF A(2) ext Z(1)]] by blast
  let ?c = "ops Y" and ?m = "length (ops Z)"
  have "distinct (map fst ?c)"
    by (rule ops_distinct [OF B(8) com_known [OF B(2) Y(1)] wfl_distinct [OF com_wfl [OF B(2) Y(1)]]])
  moreover have m: "?m \<le> length ?c" using ops_prefix [OF Y(2)] by simp
  moreover have st: "\<exists>k \<le> length (ops W). final X = do_ops NewStore (map snd (take k ?c))"
    if "prefix X W" "prefix W Y" for X W
    using ops_prefix [OF prefix_order.trans [OF that]] ops_prefix [OF that(1)]
    unfolding final_def by metis
  have "\<exists>k \<le> ?m. store_of s p = do_ops NewStore (map snd (take k ?c))" if "is_node (cl s) p" for p
    using Z(2) st [OF _ Y(2)] that is_node_iff [OF A(4)] by metis
  moreover have "\<exists>k \<le> length ?c. store_of s' p = do_ops NewStore (map snd (take k ?c))"
    if "is_node (cl s') p" for p
    using Y(3) st [OF _ prefix_order.refl] that is_node_iff [OF B(4)] by metis
  moreover have "\<exists>k < length ?c. ?c ! k = (i, req) \<and>
       v = fst (DoOp (do_ops NewStore (map snd (take k ?c))) req) \<and>
       ((i, req, v) \<in> set (answered s) \<longrightarrow> k < ?m) \<and> (i \<notin> fst ` set (submitted s) \<longrightarrow> ?m \<le> k)"
    if x: "(i, req, v) \<in> set (answered s')" for i req v
  proof -
    obtain k where k: "explained_at Y k i req v" "(i, req, v) \<in> set (answered s) \<longrightarrow> k < length Z"
    proof (cases "(i, req, v) \<in> set (answered s)")
      case True
      then obtain k where k: "explained_at Z k i req v" using Z(3) by blast
      then have "k < length Z" by (simp add: explained_at_def)
      with that explained_at_prefix [OF k Y(2)] show ?thesis by blast
    next
      case False
      then show ?thesis using Y(4) x that by blast
    qed
    note pl = answer_place [OF k(1) Y(2)]
    have "length Z \<le> k" if new: "i \<notin> fst ` set (submitted s)"
    proof (rule ccontr)
      assume "\<not> length Z \<le> k"
      then have "Y ! k \<in> known a" using com_known [OF A(2) Z(1)] prefix_nth [OF Y(2), of k] by auto
      moreover have "(i, req) \<in> set (op_of (Y ! k))" using k(1) by (auto simp: explained_at_def op_of_def)
      ultimately have "(i, req) \<in> set (submitted s)" using A(8) unfolding ids_ok_def by blast
      with new show False by force
    qed
    with pl k(2) show ?thesis by blast
  qed
  ultimately show ?thesis by blast
qed

section \<open>A blocked reader\<close>

text \<open>
  Whether a run restarts server \<open>p\<close>; whether the reader of \<open>p\<close> waits, with the lock held, for a
  call that has left its \<^verbatim>\<open>select\<close> by the timeout and waits for the lock.
\<close>

definition restarts_now :: "int \<Rightarrow> sys_event \<Rightarrow> system \<Rightarrow> bool" where
  "restarts_now p e s = (case e of Net e' \<Rightarrow> restarted_by e' (cl s) = Some p | _ \<Rightarrow> False)"

fun run_restarts :: "(bytes \<Rightarrow> int) \<Rightarrow> int \<Rightarrow> sys_event list \<Rightarrow> system \<Rightarrow> bool" where
  "run_restarts byte_size p [] s = False"
| "run_restarts byte_size p (e # es) s =
     (restarts_now p e s \<or>
      (case sys_exec byte_size e s of None \<Rightarrow> False | Some s' \<Rightarrow> run_restarts byte_size p es s'))"

definition blocked :: "system \<Rightarrow> int \<Rightarrow> nat \<Rightarrow> bool" where
  "blocked s p ch \<longleftrightarrow> is_node (cl s) p \<and> ch < length (calls s) \<and> call_node (calls s ! ch) = p \<and>
     (case call_pc (calls s ! ch) of CTimedOut \<Rightarrow> True | CDefer _ \<Rightarrow> True | _ \<Rightarrow> False) \<and>
     (case rep_pc (replica s p) of RSend ((ch', _) # _) _ \<Rightarrow> ch' = ch | _ \<Rightarrow> False)"

lemma blockedD:
  assumes "blocked s p ch"
  shows "\<not> lock_free s p" "\<not> reader_possible s p" "call_pc (calls s ! ch) \<noteq> CSelect"
    "\<And>r. call_pc (calls s ! ch) \<noteq> CGot r" "ch < length (calls s)" "call_node (calls s ! ch) = p"
  using assms
  by (auto simp: blocked_def lock_free_def holds_lock_def reader_possible_def
      split: call_pc.splits reader_pc.splits list.splits)

lemma set_replica_other:
  "nat q \<noteq> nat p \<Longrightarrow> replica (set_replica q r s) p = replica s p"
  by (simp add: replica_def set_replica_def)

lemma set_call_other: "w \<noteq> ch \<Longrightarrow> calls (set_call w pc s) ! ch = calls s ! ch"
  by (simp add: set_call_def)

lemma lose_calls_other:
  "ch < length ws \<Longrightarrow> call_node (ws ! ch) \<noteq> q \<Longrightarrow> lose_calls q ws ! ch = ws ! ch"
  by (simp add: lose_calls_def)

lemma calls_grow:
  assumes "sys_exec bs e s = Some s'"
  shows "length (calls s) \<le> length (calls s')"
proof -
  have "length (calls s') = length (calls s)" if "exec_net x s = Some s'" for x
    using that by (auto simp: exec_net_def reboot_def bind_eq_Some_conv split: option.splits)
  moreover have "length (calls s') = length (calls s)" if "exec_reader bs p s = Some s'" for p
    using that by (auto simp: exec_reader_def Let_def bind_eq_Some_conv
        split: reader_pc.splits list.splits reader_rest.splits)
  ultimately show ?thesis
    using assms by (auto simp: sys_exec_def exec_call_def bind_eq_Some_conv Let_def
        split: sys_event.splits call_pc.splits)
qed

lemma blocked_net:
  assumes "blocked s p ch" "exec_net e s = Some s'" "restarted_by e (cl s) \<noteq> Some p"
    "\<And>q. restarted_by e (cl s) = Some q \<Longrightarrow> nat q \<noteq> nat p"
  shows "replica s' p = replica s p \<and> calls s' ! ch = calls s ! ch"
proof (cases "restarted_by e (cl s)")
  case None
  then show ?thesis using assms(2) by (auto simp: exec_net_def bind_eq_Some_conv)
next
  case (Some q)
  then have "q \<noteq> p" "nat q \<noteq> nat p" using assms(3,4) by auto
  then show ?thesis
    using assms(2) Some blockedD(5,6) [OF assms(1)]
    by (auto simp: exec_net_def reboot_def bind_eq_Some_conv set_replica_other lose_calls_other)
qed

lemma blocked_reader:
  assumes "blocked s p ch" "exec_reader bs q s = Some s'" "reader_possible s q" "nat q \<noteq> nat p"
  shows "replica s' p = replica s p \<and> calls s' ! ch = calls s ! ch"
proof -
  have "w \<noteq> ch" if "rep_pc (replica s q) = RSend ((w, res) # sends) rest" for w res sends rest
    using that assms(3) blockedD(3) [OF assms(1)] by (auto simp: reader_possible_def)
  then show ?thesis
    using assms(2,4)
    by (auto simp: exec_reader_def Let_def bind_eq_Some_conv set_replica_other set_call_other
        split: reader_pc.splits list.splits reader_rest.splits)
qed

lemma blocked_step:
  assumes "sys_inv N a s" "blocked s p ch" "sys_possible e s" "sys_exec bs e s = Some s'"
    "\<not> restarts_now p e s"
  shows "replica s' p = replica s p \<and> calls s' ! ch = calls s ! ch"
proof -
  note D = sys_invD [OF assms(1)] and bl = blockedD [OF assms(2)]
  have p: "p \<in> node_set N" using assms(2) is_node_iff [OF D(4)] by (simp add: blocked_def)
  have ne: "nat q \<noteq> nat p" if "q \<in> node_set N" "q \<noteq> p" for q using nat_node_eq [OF that(1) p] that(2) by simp
  have nd: "call_node (calls s ! w) \<in> node_set N" if "w < length (calls s)" for w
    using D(7) [OF nth_mem [OF that]] by (simp add: call_ok_def)
  have other: "w \<noteq> ch" if "call_at s w = Some pc" "pc \<noteq> call_pc (calls s ! ch)" for w pc
    using call_atD [OF that(1)] that(2) by auto
  show ?thesis
  proof (cases e)
    case (Net e')
    have "nat q \<noteq> nat p" if "restarted_by e' (cl s) = Some q" for q
      using restarted_node [OF D(1) _ that] ne assms(3,5) Net that
      by (auto simp: sys_possible_def restarts_now_def)
    with Net assms(4,5) show ?thesis
      using blocked_net [OF assms(2)] by (auto simp: sys_exec_def restarts_now_def)
  next
    case (Call q i req)
    then have "q \<in> node_set N" "q \<noteq> p" using assms(3) is_node_iff [OF D(4)] bl(1) by (auto simp: sys_possible_def)
    with Call assms(4) ne bl(5) show ?thesis
      by (auto simp: sys_exec_def exec_call_def bind_eq_Some_conv Let_def set_replica_other nth_append)
  next
    case (Reader q)
    then have "q \<in> node_set N" "q \<noteq> p" "reader_possible s q"
      using assms(3) is_node_iff [OF D(4)] bl(2) by (auto simp: sys_possible_def)
    with Reader assms(4) ne blocked_reader [OF assms(2)] show ?thesis by (simp add: sys_exec_def)
  next
    case (Timeout w)
    then have "w \<noteq> ch" using other [of w] bl(3) assms(3) by (auto simp: sys_possible_def)
    with Timeout assms(4) show ?thesis by (auto simp: sys_exec_def set_call_other)
  next
    case (Dump w)
    then have "w \<noteq> ch" using bl(1,6) assms(3) by (auto simp: sys_possible_def call_lock_free_def)
    with Dump assms(4) show ?thesis by (auto simp: sys_exec_def set_call_other)
  next
    case (Decide w)
    then have "w \<noteq> ch"
      using bl(4) assms(3) by (auto simp: sys_possible_def dest!: call_atD split: option.splits call_pc.splits)
    with Decide assms(4) show ?thesis by (auto simp: sys_exec_def set_call_other split: call_pc.splits)
  next
    case (Finish w)
    then have w: "w < length (calls s)" "lock_free s (call_node (calls s ! w))"
      using assms(3) by (auto simp: sys_possible_def call_lock_free_def call_at_def split: if_splits)
    then have "call_node (calls s ! w) \<noteq> p" using bl(1) by auto
    moreover from this have "w \<noteq> ch" using bl(6) by auto
    ultimately show ?thesis
      using Finish assms(4) ne nd [OF w(1)]
      by (auto simp: sys_exec_def Let_def set_call_other set_replica_other split: call_pc.splits)
  qed
qed

section \<open>Properties\<close>



text \<open>
  (C9) The service never panics: in every reachable state every possible step of a server, of a reader
  or of a call runs to its end. In particular no snapshot fails to be restored and the reader
  never takes a snapshot at an index that the log does not have.
\<close>

theorem service_no_panic:
  assumes "sys_reachable bs n s" "sys_possible e s"
  shows "\<exists>s'. sys_exec bs e s = Some s'"
proof -
  obtain a where "sys_inv n a s" using reachable_inv [OF assms(1)] by blast
  from inv_step [OF this assms(2)] show ?thesis by blast
qed

theorem service_no_panic_witness:
  "sys_possible (Net (Crash 0)) sys_demo \<and> (\<exists>s'. sys_exec (\<lambda>_. 0) (Net (Crash 0)) sys_demo = Some s')"
proof -
  have "sys_possible (Net (Crash 0)) sys_demo" by code_simp
  with service_no_panic [OF sys_demo_reachable] show ?thesis by blast
qed

text \<open>
  (C19) A deadlock. If a call of server \<open>p\<close> times out while the reader of \<open>p\<close> holds \<^verbatim>\<open>rsm.mu\<close> and waits to
  send it its result, then neither of them ever continues: over every run in which the server is not
  restarted, the replica stays as it is and executes no further command, and the call does not
  return. (The reader sends on the unbuffered channel with the lock held; the timeout branch of
  \<^verbatim>\<open>Submit\<close> waits for the lock.)
\<close>

theorem late_call_blocks_replica:
  assumes "sys_reachable bs n s" "blocked s p ch"
    and "sys_exec_all bs es s = Some s'" "\<not> run_restarts bs p es s"
  shows "replica s' p = replica s p \<and> calls s' ! ch = calls s ! ch"
proof -
  obtain a where "sys_inv n a s" using reachable_inv [OF assms(1)] by blast
  then show ?thesis using assms(2-4)
  proof (induction es arbitrary: a s)
    case (Cons e es)
    have po: "sys_possible e s" using Cons.prems(3) by (simp split: if_splits)
    obtain d b where d: "sys_exec bs e s = Some d" "sys_inv n b d" using inv_step [OF Cons.prems(1) po] by blast
    then have r: "sys_exec_all bs es d = Some s'" "\<not> run_restarts bs p es d" "\<not> restarts_now p e s"
      using Cons.prems(3,4) po by simp_all
    note st = blocked_step [OF Cons.prems(1,2) po d(1) r(3)]
    have "length (nodes (cl d)) = length (nodes (cl s))"
      using sys_invD(4) [OF d(2)] sys_invD(4) [OF Cons.prems(1)] by simp
    moreover have "length (calls s) \<le> length (calls d)" by (rule calls_grow [OF d(1)])
    ultimately have "blocked d p ch" using Cons.prems(2) st by (auto simp: blocked_def is_node_def)
    from Cons.IH [OF d(2) this r(1,2)] st show ?case by simp
  qed simp
qed

theorem late_call_blocks_replica_witness:
  "blocked sys_stuck 0 0 \<and>
   (\<exists>s'. sys_exec_all (\<lambda>_. 0) [Net (HeartbeatTimeout 0), Net (ElectionTimeout 1)] sys_stuck = Some s' \<and>
      replica s' 0 = replica sys_stuck 0)"
proof -
  let ?es = "[Net (HeartbeatTimeout 0), Net (ElectionTimeout 1)]"
  have "sys_exec_all (\<lambda>_. 0) ?es sys_stuck \<noteq> None" by code_simp
  then obtain s' where "sys_exec_all (\<lambda>_. 0) ?es sys_stuck = Some s'" by blast
  moreover have "blocked sys_stuck 0 0" by code_simp
  moreover have "\<not> run_restarts (\<lambda>_. 0) 0 ?es sys_stuck" by code_simp
  ultimately show ?thesis using late_call_blocks_replica [OF sys_stuck_reachable] by blast
qed

end
