(* ===== verification/Transport.thy ===== *)
theory Transport
  imports Raft_Node
begin

text \<open>
  The gRPC transport of \<^verbatim>\<open>kvraft/raftransport\<close>: the messages of \<^verbatim>\<open>pb/raft.pb.go\<close> with their
  32-bit fields, the conversion of log entries (\<^verbatim>\<open>codec.go\<close>), the client side
  (\<^verbatim>\<open>client.go\<close>, \<^verbatim>\<open>noop.go\<close>) and the server side (\<^verbatim>\<open>service.go\<close>). The generated stub and
  the network behind it are a parameter: a function from a request to a response or to an
  error.
\<close>

section \<open>Messages\<close>

text \<open>
  \<^verbatim>\<open>int32(x)\<close> keeps the low 32 bits of a Go \<^verbatim>\<open>int\<close>; \<^verbatim>\<open>int(x)\<close> sign-extends.
\<close>

type_synonym int32 = "32 word"

definition int32 :: "int \<Rightarrow> int32" where
  "int32 x = word_of_int x"

definition of_int32 :: "int32 \<Rightarrow> int" where
  "of_int32 x = sint x"

record pb_LogEntry =
  pbe_Index :: int32
  pbe_Term :: int32
  pbe_Command :: bytes

record pb_RequestVoteArgs =
  prv_Term :: int32
  prv_CandidateId :: int32
  prv_LastLogTerm :: int32
  prv_LastLogIndex :: int32

record pb_RequestVoteReply =
  prr_Term :: int32
  prr_VoteGranted :: bool

record pb_AppendEntriesArgs =
  pae_Term :: int32
  pae_LeaderId :: int32
  pae_PrevLogIndex :: int32
  pae_PrevLogTerm :: int32
  pae_Entries :: "pb_LogEntry list"
  pae_LeaderCommit :: int32

record pb_AppendEntriesReply =
  par_Term :: int32
  par_Success :: bool
  par_ConflictIndex :: int32
  par_ConflictTerm :: int32

record pb_InstallSnapshotArgs =
  pis_Term :: int32
  pis_LeaderId :: int32
  pis_LastIncludedIndex :: int32
  pis_LastIncludedTerm :: int32
  pis_Data :: bytes

record pb_InstallSnapshotReply =
  pir_Term :: int32

section \<open>codec.go\<close>

text \<open>A gob encoder refuses a nil interface value.\<close>

definition gob_encode_any :: "any \<Rightarrow> bytes option" where
  "gob_encode_any cmd = (if cmd = AnyNil then None else Some [GobAny cmd])"

fun entriesToProto :: "Entry list \<Rightarrow> pb_LogEntry list option" where
  "entriesToProto [] = Some []"
| "entriesToProto (e # es) =
     do {
       buf \<leftarrow> gob_encode_any (Command e);
       rest \<leftarrow> entriesToProto es;
       Some (\<lparr>pbe_Index = int32 (Index e), pbe_Term = int32 (Term e), pbe_Command = buf\<rparr> # rest)
     }"

fun entriesFromProto :: "pb_LogEntry list \<Rightarrow> Entry list option" where
  "entriesFromProto [] = Some []"
| "entriesFromProto (e # es) =
     do {
       (cmd, _) \<leftarrow> gob_decode_any (pbe_Command e);
       rest \<leftarrow> entriesFromProto es;
       Some (\<lparr>Index = of_int32 (pbe_Index e), Term = of_int32 (pbe_Term e), Command = cmd\<rparr> # rest)
     }"

section \<open>client.go and noop.go\<close>

record RaftClient =
  rc_RequestVote :: "pb_RequestVoteArgs \<Rightarrow> pb_RequestVoteReply option"
  rc_AppendEntries :: "pb_AppendEntriesArgs \<Rightarrow> pb_AppendEntriesReply option"
  rc_InstallSnapshot :: "pb_InstallSnapshotArgs \<Rightarrow> pb_InstallSnapshotReply option"

text \<open>The dynamic types of the arguments \<^verbatim>\<open>args\<close> and \<^verbatim>\<open>reply\<close> of \<^verbatim>\<open>Call\<close>.\<close>

datatype rpc_args =
    VoteArgs RequestVoteArgs
  | AppendArgs AppendEntriesArgs
  | SnapshotArgs InstallSnapshotArgs

datatype rpc_reply =
    VoteRep RequestVoteReply
  | AppendRep AppendEntriesReply
  | SnapshotRep InstallSnapshotReply

definition pb_vote_args :: "RequestVoteArgs \<Rightarrow> pb_RequestVoteArgs" where
  "pb_vote_args a =
     \<lparr>prv_Term = int32 (rva_Term a), prv_CandidateId = int32 (rva_CandidateId a),
      prv_LastLogTerm = int32 (rva_LastLogTerm a), prv_LastLogIndex = int32 (rva_LastLogIndex a)\<rparr>"

definition pb_append_args :: "AppendEntriesArgs \<Rightarrow> pb_LogEntry list \<Rightarrow> pb_AppendEntriesArgs" where
  "pb_append_args a entries =
     \<lparr>pae_Term = int32 (aea_Term a), pae_LeaderId = int32 (aea_LeaderId a),
      pae_PrevLogIndex = int32 (aea_PrevLogIndex a), pae_PrevLogTerm = int32 (aea_PrevLogTerm a),
      pae_Entries = entries, pae_LeaderCommit = int32 (aea_LeaderCommit a)\<rparr>"

definition pb_snapshot_args :: "InstallSnapshotArgs \<Rightarrow> pb_InstallSnapshotArgs" where
  "pb_snapshot_args a =
     \<lparr>pis_Term = int32 (isa_Term a), pis_LeaderId = int32 (isa_LeaderId a),
      pis_LastIncludedIndex = int32 (isa_LastIncludedIndex a),
      pis_LastIncludedTerm = int32 (isa_LastIncludedTerm a), pis_Data = isa_Data a\<rparr>"

text \<open>
  The result and the value of \<^verbatim>\<open>*reply\<close> afterwards. A failed type assertion panics; an
  unknown method and a failed RPC return false and leave the reply alone.
\<close>

definition GRPCClient_Call ::
  "RaftClient \<Rightarrow> string \<Rightarrow> rpc_args \<Rightarrow> rpc_reply \<Rightarrow> (bool \<times> rpc_reply) option" where
  "GRPCClient_Call c method args reply =
     (if method = ''Raft.RequestVote'' then
        (case (args, reply) of
           (VoteArgs a, VoteRep r) \<Rightarrow>
             Some (case rc_RequestVote c (pb_vote_args a) of
                     None \<Rightarrow> (False, reply)
                   | Some res \<Rightarrow> (True, VoteRep (r\<lparr>rvr_Term := of_int32 (prr_Term res),
                                                     rvr_VoteGranted := prr_VoteGranted res\<rparr>)))
         | _ \<Rightarrow> None)
      else if method = ''Raft.AppendEntries'' then
        (case (args, reply) of
           (AppendArgs a, AppendRep r) \<Rightarrow>
             Some (case entriesToProto (aea_Entries a) of
                     None \<Rightarrow> (False, reply)
                   | Some entries \<Rightarrow>
                       (case rc_AppendEntries c (pb_append_args a entries) of
                          None \<Rightarrow> (False, reply)
                        | Some res \<Rightarrow>
                            (True, AppendRep (r\<lparr>aer_Term := of_int32 (par_Term res),
                                                aer_Success := par_Success res,
                                                aer_ConflictIndex := of_int32 (par_ConflictIndex res),
                                                aer_ConflictTerm := of_int32 (par_ConflictTerm res)\<rparr>))))
         | _ \<Rightarrow> None)
      else if method = ''Raft.InstallSnapshot'' then
        (case (args, reply) of
           (SnapshotArgs a, SnapshotRep r) \<Rightarrow>
             Some (case rc_InstallSnapshot c (pb_snapshot_args a) of
                     None \<Rightarrow> (False, reply)
                   | Some res \<Rightarrow> (True, SnapshotRep (r\<lparr>isr_Term := of_int32 (pir_Term res)\<rparr>)))
         | _ \<Rightarrow> None)
      else Some (False, reply))"

definition Noop_Call :: "string \<Rightarrow> rpc_args \<Rightarrow> rpc_reply \<Rightarrow> bool \<times> rpc_reply" where
  "Noop_Call method args reply = (False, reply)"

section \<open>service.go\<close>

definition RaftService_RequestVote ::
  "Raft \<Rightarrow> pb_RequestVoteArgs \<Rightarrow> (Raft \<times> pb_RequestVoteReply) option" where
  "RaftService_RequestVote rf req =
     do {
       (rf', reply) \<leftarrow> RequestVote rf
          \<lparr>rva_Term = of_int32 (prv_Term req), rva_CandidateId = of_int32 (prv_CandidateId req),
           rva_LastLogTerm = of_int32 (prv_LastLogTerm req),
           rva_LastLogIndex = of_int32 (prv_LastLogIndex req)\<rparr>;
       Some (rf', \<lparr>prr_Term = int32 (rvr_Term reply), prr_VoteGranted = rvr_VoteGranted reply\<rparr>)
     }"

definition RaftService_AppendEntries ::
  "Raft \<Rightarrow> pb_AppendEntriesArgs \<Rightarrow> (Raft \<times> pb_AppendEntriesReply) option" where
  "RaftService_AppendEntries rf req =
     (case entriesFromProto (pae_Entries req) of
        None \<Rightarrow>
          Some (rf, \<lparr>par_Term = int32 (fst (State rf)), par_Success = False,
                     par_ConflictIndex = 0, par_ConflictTerm = 0\<rparr>)
      | Some entries \<Rightarrow> do {
          (rf', reply) \<leftarrow> AppendEntries rf
             \<lparr>aea_Term = of_int32 (pae_Term req), aea_LeaderId = of_int32 (pae_LeaderId req),
              aea_PrevLogIndex = of_int32 (pae_PrevLogIndex req),
              aea_PrevLogTerm = of_int32 (pae_PrevLogTerm req), aea_Entries = entries,
              aea_LeaderCommit = of_int32 (pae_LeaderCommit req)\<rparr>;
          Some (rf', \<lparr>par_Term = int32 (aer_Term reply), par_Success = aer_Success reply,
                      par_ConflictIndex = int32 (aer_ConflictIndex reply),
                      par_ConflictTerm = int32 (aer_ConflictTerm reply)\<rparr>)
        })"

definition RaftService_InstallSnapshot ::
  "Raft \<Rightarrow> pb_InstallSnapshotArgs \<Rightarrow> (Raft \<times> pb_InstallSnapshotReply) option" where
  "RaftService_InstallSnapshot rf req =
     do {
       (rf', reply) \<leftarrow> InstallSnapshot rf
          \<lparr>isa_Term = of_int32 (pis_Term req), isa_LeaderId = of_int32 (pis_LeaderId req),
           isa_LastIncludedIndex = of_int32 (pis_LastIncludedIndex req),
           isa_LastIncludedTerm = of_int32 (pis_LastIncludedTerm req), isa_Data = pis_Data req\<rparr>;
       Some (rf', \<lparr>pir_Term = int32 (isr_Term reply)\<rparr>)
     }"

section \<open>Ranges and round trips\<close>

definition fits :: "int \<Rightarrow> bool" where
  "fits x \<longleftrightarrow> - (2 ^ 31) \<le> x \<and> x < 2 ^ 31"

definition entry_fits :: "Entry \<Rightarrow> bool" where
  "entry_fits e \<longleftrightarrow> fits (Index e) \<and> fits (Term e) \<and> Command e \<noteq> AnyNil"

definition append_fits :: "AppendEntriesArgs \<Rightarrow> bool" where
  "append_fits a \<longleftrightarrow> fits (aea_Term a) \<and> fits (aea_LeaderId a) \<and> fits (aea_PrevLogIndex a) \<and>
     fits (aea_PrevLogTerm a) \<and> fits (aea_LeaderCommit a) \<and> list_all entry_fits (aea_Entries a)"

definition append_reply_fits :: "AppendEntriesReply \<Rightarrow> bool" where
  "append_reply_fits r \<longleftrightarrow> fits (aer_Term r) \<and> fits (aer_ConflictIndex r) \<and> fits (aer_ConflictTerm r)"

definition vote_fits :: "RequestVoteArgs \<Rightarrow> bool" where
  "vote_fits a \<longleftrightarrow> fits (rva_Term a) \<and> fits (rva_CandidateId a) \<and> fits (rva_LastLogTerm a) \<and>
     fits (rva_LastLogIndex a)"

definition snapshot_fits :: "InstallSnapshotArgs \<Rightarrow> bool" where
  "snapshot_fits a \<longleftrightarrow> fits (isa_Term a) \<and> fits (isa_LeaderId a) \<and> fits (isa_LastIncludedIndex a) \<and>
     fits (isa_LastIncludedTerm a)"

text \<open>What the callee's handler gives back through the stub, for one call.\<close>

definition loopback_append :: "Raft \<Rightarrow> RaftClient \<Rightarrow> RaftClient" where
  "loopback_append rf c =
     c\<lparr>rc_AppendEntries := (\<lambda>req. map_option snd (RaftService_AppendEntries rf req))\<rparr>"

definition loopback_vote :: "Raft \<Rightarrow> RaftClient \<Rightarrow> RaftClient" where
  "loopback_vote rf c =
     c\<lparr>rc_RequestVote := (\<lambda>req. map_option snd (RaftService_RequestVote rf req))\<rparr>"

definition loopback_snapshot :: "Raft \<Rightarrow> RaftClient \<Rightarrow> RaftClient" where
  "loopback_snapshot rf c =
     c\<lparr>rc_InstallSnapshot := (\<lambda>req. map_option snd (RaftService_InstallSnapshot rf req))\<rparr>"

lemma of_int32_int32: "of_int32 (int32 x) = x \<longleftrightarrow> fits x"
  unfolding of_int32_def int32_def fits_def by (simp add: sint_sbintrunc' signed_take_bit_int_eq_self_iff)

lemma of_int32_fits [simp]: "fits x \<Longrightarrow> of_int32 (int32 x) = x"
  by (simp add: of_int32_int32)

lemma of_int32_range: "fits (of_int32 w)"
  unfolding of_int32_def fits_def using sint_greater_eq [of w] sint_less [of w] by simp

lemma int32_of_int32 [simp]: "int32 (of_int32 w) = w"
  by (simp add: of_int32_def int32_def)

lemma entries_roundtrip:
  "list_all entry_fits es \<Longrightarrow> \<exists>ps. entriesToProto es = Some ps \<and> entriesFromProto ps = Some es"
proof (induction es)
  case (Cons e es)
  then obtain ps where "entriesToProto es = Some ps" "entriesFromProto ps = Some es" "entry_fits e" by auto
  then show ?case by (cases e) (simp add: entry_fits_def gob_encode_any_def)
qed simp

lemma append_args_roundtrip:
  assumes "append_fits a"
  shows "\<exists>ps. entriesToProto (aea_Entries a) = Some ps \<and>
    RaftService_AppendEntries rf (pb_append_args a ps) =
      (case AppendEntries rf a of
         None \<Rightarrow> None
       | Some (rf', r) \<Rightarrow> Some (rf', \<lparr>par_Term = int32 (aer_Term r), par_Success = aer_Success r,
           par_ConflictIndex = int32 (aer_ConflictIndex r), par_ConflictTerm = int32 (aer_ConflictTerm r)\<rparr>))"
proof -
  have "list_all entry_fits (aea_Entries a)" using assms by (simp add: append_fits_def)
  then obtain ps where ps: "entriesToProto (aea_Entries a) = Some ps" "entriesFromProto ps = Some (aea_Entries a)"
    using entries_roundtrip by blast
  then show ?thesis
    using assms by (cases a) (auto simp: append_fits_def RaftService_AppendEntries_def pb_append_args_def
        split: option.splits)
qed

section \<open>Properties\<close>

text \<open>
  (C27) The transport is transparent within the range of \<^verbatim>\<open>int32\<close>: a call through the client, the
  stub and the service has the effect and the reply of calling the handler of the callee directly,
  for all three RPCs, provided that the numbers of the arguments and of the reply fit into 32 bits
  and no entry carries a nil command.
\<close>

theorem grpc_transparent:
  "(\<forall>a rf' r. append_fits a \<and> AppendEntries rf a = Some (rf', r) \<and> append_reply_fits r \<longrightarrow>
      GRPCClient_Call (loopback_append rf c) ''Raft.AppendEntries'' (AppendArgs a) (AppendRep r0)
        = Some (True, AppendRep r) \<and>
      (\<exists>ps. entriesToProto (aea_Entries a) = Some ps \<and>
         map_option fst (RaftService_AppendEntries rf (pb_append_args a ps)) = Some rf')) \<and>
   (\<forall>a rf' r. vote_fits a \<and> RequestVote rf a = Some (rf', r) \<and> fits (rvr_Term r) \<longrightarrow>
      GRPCClient_Call (loopback_vote rf c) ''Raft.RequestVote'' (VoteArgs a) (VoteRep v0)
        = Some (True, VoteRep r) \<and>
      map_option fst (RaftService_RequestVote rf (pb_vote_args a)) = Some rf') \<and>
   (\<forall>a rf' r. snapshot_fits a \<and> InstallSnapshot rf a = Some (rf', r) \<and> fits (isr_Term r) \<longrightarrow>
      GRPCClient_Call (loopback_snapshot rf c) ''Raft.InstallSnapshot'' (SnapshotArgs a) (SnapshotRep s0)
        = Some (True, SnapshotRep r) \<and>
      map_option fst (RaftService_InstallSnapshot rf (pb_snapshot_args a)) = Some rf')"
proof (intro conjI allI impI; elim conjE)
  fix a rf' and r :: AppendEntriesReply
  assume a: "append_fits a" "AppendEntries rf a = Some (rf', r)" "append_reply_fits r"
  obtain ps where ps: "entriesToProto (aea_Entries a) = Some ps"
    "RaftService_AppendEntries rf (pb_append_args a ps) = Some (rf', \<lparr>par_Term = int32 (aer_Term r),
       par_Success = aer_Success r, par_ConflictIndex = int32 (aer_ConflictIndex r),
       par_ConflictTerm = int32 (aer_ConflictTerm r)\<rparr>)"
    using append_args_roundtrip [OF a(1), of rf] a(2) by auto
  then show "GRPCClient_Call (loopback_append rf c) ''Raft.AppendEntries'' (AppendArgs a) (AppendRep r0)
        = Some (True, AppendRep r)"
    using a(3) by (cases r) (simp add: GRPCClient_Call_def loopback_append_def append_reply_fits_def)
  from ps show "\<exists>ps. entriesToProto (aea_Entries a) = Some ps \<and>
         map_option fst (RaftService_AppendEntries rf (pb_append_args a ps)) = Some rf'" by simp
next
  fix a rf' and r :: RequestVoteReply
  assume a: "vote_fits a" "RequestVote rf a = Some (rf', r)" "fits (rvr_Term r)"
  then have s: "RaftService_RequestVote rf (pb_vote_args a) =
      Some (rf', \<lparr>prr_Term = int32 (rvr_Term r), prr_VoteGranted = rvr_VoteGranted r\<rparr>)"
    by (cases a) (simp add: RaftService_RequestVote_def pb_vote_args_def vote_fits_def)
  then show "GRPCClient_Call (loopback_vote rf c) ''Raft.RequestVote'' (VoteArgs a) (VoteRep v0)
        = Some (True, VoteRep r)"
    using a(3) by (cases r) (simp add: GRPCClient_Call_def loopback_vote_def)
  from s show "map_option fst (RaftService_RequestVote rf (pb_vote_args a)) = Some rf'" by simp
next
  fix a rf' and r :: InstallSnapshotReply
  assume a: "snapshot_fits a" "InstallSnapshot rf a = Some (rf', r)" "fits (isr_Term r)"
  then have s: "RaftService_InstallSnapshot rf (pb_snapshot_args a) = Some (rf', \<lparr>pir_Term = int32 (isr_Term r)\<rparr>)"
    by (cases a) (simp add: RaftService_InstallSnapshot_def pb_snapshot_args_def snapshot_fits_def)
  then show "GRPCClient_Call (loopback_snapshot rf c) ''Raft.InstallSnapshot'' (SnapshotArgs a) (SnapshotRep s0)
        = Some (True, SnapshotRep r)"
    using a(3) by (cases r) (simp add: GRPCClient_Call_def loopback_snapshot_def)
  from s show "map_option fst (RaftService_InstallSnapshot rf (pb_snapshot_args a)) = Some rf'" by simp
qed

text \<open>A server at its first start that a candidate asks for its vote over the wire.\<close>

theorem grpc_transparent_witness:
  "\<exists>rf' r. RequestVote (fresh_Raft 3 1 \<lparr>dir = ''data'', files = Map.empty, plan = []\<rparr> 600 400 100)
       \<lparr>rva_Term = 1, rva_CandidateId = 0, rva_LastLogTerm = 0, rva_LastLogIndex = 0\<rparr> = Some (rf', r) \<and>
     rvr_VoteGranted r \<and>
     GRPCClient_Call (loopback_vote (fresh_Raft 3 1 \<lparr>dir = ''data'', files = Map.empty, plan = []\<rparr> 600 400 100)
         \<lparr>rc_RequestVote = \<lambda>_. None, rc_AppendEntries = \<lambda>_. None, rc_InstallSnapshot = \<lambda>_. None\<rparr>)
       ''Raft.RequestVote''
       (VoteArgs \<lparr>rva_Term = 1, rva_CandidateId = 0, rva_LastLogTerm = 0, rva_LastLogIndex = 0\<rparr>)
       (VoteRep \<lparr>rvr_Term = 0, rvr_VoteGranted = False\<rparr>) = Some (True, VoteRep r)"
proof -
  let ?rf = "fresh_Raft 3 1 \<lparr>dir = ''data'', files = Map.empty, plan = []\<rparr> 600 400 100"
  let ?a = "\<lparr>rva_Term = 1, rva_CandidateId = 0, rva_LastLogTerm = 0, rva_LastLogIndex = 0\<rparr>"
  have "map_option (\<lambda>(rf, r). (rvr_Term r, rvr_VoteGranted r)) (RequestVote ?rf ?a) = Some (0, True)"
    by code_simp
  then obtain rf' r where r: "RequestVote ?rf ?a = Some (rf', r)" "rvr_Term r = 0" "rvr_VoteGranted r" by auto
  moreover have "vote_fits ?a" "fits (rvr_Term r)" using r(2) by (simp_all add: vote_fits_def fits_def)
  ultimately show ?thesis using grpc_transparent by blast
qed

text \<open>
  (C28) Entries survive the conversion to the wire format and back, as long as index and term fit into
  32 bits and the command is not nil.
\<close>

theorem codec_roundtrip:
  assumes "list_all entry_fits es"
  shows "entriesToProto es \<bind> entriesFromProto = Some es"
  using entries_roundtrip [OF assms] by auto

theorem codec_roundtrip_witness:
  "entriesToProto [\<lparr>Index = 1, Term = 1, Command = AnyInt 7\<rparr>] \<bind> entriesFromProto =
     Some [\<lparr>Index = 1, Term = 1, Command = AnyInt 7\<rparr>]"
  by (rule codec_roundtrip) (simp add: entry_fits_def fits_def)



end
