(* ===== verification/Kv_Service.thy ===== *)
theory Kv_Service
  imports Rsm Transport
begin

text \<open>
  The gRPC front end of a server, \<^verbatim>\<open>kvraft/internal/kvserver/grpc.go\<close>, with the messages and
  the status codes of \<^verbatim>\<open>pb/kv.pb.go\<close>. A handler submits a request to the replicated state
  machine and turns what \<^verbatim>\<open>Submit\<close> returns into a response; \<^verbatim>\<open>RSM.Submit\<close> is an argument.
\<close>

datatype Status =
    STATUS_UNSPECIFIED
  | Status_OK
  | ERR_NO_KEY
  | ERR_VERSION
  | ERR_WRONG_LEADER
  | ERR_MAYBE

record GetRequest =
  gq_Key :: string

record GetResponse =
  gs_Status :: Status
  gs_Value :: string
  gs_Version :: "64 word"
  gs_LeaderHint :: int32

record PutRequest =
  pq_Key :: string
  pq_Value :: string
  pq_Version :: "64 word"

record PutResponse =
  ps_Status :: Status
  ps_LeaderHint :: int32

definition errToStatus :: "Err \<Rightarrow> Status" where
  "errToStatus e =
     (if e = OK then Status_OK
      else if e = ErrNoKey then ERR_NO_KEY
      else if e = ErrVersion then ERR_VERSION
      else if e = ErrWrongLeader then ERR_WRONG_LEADER
      else if e = ErrMaybe then ERR_MAYBE
      else STATUS_UNSPECIFIED)"

text \<open>\<^verbatim>\<open>val.(int)\<close> with the default \<open>-1\<close>.\<close>

definition leader_hint :: "any \<Rightarrow> int32" where
  "leader_hint val = (case val of AnyInt leader \<Rightarrow> int32 leader | _ \<Rightarrow> -1)"

definition KVService_Get :: "(any \<Rightarrow> Err \<times> any) \<Rightarrow> GetRequest \<Rightarrow> GetResponse" where
  "KVService_Get submit req =
     (let (code, val) = submit (AnyGetArgs \<lparr>ga_Key = gq_Key req\<rparr>)
      in if code = ErrWrongLeader
         then \<lparr>gs_Status = errToStatus code, gs_Value = [], gs_Version = 0,
               gs_LeaderHint = leader_hint val\<rparr>
         else case val of
                AnyGetReply gr \<Rightarrow>
                  \<lparr>gs_Status = errToStatus (gr_Err gr), gs_Value = gr_Value gr,
                   gs_Version = gr_Version gr, gs_LeaderHint = 0\<rparr>
              | _ \<Rightarrow> \<lparr>gs_Status = ERR_WRONG_LEADER, gs_Value = [], gs_Version = 0, gs_LeaderHint = 0\<rparr>)"

definition KVService_Put :: "(any \<Rightarrow> Err \<times> any) \<Rightarrow> PutRequest \<Rightarrow> PutResponse" where
  "KVService_Put submit req =
     (let (code, val) = submit (AnyPutArgs \<lparr>pa_Key = pq_Key req, pa_Value = pq_Value req,
                                            pa_Version = pq_Version req\<rparr>)
      in if code = ErrWrongLeader
         then \<lparr>ps_Status = errToStatus code, ps_LeaderHint = leader_hint val\<rparr>
         else case val of
                AnyPutReply pr \<Rightarrow> \<lparr>ps_Status = errToStatus (pr_Err pr), ps_LeaderHint = 0\<rparr>
              | _ \<Rightarrow> \<lparr>ps_Status = ERR_WRONG_LEADER, ps_LeaderHint = 0\<rparr>)"

lemma errToStatus_simps [simp]:
  "errToStatus OK = Status_OK" "errToStatus ErrNoKey = ERR_NO_KEY" "errToStatus ErrVersion = ERR_VERSION"
  "errToStatus ErrWrongLeader = ERR_WRONG_LEADER" "errToStatus ErrMaybe = ERR_MAYBE"
  by (simp_all add: errToStatus_def)

text \<open>The answers of the store have the type that the handlers expect.\<close>

lemma getOp_typed: "\<exists>r. getOp s x = AnyGetReply r \<and> gr_Err r \<in> {OK, ErrNoKey}"
  by (auto simp: getOp_def split: option.splits)

lemma putOp_typed: "\<exists>r. fst (putOp s x) = AnyPutReply r \<and> pr_Err r \<in> {OK, ErrVersion}"
  by (auto simp: putOp_def split: option.splits)

section \<open>Properties\<close>



end
