(* ===== verification/Kv_Config.thy ===== *)
theory Kv_Config
  imports System "HOL-Library.Multiset"
begin

text \<open>
  \<^verbatim>\<open>kvraft/config/config.go\<close>: the cluster file, the defaults and the environment variables that
  override them; and \<^verbatim>\<open>StartNode\<close> of \<^verbatim>\<open>kvraft/internal/kvserver/node.go\<close>, which finds the
  server's own place in the configuration and starts its parts. The environment, the file and
  the outcomes of dialling and listening are arguments.
\<close>

section \<open>Numbers and truth values in strings\<close>

text \<open>\<^verbatim>\<open>strconv.Atoi\<close>: an optional sign and decimal digits, within 64 bits.\<close>

definition digit :: "char \<Rightarrow> int option" where
  "digit c = (let n = int (of_char c) in if 48 \<le> n \<and> n \<le> 57 then Some (n - 48) else None)"

fun digits :: "int \<Rightarrow> string \<Rightarrow> int option" where
  "digits acc [] = Some acc"
| "digits acc (c # cs) = (case digit c of None \<Rightarrow> None | Some d \<Rightarrow> digits (10 * acc + d) cs)"

definition int64_range :: "int \<Rightarrow> bool" where
  "int64_range i \<longleftrightarrow> - (2 ^ 63) \<le> i \<and> i < 2 ^ 63"

definition Atoi :: "string \<Rightarrow> int option" where
  "Atoi s =
     (let (neg, ds) = (case s of [] \<Rightarrow> (False, []) | c # cs \<Rightarrow>
                         if c = CHR ''-'' then (True, cs) else if c = CHR ''+'' then (False, cs)
                         else (False, s))
      in if ds = [] then None
         else do {
           n \<leftarrow> digits 0 ds;
           let i = (if neg then - n else n);
           if int64_range i then Some i else None
         })"

definition ParseBool :: "string \<Rightarrow> bool option" where
  "ParseBool s =
     (if s \<in> set [''1'', ''t'', ''T'', ''true'', ''TRUE'', ''True''] then Some True
      else if s \<in> set [''0'', ''f'', ''F'', ''false'', ''FALSE'', ''False''] then Some False
      else None)"

section \<open>config.go\<close>

record Node =
  node_ID :: int
  node_Addr :: string

record Config =
  Nodes :: "Node list"
  ElectionTimeoutMin :: int
  ElectionTimeoutRand :: int
  HeartbeatTimeout :: int
  SubmitTimeout :: int
  BaseDelay :: int
  MaxDelay :: int
  MinConnectTimeout :: int
  MetricsPortBase :: int

type_synonym environ = "string \<Rightarrow> string option"

definition GetEnv :: "environ \<Rightarrow> string \<Rightarrow> string \<Rightarrow> string" where
  "GetEnv env key fallback = (case env key of Some value \<Rightarrow> value | None \<Rightarrow> fallback)"

definition GetEnvInt :: "environ \<Rightarrow> string \<Rightarrow> int \<Rightarrow> int" where
  "GetEnvInt env key fallback =
     (case env key of
        Some value \<Rightarrow> (case Atoi value of Some i \<Rightarrow> i | None \<Rightarrow> fallback)
      | None \<Rightarrow> fallback)"

definition GetEnvBool :: "environ \<Rightarrow> string \<Rightarrow> bool \<Rightarrow> bool" where
  "GetEnvBool env key fallback =
     (case env key of
        Some value \<Rightarrow> (case ParseBool value of Some b \<Rightarrow> b | None \<Rightarrow> fallback)
      | None \<Rightarrow> fallback)"

definition PopulateDefaults :: "Config \<Rightarrow> Config" where
  "PopulateDefaults cfg =
     cfg\<lparr>ElectionTimeoutMin := 600, ElectionTimeoutRand := 400, HeartbeatTimeout := 100,
         SubmitTimeout := 10, BaseDelay := 100, MaxDelay := 3, MinConnectTimeout := 2,
         MetricsPortBase := 8080\<rparr>"

text \<open>
  \<^verbatim>\<open>encoding/json\<close>, on documents that have been read: \<open>JNumber\<close> is an integer literal,
  \<open>JFraction\<close> any other number. \<^verbatim>\<open>Unmarshal\<close> finds the fields of a structure by their names,
  whatever the case of the letters, and ignores other names; \<^verbatim>\<open>null\<close> leaves a field alone; a
  value of the wrong kind is an error. Objects are taken not to repeat a name, and names to be ASCII.
\<close>

datatype json =
    JNull
  | JBool bool
  | JNumber int
  | JFraction
  | JString string
  | JArray "json list"
  | JObject "(string \<times> json) list"

definition lower :: "char \<Rightarrow> char" where
  "lower c = (let n = of_char c :: nat in if 65 \<le> n \<and> n \<le> 90 then char_of (n + 32) else c)"

definition field_name :: "string \<Rightarrow> string \<Rightarrow> bool" where
  "field_name s name \<longleftrightarrow> map lower s = name"

fun unmarshal_node_fields :: "(string \<times> json) list \<Rightarrow> Node \<Rightarrow> Node option" where
  "unmarshal_node_fields [] n = Some n"
| "unmarshal_node_fields ((s, v) # fs) n =
     (if field_name s ''id'' then
        (case v of
           JNull \<Rightarrow> unmarshal_node_fields fs n
         | JNumber i \<Rightarrow> if int64_range i then unmarshal_node_fields fs (n\<lparr>node_ID := i\<rparr>) else None
         | _ \<Rightarrow> None)
      else if field_name s ''addr'' then
        (case v of
           JNull \<Rightarrow> unmarshal_node_fields fs n
         | JString a \<Rightarrow> unmarshal_node_fields fs (n\<lparr>node_Addr := a\<rparr>)
         | _ \<Rightarrow> None)
      else unmarshal_node_fields fs n)"

definition unmarshal_node :: "json \<Rightarrow> Node option" where
  "unmarshal_node v =
     (let zero = \<lparr>node_ID = 0, node_Addr = []\<rparr>
      in case v of
           JNull \<Rightarrow> Some zero
         | JObject fs \<Rightarrow> unmarshal_node_fields fs zero
         | _ \<Rightarrow> None)"

fun unmarshal_nodes :: "json list \<Rightarrow> Node list option" where
  "unmarshal_nodes [] = Some []"
| "unmarshal_nodes (v # vs) =
     do { n \<leftarrow> unmarshal_node v; ns \<leftarrow> unmarshal_nodes vs; Some (n # ns) }"

fun unmarshal_config_fields :: "(string \<times> json) list \<Rightarrow> Config \<Rightarrow> Config option" where
  "unmarshal_config_fields [] cfg = Some cfg"
| "unmarshal_config_fields ((s, v) # fs) cfg =
     (if field_name s ''nodes'' then
        (case v of
           JNull \<Rightarrow> unmarshal_config_fields fs (cfg\<lparr>Nodes := []\<rparr>)
         | JArray vs \<Rightarrow> do { ns \<leftarrow> unmarshal_nodes vs; unmarshal_config_fields fs (cfg\<lparr>Nodes := ns\<rparr>) }
         | _ \<Rightarrow> None)
      else unmarshal_config_fields fs cfg)"

definition zero_Config :: Config where
  "zero_Config =
     \<lparr>Nodes = [], ElectionTimeoutMin = 0, ElectionTimeoutRand = 0, HeartbeatTimeout = 0,
      SubmitTimeout = 0, BaseDelay = 0, MaxDelay = 0, MinConnectTimeout = 0, MetricsPortBase = 0\<rparr>"

definition unmarshal_config :: "json \<Rightarrow> Config option" where
  "unmarshal_config v =
     (case v of
        JNull \<Rightarrow> Some zero_Config
      | JObject fs \<Rightarrow> unmarshal_config_fields fs zero_Config
      | _ \<Rightarrow> None)"

text \<open>One override: the variable, if it is set to a number, replaces the value.\<close>

definition override :: "environ \<Rightarrow> string \<Rightarrow> (int \<Rightarrow> Config \<Rightarrow> Config) \<Rightarrow> Config \<Rightarrow> Config" where
  "override env key upd cfg =
     (case env key of
        Some v \<Rightarrow> (case Atoi v of Some i \<Rightarrow> upd i cfg | None \<Rightarrow> cfg)
      | None \<Rightarrow> cfg)"

definition overrides :: "environ \<Rightarrow> Config \<Rightarrow> Config" where
  "overrides env cfg =
     override env ''METRICS_PORT_BASE'' (\<lambda>i c. c\<lparr>MetricsPortBase := i\<rparr>)
     (override env ''GRPC_MIN_CONNECT_TIMEOUT'' (\<lambda>i c. c\<lparr>MinConnectTimeout := i\<rparr>)
     (override env ''GRPC_MAX_DELAY'' (\<lambda>i c. c\<lparr>MaxDelay := i\<rparr>)
     (override env ''GRPC_BASE_DELAY'' (\<lambda>i c. c\<lparr>BaseDelay := i\<rparr>)
     (override env ''RSM_SUBMIT_TIMEOUT'' (\<lambda>i c. c\<lparr>SubmitTimeout := i\<rparr>)
     (override env ''RAFT_HEARTBEAT_TIMEOUT'' (\<lambda>i c. c\<lparr>HeartbeatTimeout := i\<rparr>)
     (override env ''RAFT_ELECTION_TIMEOUT_RAND'' (\<lambda>i c. c\<lparr>ElectionTimeoutRand := i\<rparr>)
     (override env ''RAFT_ELECTION_TIMEOUT_MIN'' (\<lambda>i c. c\<lparr>ElectionTimeoutMin := i\<rparr>) cfg)))))))"

datatype config_error =
    ReadError
  | JsonError
  | TooFewNodes int
  | EvenNodes int

text \<open>
  What is at the path: nothing readable, bytes that are not JSON, or a document.
  \<^verbatim>\<open>sort.Slice\<close> orders by the identifier; it may exchange nodes with the same identifier, the
  model keeps their order.
\<close>

datatype config_file = Unreadable | Malformed | Document json

definition Load :: "environ \<Rightarrow> config_file \<Rightarrow> config_error + Config" where
  "Load env file =
     (case file of
        Unreadable \<Rightarrow> Inl ReadError
      | Malformed \<Rightarrow> Inl JsonError
      | Document v \<Rightarrow>
          (case unmarshal_config v of
             None \<Rightarrow> Inl JsonError
           | Some cfg0 \<Rightarrow>
               let cfg = overrides env (PopulateDefaults cfg0)
               in if length (Nodes cfg) < 3 then Inl (TooFewNodes (int (length (Nodes cfg))))
                  else if length (Nodes cfg) mod 2 = 0 then Inl (EvenNodes (int (length (Nodes cfg))))
                  else Inr (cfg\<lparr>Nodes := sort_key node_ID (Nodes cfg)\<rparr>)))"

section \<open>node.go: StartNode\<close>

text \<open>The loop that looks for the server's own identifier.\<close>

fun find_me :: "int \<Rightarrow> Node list \<Rightarrow> int \<Rightarrow> int" where
  "find_me i [] nodeID = -1"
| "find_me i (n # ns) nodeID = (if node_ID n = nodeID then i else find_me (i + 1) ns nodeID)"

datatype transport = NoopTransport | GrpcTransport string

text \<open>
  The loop over the peers: the server itself gets a transport that does nothing, the others are
  dialled; the first failure ends the loop, and the connections made so far are closed.
\<close>

fun dial_peers ::
  "(string \<Rightarrow> bool) \<Rightarrow> int \<Rightarrow> int \<Rightarrow> Node list \<Rightarrow> transport list \<Rightarrow> int + transport list" where
  "dial_peers dial i self [] transports = Inr transports"
| "dial_peers dial i self (n # ns) transports =
     (if i = self then dial_peers dial (i + 1) self ns (transports @ [NoopTransport])
      else if \<not> dial (node_Addr n) then Inl i
      else dial_peers dial (i + 1) self ns (transports @ [GrpcTransport (node_Addr n)]))"

text \<open>\<^verbatim>\<open>time.Duration(i)*time.Millisecond\<close>, in nanoseconds, with the wrap-around of 64 bits.\<close>

definition milliseconds :: "int \<Rightarrow> int" where
  "milliseconds i = sint (word_of_int (i * 1000000) :: 64 word)"

text \<open>
  What Raft makes of such a duration \<open>d\<close>: \<^verbatim>\<open>d.Milliseconds()\<close>, which truncates towards zero. The model of
  Raft keeps its durations in this unit.
\<close>

definition whole_milliseconds :: "int \<Rightarrow> int" where
  "whole_milliseconds i = (let d = milliseconds i in sgn d * (\<bar>d\<bar> div 1000000))"

datatype start_error =
    UnknownNode int
  | PersisterError
  | PeerError int
  | ListenError

record server =
  srv_me :: int
  srv_transports :: "transport list"
  srv_listening :: "string option"
  srv_connections :: "string list"
  srv_metrics_port :: int

text \<open>The addresses of the connections.\<close>

definition dialled :: "transport list \<Rightarrow> string list" where
  "dialled ts = concat (map (\<lambda>t. case t of NoopTransport \<Rightarrow> [] | GrpcTransport a \<Rightarrow> [a]) ts)"

text \<open>
  \<open>None\<close> is a panic or a fatal error. \<open>disk\<close> is the opened data directory, \<open>listen\<close> says
  whether the server's address can be bound. The first component of the result is what is
  running when the function returns.
\<close>

definition StartNode ::
  "Config \<Rightarrow> int \<Rightarrow> FilePersister option \<Rightarrow> int \<Rightarrow> (string \<Rightarrow> bool) \<Rightarrow> (string \<Rightarrow> bool) \<Rightarrow>
   ((RSM \<times> Raft) option \<times> (start_error + server)) option" where
  "StartNode cfg nodeID disk maxRaft dial listen =
     (let self = find_me 0 (Nodes cfg) nodeID
      in if self < 0 then Some (None, Inl (UnknownNode nodeID))
         else case disk of
                None \<Rightarrow> Some (None, Inl PersisterError)
              | Some ps \<Rightarrow>
                  (case dial_peers dial 0 self (Nodes cfg) [] of
                     Inl k \<Rightarrow> Some (None, Inl (PeerError k))
                   | Inr transports \<Rightarrow> do {
                       inst \<leftarrow> MakeRSM (length transports) self ps maxRaft NewStore
                                 (whole_milliseconds (ElectionTimeoutMin cfg))
                                 (whole_milliseconds (ElectionTimeoutRand cfg))
                                 (whole_milliseconds (HeartbeatTimeout cfg));
                       n \<leftarrow> idx (Nodes cfg) self;
                       if \<not> listen (node_Addr n) then Some (Some inst, Inl ListenError)
                       else Some (Some inst,
                              Inr \<lparr>srv_me = self, srv_transports = transports,
                                   srv_listening = Some (node_Addr n),
                                   srv_connections = dialled transports,
                                   srv_metrics_port = MetricsPortBase cfg + nodeID\<rparr>)
                     }))"

text \<open>\<^verbatim>\<open>Stop\<close>: the listener and the connections are closed, Raft is told that it is dead.\<close>

definition Stop :: "server \<Rightarrow> Raft \<Rightarrow> server \<times> Raft" where
  "Stop srv rf = (srv\<lparr>srv_listening := None, srv_connections := []\<rparr>, Kill rf)"

section \<open>An example\<close>

text \<open>A cluster file.\<close>

definition demo_node :: "int \<Rightarrow> string \<Rightarrow> json" where
  "demo_node i a = JObject [(''id'', JNumber i), (''addr'', JString a)]"

definition demo_file :: json where
  "demo_file = JObject [(''nodes'', JArray [demo_node 3 ''c'', demo_node 1 ''a'', demo_node 2 ''b''])]"

definition demo_cfg :: Config where
  "demo_cfg = (PopulateDefaults zero_Config)\<lparr>Nodes := [\<lparr>node_ID = 1, node_Addr = ''a''\<rparr>,
     \<lparr>node_ID = 2, node_Addr = ''b''\<rparr>, \<lparr>node_ID = 3, node_Addr = ''c''\<rparr>]\<rparr>"

text \<open>The first two servers of the example, on empty disks.\<close>

definition demo_disk :: "FilePersister option" where
  "demo_disk = Some (MakeFilePersister ''data'' Map.empty)"

definition demo_srv :: "int \<Rightarrow> server" where
  "demo_srv i = (case StartNode demo_cfg i demo_disk (-1) (\<lambda>_. True) (\<lambda>_. True) of Some (_, Inr srv) \<Rightarrow> srv)"

definition demo_inst :: "int \<Rightarrow> (RSM \<times> Raft) option" where
  "demo_inst i = (case StartNode demo_cfg i demo_disk (-1) (\<lambda>_. True) (\<lambda>_. True) of Some (inst, _) \<Rightarrow> inst)"

definition demo_init :: system where
  "demo_init = init_system 3 (-1) (whole_milliseconds (ElectionTimeoutMin demo_cfg))
     (whole_milliseconds (ElectionTimeoutRand demo_cfg)) (whole_milliseconds (HeartbeatTimeout demo_cfg))"

definition demo_env :: environ where
  "demo_env = [''RAFT_ELECTION_TIMEOUT_RAND'' \<mapsto> ''0'']"

definition demo_zero :: Config where
  "demo_zero = demo_cfg\<lparr>ElectionTimeoutRand := 0\<rparr>"

section \<open>Lemmas\<close>

lemma override_Nodes:
  "(\<And>i c. Nodes (upd i c) = Nodes c) \<Longrightarrow> Nodes (override env key upd cfg) = Nodes cfg"
  by (simp add: override_def split: option.splits)

lemma overrides_Nodes [simp]: "Nodes (overrides env cfg) = Nodes cfg"
  by (simp add: overrides_def override_Nodes)

lemma PopulateDefaults_Nodes [simp]: "Nodes (PopulateDefaults cfg) = Nodes cfg"
  by (simp add: PopulateDefaults_def)

lemma override_Rand:
  "(\<And>i c. ElectionTimeoutRand (upd i c) = ElectionTimeoutRand c) \<Longrightarrow>
   ElectionTimeoutRand (override env key upd cfg) = ElectionTimeoutRand cfg"
  by (simp add: override_def split: option.splits)

lemma overrides_Rand:
  "ElectionTimeoutRand (overrides env cfg) = GetEnvInt env ''RAFT_ELECTION_TIMEOUT_RAND'' (ElectionTimeoutRand cfg)"
  by (simp add: overrides_def override_Rand, simp add: override_def GetEnvInt_def split: option.splits)

lemma Load_Inr:
  "Load env (Document v) = Inr cfg \<longleftrightarrow>
   (\<exists>cfg0. unmarshal_config v = Some cfg0 \<and> 3 \<le> length (Nodes cfg0) \<and> odd (length (Nodes cfg0)) \<and>
      cfg = (overrides env (PopulateDefaults cfg0))\<lparr>Nodes := sort_key node_ID (Nodes cfg0)\<rparr>)"
  by (auto simp: Load_def Let_def odd_iff_mod_2_eq_one split: option.splits if_splits)

lemma find_me_found:
  assumes "k < length ns" "node_ID (ns ! k) = x" "\<And>j. j < k \<Longrightarrow> node_ID (ns ! j) \<noteq> x"
  shows "find_me i ns x = i + int k"
  using assms
proof (induction ns arbitrary: i k)
  case (Cons n ns)
  show ?case
  proof (cases k)
    case 0
    then show ?thesis using Cons.prems by simp
  next
    case (Suc k')
    have "node_ID n \<noteq> x" using Cons.prems(3) [of 0] Suc by simp
    moreover have "find_me (i + 1) ns x = i + 1 + int k'"
      using Cons.prems(1,2) Cons.prems(3) [of "Suc j" for j] Suc by (intro Cons.IH) auto
    ultimately show ?thesis using Suc by simp
  qed
qed simp

lemma find_me_missing: "x \<notin> node_ID ` set ns \<Longrightarrow> find_me i ns x = -1"
  by (induction ns arbitrary: i) auto

lemma find_me_cases:
  obtains "x \<notin> node_ID ` set ns" "find_me 0 ns x = -1"
  | k where "k < length ns" "node_ID (ns ! k) = x" "find_me 0 ns x = int k"
proof (cases "x \<in> node_ID ` set ns")
  case True
  then obtain k where "k < length ns \<and> node_ID (ns ! k) = x" by (auto simp: in_set_conv_nth)
  then have "\<exists>k. (k < length ns \<and> node_ID (ns ! k) = x) \<and> (\<forall>j < k. \<not> (j < length ns \<and> node_ID (ns ! j) = x))"
    using exists_least_iff [of "\<lambda>k. k < length ns \<and> node_ID (ns ! k) = x"] by blast
  then obtain k where k: "k < length ns" "node_ID (ns ! k) = x" "\<forall>j < k. \<not> (j < length ns \<and> node_ID (ns ! j) = x)"
    by blast
  then have "find_me 0 ns x = 0 + int k" by (intro find_me_found) auto
  with k show thesis using that(2) by simp
qed (simp add: find_me_missing that(1))

lemma dial_peers_Inr:
  "dial_peers dial i self ns ts = Inr ts' \<Longrightarrow> ts' = ts @
     map (\<lambda>k. if i + int k = self then NoopTransport else GrpcTransport (node_Addr (ns ! k))) [0..<length ns]"
proof (induction ns arbitrary: i ts)
  case (Cons n ns)
  define t where "t = (if i = self then NoopTransport else GrpcTransport (node_Addr n))"
  have "dial_peers dial (i + 1) self ns (ts @ [t]) = Inr ts'"
    using Cons.prems by (auto simp: t_def split: if_splits)
  from Cons.IH [OF this] have "ts' = ts @ t # map (\<lambda>k. if i + int (Suc k) = self then NoopTransport
      else GrpcTransport (node_Addr ((n # ns) ! Suc k))) [0..<length ns]"
    by (simp add: algebra_simps)
  then show ?case
    by (simp only: length_Cons upt_conv_Cons zero_less_Suc map_Suc_upt [symmetric] list.map map_map comp_def)
      (simp add: t_def)
qed simp

lemma dial_peers_Some: "\<forall>a. dial a \<Longrightarrow> \<exists>ts'. dial_peers dial i self ns ts = Inr ts'"
  by (induction ns arbitrary: i ts) auto

text \<open>A server that starts on an empty disk.\<close>

lemma MakeRSM_empty:
  "MakeRSM n i (MakeFilePersister d Map.empty) maxRaft sm emin erand hb =
     (if erand = 0 then None
      else Some (\<lparr>rsm_me = i, maxRaftState = maxRaft, rsm_sm = sm, pending = [], rsm_lastApplied = 0\<rparr>,
                 fresh_Raft n i (MakeFilePersister d Map.empty) emin erand hb))"
  by (simp add: MakeRSM_def Make_def MakeRSM_state_def MakeFilePersister_def ReadRaftState_def
      ReadSnapshot_def os_ReadFile_def os_next_def readPersist_def fresh_Raft_def snapshot_or_nil_def)

lemma find_me_nth:
  assumes "distinct (map node_ID ns)" "k < length ns"
  shows "find_me 0 ns (node_ID (ns ! k)) = int k"
  using assms by (subst find_me_found [of k]) (auto simp: distinct_conv_nth)

text \<open>What a started server is.\<close>

lemma StartNode_ok:
  assumes "StartNode cfg nodeID disk maxRaft dial listen = Some (inst, Inr srv)"
  shows "\<exists>k < length (Nodes cfg). node_ID (Nodes cfg ! k) = nodeID \<and> srv_me srv = int k \<and>
    srv_listening srv = Some (node_Addr (Nodes cfg ! k)) \<and>
    srv_transports srv = map (\<lambda>j. if j = k then NoopTransport else GrpcTransport (node_Addr (Nodes cfg ! j)))
      [0..<length (Nodes cfg)]"
proof (cases rule: find_me_cases [of nodeID "Nodes cfg"])
  case 1
  then show ?thesis using assms by (simp add: StartNode_def)
next
  case (2 k)
  then obtain ts where ts: "dial_peers dial 0 (int k) (Nodes cfg) [] = Inr ts" "srv_transports srv = ts"
      "srv_me srv = int k" "srv_listening srv = Some (node_Addr (Nodes cfg ! k))"
    using assms by (auto simp: StartNode_def Let_def idx_def bind_eq_Some_conv split: option.splits sum.splits if_splits)
  from dial_peers_Inr [OF ts(1)] 2 ts show ?thesis by auto
qed

lemma StartNode_dialled:
  assumes "find_me 0 (Nodes cfg) nodeID = int k" "k < length (Nodes cfg)" "\<forall>a. dial a"
  shows "\<exists>srv. StartNode cfg nodeID (Some ps) maxRaft dial listen =
    MakeRSM (length (Nodes cfg)) (int k) ps maxRaft NewStore (whole_milliseconds (ElectionTimeoutMin cfg))
      (whole_milliseconds (ElectionTimeoutRand cfg)) (whole_milliseconds (HeartbeatTimeout cfg)) \<bind>
    (\<lambda>inst. Some (Some inst, if listen (node_Addr (Nodes cfg ! k)) then Inr srv else Inl ListenError))"
proof -
  obtain ts where ts: "dial_peers dial 0 (int k) (Nodes cfg) [] = Inr ts"
    using dial_peers_Some [OF assms(3)] by blast
  have len: "length ts = length (Nodes cfg)" using dial_peers_Inr [OF ts] by simp
  show ?thesis using assms(2) ts len by (auto simp: StartNode_def Let_def assms(1) idx_def)
qed

lemma whole_milliseconds_0 [simp]: "whole_milliseconds 0 = 0" by (simp add: whole_milliseconds_def milliseconds_def)

lemma sort_key_distinct_eq:
  assumes "distinct (map f xs)" "mset xs = mset ys"
  shows "sort_key f xs = sort_key f ys"
  using assms by (intro sort_key_inj_key_eq) (simp_all add: distinct_map)

section \<open>Properties\<close>

text \<open>
  (C33) A configuration that is loaded has the nodes of the cluster file, no more and no fewer, ordered by
  their identifiers, and their number is \<open>2f + 1\<close> for some \<open>f \<ge> 1\<close>: any two majorities of it intersect and \<open>f\<close>
  servers may fail. The environment decides the times only.
\<close>

theorem load_valid:
  assumes "Load env (Document v) = Inr cfg"
  shows "\<exists>cfg0 f. unmarshal_config v = Some cfg0 \<and> mset (Nodes cfg) = mset (Nodes cfg0) \<and>
    sorted (map node_ID (Nodes cfg)) \<and> 1 \<le> f \<and> length (Nodes cfg) = 2 * f + 1"
  using assms by (auto simp: Load_Inr elim!: oddE)

lemma demo_Load: "Load Map.empty (Document demo_file) = Inr demo_cfg" by code_simp

theorem load_valid_witness:
  "\<exists>cfg0 f. unmarshal_config demo_file = Some cfg0 \<and> mset (Nodes demo_cfg) = mset (Nodes cfg0) \<and>
    sorted (map node_ID (Nodes demo_cfg)) \<and> 1 \<le> f \<and> length (Nodes demo_cfg) = 2 * f + 1"
  using load_valid [OF demo_Load] .

text \<open>
  (C32) Two servers whose cluster files list the same nodes, in any order, with different identifiers, agree on the
  numbering of the servers: their lists are equal, servers with different identifiers have
  different numbers, and the transport that the first has for the number of the second leads to the address on
  which the second listens.
\<close>

theorem servers_agree:
  assumes "Load env1 (Document v1) = Inr cfg1" "Load env2 (Document v2) = Inr cfg2"
    "unmarshal_config v1 = Some c1" "unmarshal_config v2 = Some c2"
    "mset (Nodes c1) = mset (Nodes c2)" "distinct (map node_ID (Nodes c1))"
    "StartNode cfg1 id1 disk1 maxRaft1 dial1 listen1 = Some (inst1, Inr srv1)"
    "StartNode cfg2 id2 disk2 maxRaft2 dial2 listen2 = Some (inst2, Inr srv2)"
  shows "Nodes cfg1 = Nodes cfg2 \<and> (srv_me srv1 = srv_me srv2 \<longleftrightarrow> id1 = id2) \<and>
    (id1 \<noteq> id2 \<longrightarrow> (\<exists>addr. srv_transports srv1 ! nat (srv_me srv2) = GrpcTransport addr \<and>
                        srv_listening srv2 = Some addr))"
proof -
  have eq: "Nodes cfg1 = Nodes cfg2" "Nodes cfg2 = sort_key node_ID (Nodes c2)"
    using assms(1-4) sort_key_distinct_eq [OF assms(6,5)] by (auto simp: Load_Inr)
  then have d: "distinct (map node_ID (Nodes cfg2))"
    using assms(5,6) by (metis distinct_map mset_eq_imp_distinct_iff mset_sort set_mset_mset)
  obtain k1 k2 where "k1 < length (Nodes cfg2)" "node_ID (Nodes cfg2 ! k1) = id1" "srv_me srv1 = int k1"
      "srv_transports srv1 = map (\<lambda>j. if j = k1 then NoopTransport else GrpcTransport (node_Addr (Nodes cfg2 ! j)))
        [0..<length (Nodes cfg2)]"
      "k2 < length (Nodes cfg2)" "node_ID (Nodes cfg2 ! k2) = id2" "srv_me srv2 = int k2"
      "srv_listening srv2 = Some (node_Addr (Nodes cfg2 ! k2))"
    using StartNode_ok [OF assms(7)] StartNode_ok [OF assms(8)] eq(1) by auto
  with eq d show ?thesis by (auto simp: distinct_conv_nth)
qed

lemma demo_start:
  assumes "i = 1 \<or> i = 2"
  shows "StartNode demo_cfg i demo_disk (-1) (\<lambda>_. True) (\<lambda>_. True) = Some (demo_inst i, Inr (demo_srv i))"
proof -
  have "case StartNode demo_cfg 1 demo_disk (-1) (\<lambda>_. True) (\<lambda>_. True) of Some (_, Inr srv) \<Rightarrow> True | _ \<Rightarrow> False"
    "case StartNode demo_cfg 2 demo_disk (-1) (\<lambda>_. True) (\<lambda>_. True) of Some (_, Inr srv) \<Rightarrow> True | _ \<Rightarrow> False"
    by code_simp+
  with assms show ?thesis by (auto simp: demo_srv_def demo_inst_def split: option.splits prod.splits sum.splits)
qed

theorem servers_agree_witness:
  "\<exists>addr. srv_transports (demo_srv 1) ! nat (srv_me (demo_srv 2)) = GrpcTransport addr \<and>
     srv_listening (demo_srv 2) = Some addr"
proof -
  obtain c where c: "unmarshal_config demo_file = Some c" "distinct (map node_ID (Nodes c))"
  proof -
    have "case unmarshal_config demo_file of Some c \<Rightarrow> distinct (map node_ID (Nodes c)) | None \<Rightarrow> False" by code_simp
    then show thesis using that by (auto split: option.splits)
  qed
  show ?thesis
    using servers_agree [OF demo_Load demo_Load c(1) c(1) refl c(2) demo_start demo_start, of 1 2] by simp
qed

text \<open>
  (C31) The servers of a loaded configuration with different identifiers, each started on an empty disk, are the
  servers of the initial state of the service, from which the reachable states of the system are counted.
\<close>

theorem start_gives_initial_system:
  fixes maxRaft :: int
  assumes "Load env (Document v) = Inr cfg" "distinct (map node_ID (Nodes cfg))" "\<forall>a. dial a" "\<forall>a. listen a"
    "whole_milliseconds (ElectionTimeoutRand cfg) \<noteq> 0"
  defines "s0 \<equiv> init_system (length (Nodes cfg)) maxRaft (whole_milliseconds (ElectionTimeoutMin cfg))
                (whole_milliseconds (ElectionTimeoutRand cfg)) (whole_milliseconds (HeartbeatTimeout cfg))"
  shows "sys_reachable byte_size (length (Nodes cfg)) s0 \<and>
    (\<forall>k < length (Nodes cfg). \<exists>srv.
       StartNode cfg (node_ID (Nodes cfg ! k)) (Some (MakeFilePersister ''data'' Map.empty)) maxRaft dial listen =
       Some (Some (rep_rsm (replica s0 (int k)), node (cl s0) (int k)), Inr srv))"
proof (intro conjI allI impI)
  show "sys_reachable byte_size (length (Nodes cfg)) s0"
    unfolding s0_def by (rule sys_reachable.start [OF assms(5)])
  fix k assume k: "k < length (Nodes cfg)"
  show "\<exists>srv. StartNode cfg (node_ID (Nodes cfg ! k)) (Some (MakeFilePersister ''data'' Map.empty)) maxRaft dial listen =
       Some (Some (rep_rsm (replica s0 (int k)), node (cl s0) (int k)), Inr srv)"
    using StartNode_dialled [OF find_me_nth [OF assms(2) k] k assms(3),
        of "MakeFilePersister ''data'' Map.empty" maxRaft listen] k assms(4,5)
    by (auto simp: MakeRSM_empty s0_def init_system_def replica_def init_replica_def node_def init_cluster_def
        init_node_def MakeFilePersister_def [of "''data''" Map.empty, symmetric])
qed

lemma demo_len: "length (Nodes demo_cfg) = 3" by (simp add: demo_cfg_def)

theorem start_gives_initial_system_witness:
  "\<exists>s0. sys_reachable (\<lambda>_. 0) 3 s0 \<and> (\<exists>srv.
     StartNode demo_cfg 2 demo_disk (-1) (\<lambda>_. True) (\<lambda>_. True) =
     Some (Some (rep_rsm (replica s0 1), node (cl s0) 1), Inr srv))"
proof -
  have "distinct (map node_ID (Nodes demo_cfg))" "whole_milliseconds (ElectionTimeoutRand demo_cfg) \<noteq> 0"
    by code_simp+
  from start_gives_initial_system [OF demo_Load this(1) _ _ this(2), of "\<lambda>_. True" "\<lambda>_. True" "\<lambda>_. 0" "-1"]
  have r: "sys_reachable (\<lambda>_. 0) 3 demo_init" and
    st: "\<forall>k < 3. \<exists>srv. StartNode demo_cfg (node_ID (Nodes demo_cfg ! k)) demo_disk (-1) (\<lambda>_. True) (\<lambda>_. True) =
     Some (Some (rep_rsm (replica demo_init (int k)), node (cl demo_init) (int k)), Inr srv)"
    by (simp_all add: demo_disk_def demo_len demo_init_def)
  from st [rule_format, of 1] have "\<exists>srv. StartNode demo_cfg 2 demo_disk (-1) (\<lambda>_. True) (\<lambda>_. True) =
     Some (Some (rep_rsm (replica demo_init 1), node (cl demo_init) 1), Inr srv)"
    by (simp add: demo_cfg_def)
  with r show ?thesis by blast
qed

text \<open>
  (C34) The error paths of \<^verbatim>\<open>StartNode\<close>. An unknown identifier is refused before anything is started. If the environment
  sets the jitter of the election timeout to 0, \<^verbatim>\<open>Load\<close> accepts it and the start panics, on every disk.
  If the address cannot be bound, the error is returned while the replicated state machine and
  Raft that have been started keep running.
\<close>

theorem start_errors:
  assumes "Load env (Document v) = Inr cfg"
  shows "(nodeID \<notin> node_ID ` set (Nodes cfg) \<longrightarrow>
      StartNode cfg nodeID disk maxRaft dial listen = Some (None, Inl (UnknownNode nodeID))) \<and>
    (nodeID \<in> node_ID ` set (Nodes cfg) \<and> (\<forall>a. dial a) \<and>
      env ''RAFT_ELECTION_TIMEOUT_RAND'' = Some txt \<and> Atoi txt = Some 0 \<longrightarrow>
      StartNode cfg nodeID (Some ps) maxRaft dial listen = None) \<and>
    (nodeID \<in> node_ID ` set (Nodes cfg) \<and> (\<forall>a. dial a) \<and> (\<forall>a. \<not> listen a) \<and>
      whole_milliseconds (ElectionTimeoutRand cfg) \<noteq> 0 \<longrightarrow>
      (\<exists>inst. StartNode cfg nodeID (Some (MakeFilePersister d Map.empty)) maxRaft dial listen =
         Some (Some inst, Inl ListenError)))"
proof (cases rule: find_me_cases [of nodeID "Nodes cfg"])
  case 1
  then show ?thesis by (simp add: StartNode_def)
next
  case (2 k)
  have rand: "ElectionTimeoutRand cfg = 0" if "env ''RAFT_ELECTION_TIMEOUT_RAND'' = Some txt" "Atoi txt = Some 0"
    using assms that by (auto simp: Load_Inr overrides_Rand GetEnvInt_def)
  have mem: "nodeID \<in> node_ID ` set (Nodes cfg)" using 2(1,2) by auto
  note st = StartNode_dialled [OF 2(3) 2(1), of dial]
  have "StartNode cfg nodeID (Some ps) maxRaft dial listen = None"
    if "\<forall>a. dial a" "env ''RAFT_ELECTION_TIMEOUT_RAND'' = Some txt" "Atoi txt = Some 0"
    using st [OF that(1), of ps maxRaft listen] rand [OF that(2,3)] by (auto simp: MakeRSM_def Make_def)
  moreover have "\<exists>inst. StartNode cfg nodeID (Some (MakeFilePersister d Map.empty)) maxRaft dial listen =
      Some (Some inst, Inl ListenError)"
    if "\<forall>a. dial a" "\<forall>a. \<not> listen a" "whole_milliseconds (ElectionTimeoutRand cfg) \<noteq> 0"
    using st [OF that(1), of "MakeFilePersister d Map.empty" maxRaft listen] that(2,3) by (auto simp: MakeRSM_empty)
  ultimately show ?thesis using mem by auto
qed

theorem start_errors_witness:
  "StartNode demo_zero 2 demo_disk (-1) (\<lambda>_. True) (\<lambda>_. True) = None"
proof -
  have "Load demo_env (Document demo_file) = Inr demo_zero" "demo_env ''RAFT_ELECTION_TIMEOUT_RAND'' = Some ''0''"
    "Atoi ''0'' = Some 0" "2 \<in> node_ID ` set (Nodes demo_zero)"
    by code_simp+
  with start_errors [of demo_env demo_file demo_zero 2 demo_disk "-1" "\<lambda>_. True" "\<lambda>_. True" "''0''"
      "MakeFilePersister ''data'' Map.empty" "''data''"]
  show ?thesis by (simp add: demo_disk_def)
qed

end
