(* ===== verification/Clerk.thy ===== *)
theory Clerk
  imports Kv_Service Kv_Config
begin

text \<open>
  The client library, \<^verbatim>\<open>kvraft/pkg/clerk/clerk.go\<close>. A clerk asks the servers in turn, follows the
  hints of servers that do not lead, and retries until it has an answer. The connections to the
  servers are an argument: what a request does to the world behind them and which response, if
  any, comes back. The loops may run forever; they are \<open>None\<close> then.
\<close>

section \<open>Loops without a condition\<close>

text \<open>\<^verbatim>\<open>for { ... }\<close>: the body returns (\<open>Inl\<close>) or goes on with the next state (\<open>Inr\<close>).\<close>

partial_function (option) go_for :: "('s \<Rightarrow> 'r + 's) \<Rightarrow> 's \<Rightarrow> 'r option" where
  "go_for body s = (case body s of Inl r \<Rightarrow> Some r | Inr s' \<Rightarrow> go_for body s')"

declare go_for.simps [code]

text \<open>A call that returns a value or panics.\<close>

datatype 'a go = Panics | Returns 'a

section \<open>The clerk\<close>

record Clerk =
  addresses :: "string list"
  lastLeader :: int
  connections :: "string list"
  clients :: "string list"
  rpcTimeout :: int
  retrySleep :: int

text \<open>
  The generated client stubs: a request to the server behind a connection, in a world \<open>'w\<close>.
  \<open>None\<close> is an error of the call, for instance its timeout.
\<close>

record 'w KVClient =
  kv_Get :: "string \<Rightarrow> GetRequest \<Rightarrow> 'w \<Rightarrow> GetResponse option \<times> 'w"
  kv_Put :: "string \<Rightarrow> PutRequest \<Rightarrow> 'w \<Rightarrow> PutResponse option \<times> 'w"
  go_Sleep :: "int \<Rightarrow> 'w \<Rightarrow> 'w"

definition seconds :: "int \<Rightarrow> int" where
  "seconds i = sint (word_of_int (i * 1000000000) :: 64 word)"

text \<open>The loop of \<^verbatim>\<open>NewClerk\<close>: \<open>Inl\<close> has the connections that are closed after a failure.\<close>

fun dial_all :: "(string \<Rightarrow> bool) \<Rightarrow> string list \<Rightarrow> string list \<Rightarrow> string list + string list" where
  "dial_all dial [] conns = Inr conns"
| "dial_all dial (a # as) conns = (if dial a then dial_all dial as (conns @ [a]) else Inl conns)"

definition NewClerk :: "(string \<Rightarrow> bool) \<Rightarrow> environ \<Rightarrow> string list \<Rightarrow> string list + Clerk" where
  "NewClerk dial env as =
     (case dial_all dial as [] of
        Inl closed \<Rightarrow> Inl closed
      | Inr conns \<Rightarrow>
          Inr \<lparr>addresses = as, lastLeader = 0, connections = conns, clients = conns,
               rpcTimeout = seconds (GetEnvInt env ''CLERK_RPC_TIMEOUT'' 5),
               retrySleep = milliseconds (GetEnvInt env ''CLERK_RETRY_SLEEP'' 20)\<rparr>)"

text \<open>The connections that \<^verbatim>\<open>Close\<close> closes.\<close>

definition Close :: "Clerk \<Rightarrow> string list" where
  "Close ck = connections ck"

definition pbStatusToErr :: "Status \<Rightarrow> Err" where
  "pbStatusToErr s =
     (case s of
        Status_OK \<Rightarrow> OK
      | ERR_NO_KEY \<Rightarrow> ErrNoKey
      | ERR_VERSION \<Rightarrow> ErrVersion
      | ERR_WRONG_LEADER \<Rightarrow> ErrWrongLeader
      | ERR_MAYBE \<Rightarrow> ErrMaybe
      | _ \<Rightarrow> ErrWrongLeader)"

section \<open>Get and Put\<close>

text \<open>The variables of the loops.\<close>

record 'w clerk_loop =
  cs_srv :: int
  cs_firstAttempt :: bool
  cs_tried :: int
  cs_world :: 'w

text \<open>
  The end of both loop bodies: follow the hint, or go to the next server; sleep after a round.
  \<open>n\<close> is \<^verbatim>\<open>len(ck.clients)\<close>.
\<close>

definition next_server :: "int \<Rightarrow> int \<Rightarrow> int option \<Rightarrow> int" where
  "next_server n srv hint =
     (case hint of
        Some h \<Rightarrow> if h \<ge> 0 \<and> h < n \<and> h \<noteq> srv then h else (srv + 1) mod n
      | None \<Rightarrow> (srv + 1) mod n)"

definition retry :: "'w KVClient \<Rightarrow> Clerk \<Rightarrow> int option \<Rightarrow> 'w clerk_loop \<Rightarrow> 'w clerk_loop" where
  "retry net ck hint st =
     (let n = int (length (clients ck));
          tried = cs_tried st + 1;
          st' = st\<lparr>cs_srv := next_server n (cs_srv st) hint\<rparr>
      in if tried \<ge> n then st'\<lparr>cs_world := go_Sleep net (retrySleep ck) (cs_world st'), cs_tried := 0\<rparr>
         else st'\<lparr>cs_tried := tried\<rparr>)"

definition Get_body ::
  "'w KVClient \<Rightarrow> Clerk \<Rightarrow> string \<Rightarrow> 'w clerk_loop \<Rightarrow>
   ((string \<times> 64 word \<times> Err) go \<times> Clerk \<times> 'w) + 'w clerk_loop" where
  "Get_body net ck key st =
     (case idx (clients ck) (cs_srv st) of
        None \<Rightarrow> Inl (Panics, ck, cs_world st)
      | Some c \<Rightarrow>
          (case kv_Get net c \<lparr>gq_Key = key\<rparr> (cs_world st) of
             (None, w) \<Rightarrow> Inr (retry net ck None (st\<lparr>cs_world := w\<rparr>))
           | (Some resp, w) \<Rightarrow>
               if gs_Status resp \<noteq> ERR_WRONG_LEADER then
                 Inl (Returns (gs_Value resp, gs_Version resp, pbStatusToErr (gs_Status resp)),
                      ck\<lparr>lastLeader := cs_srv st\<rparr>, w)
               else Inr (retry net ck (Some (of_int32 (gs_LeaderHint resp))) (st\<lparr>cs_world := w\<rparr>))))"

definition Put_body ::
  "'w KVClient \<Rightarrow> Clerk \<Rightarrow> string \<Rightarrow> string \<Rightarrow> 64 word \<Rightarrow> 'w clerk_loop \<Rightarrow>
   (Err go \<times> Clerk \<times> 'w) + 'w clerk_loop" where
  "Put_body net ck key val version st =
     (case idx (clients ck) (cs_srv st) of
        None \<Rightarrow> Inl (Panics, ck, cs_world st)
      | Some c \<Rightarrow>
          (case kv_Put net c \<lparr>pq_Key = key, pq_Value = val, pq_Version = version\<rparr> (cs_world st) of
             (None, w) \<Rightarrow> Inr (retry net ck None (st\<lparr>cs_world := w, cs_firstAttempt := False\<rparr>))
           | (Some resp, w) \<Rightarrow>
               let e = pbStatusToErr (ps_Status resp);
                   hint = Some (of_int32 (ps_LeaderHint resp))
               in if e = OK then Inl (Returns OK, ck\<lparr>lastLeader := cs_srv st\<rparr>, w)
                  else if e = ErrVersion then
                    Inl (Returns (if cs_firstAttempt st then ErrVersion else ErrMaybe),
                         ck\<lparr>lastLeader := cs_srv st\<rparr>, w)
                  else if e = ErrWrongLeader then Inr (retry net ck hint (st\<lparr>cs_world := w\<rparr>))
                  else Inr (retry net ck hint (st\<lparr>cs_world := w, cs_firstAttempt := False\<rparr>))))"

definition clerk_start :: "Clerk \<Rightarrow> 'w \<Rightarrow> 'w clerk_loop" where
  "clerk_start ck w =
     \<lparr>cs_srv = lastLeader ck, cs_firstAttempt = True, cs_tried = 0, cs_world = w\<rparr>"

definition Clerk_Get ::
  "'w KVClient \<Rightarrow> Clerk \<Rightarrow> string \<Rightarrow> 'w \<Rightarrow> ((string \<times> 64 word \<times> Err) go \<times> Clerk \<times> 'w) option" where
  "Clerk_Get net ck key w = go_for (Get_body net ck key) (clerk_start ck w)"

definition Clerk_Put ::
  "'w KVClient \<Rightarrow> Clerk \<Rightarrow> string \<Rightarrow> string \<Rightarrow> 64 word \<Rightarrow> 'w \<Rightarrow> (Err go \<times> Clerk \<times> 'w) option" where
  "Clerk_Put net ck key val version w = go_for (Put_body net ck key val version) (clerk_start ck w)"

section \<open>Observing the requests\<close>

text \<open>The same connections, with a record of the responses to \<^verbatim>\<open>Put\<close> requests.\<close>

definition recording :: "'w KVClient \<Rightarrow> ('w \<times> PutResponse option list) KVClient" where
  "recording net =
     \<lparr>kv_Get = \<lambda>c req (w, tr). let (r, w') = kv_Get net c req w in (r, w', tr),
      kv_Put = \<lambda>c req (w, tr). let (r, w') = kv_Put net c req w in (r, w', tr @ [r]),
      go_Sleep = \<lambda>d (w, tr). (go_Sleep net d w, tr)\<rparr>"

definition status_of :: "PutResponse option \<Rightarrow> Err option" where
  "status_of r = map_option (\<lambda>r. pbStatusToErr (ps_Status r)) r"

text \<open>A number of a server that the clerk has.\<close>

definition in_range :: "Clerk \<Rightarrow> int \<Rightarrow> bool" where
  "in_range ck srv \<longleftrightarrow> 0 \<le> srv \<and> srv < int (length (clients ck))"

text \<open>
  Servers for examples: one that answers every request, one that does not lead and knows no leader, two
  that hint at each other. A clerk of all of them starts at the second.
\<close>

definition demo_net :: "unit KVClient" where
  "demo_net =
     \<lparr>kv_Get = \<lambda>c req w.
        (if c = ''a'' then Some \<lparr>gs_Status = Status_OK, gs_Value = ''v'', gs_Version = 1, gs_LeaderHint = 0\<rparr>
         else Some \<lparr>gs_Status = ERR_WRONG_LEADER, gs_Value = [], gs_Version = 0,
                    gs_LeaderHint = (if c = ''b'' then -1 else if c = ''c'' then 3 else 2)\<rparr>, w),
      kv_Put = \<lambda>c req w.
        (if c = ''a'' then Some \<lparr>ps_Status = Status_OK, ps_LeaderHint = 0\<rparr>
         else Some \<lparr>ps_Status = ERR_WRONG_LEADER,
                    ps_LeaderHint = (if c = ''b'' then -1 else if c = ''c'' then 3 else 2)\<rparr>, w),
      go_Sleep = \<lambda>d w. w\<rparr>"

definition demo_clerk :: "string list \<Rightarrow> int \<Rightarrow> Clerk" where
  "demo_clerk cs srv =
     \<lparr>addresses = cs, lastLeader = srv, connections = cs, clients = cs, rpcTimeout = 5, retrySleep = 20\<rparr>"

definition demo_trace :: "PutResponse option list" where
  "demo_trace = [Some \<lparr>ps_Status = ERR_WRONG_LEADER, ps_LeaderHint = -1\<rparr>,
     Some \<lparr>ps_Status = Status_OK, ps_LeaderHint = 0\<rparr>]"

section \<open>Rules for loops\<close>

lemma go_for_rule:
  assumes "go_for body s = Some r" "I s"
    and "\<And>s s'. I s \<Longrightarrow> body s = Inr s' \<Longrightarrow> I s'" and "\<And>s r. I s \<Longrightarrow> body s = Inl r \<Longrightarrow> Q r"
  shows "Q r"
proof -
  have "I s \<longrightarrow> Q r"
    by (rule go_for.raw_induct [where P = "\<lambda>b s r. b = body \<longrightarrow> I s \<longrightarrow> Q r", OF _ assms(1), simplified])
      (auto split: sum.splits dest: assms(3,4))
  with assms(2) show ?thesis by blast
qed

lemma go_for_terminates:
  assumes "I s" and "\<And>s s'. I s \<Longrightarrow> body s = Inr s' \<Longrightarrow> I s' \<and> m s' < (m s :: nat)"
  shows "\<exists>r. go_for body s = Some r"
  using assms(1)
proof (induction "m s" arbitrary: s rule: less_induct)
  case less
  then show ?case using assms(2) [OF less.prems] by (subst go_for.simps) (auto split: sum.splits)
qed

lemma go_for_diverges:
  assumes "I s" and "\<And>s. I s \<Longrightarrow> \<exists>s'. body s = Inr s' \<and> I s'"
  shows "go_for body s = None"
proof (rule ccontr)
  assume "go_for body s \<noteq> None"
  then obtain r where "go_for body s = Some r" by blast
  then show False by (rule go_for_rule [where I = I and Q = "\<lambda>_. False"]) (use assms in fastforce)+
qed

section \<open>The server that is asked\<close>

lemma next_server_range: "0 < n \<Longrightarrow> 0 \<le> next_server n srv hint \<and> next_server n srv hint < n"
  by (auto simp: next_server_def split: option.splits)

lemma retry_sel:
  "cs_srv (retry net ck hint st) = next_server (int (length (clients ck))) (cs_srv st) hint"
  "cs_firstAttempt (retry net ck hint st) = cs_firstAttempt st"
  "cs_world (retry net ck hint st) \<in> {cs_world st, go_Sleep net (retrySleep ck) (cs_world st)}"
  by (auto simp: retry_def Let_def)

lemma retry_range:
  assumes "in_range ck (cs_srv st)"
  shows "in_range ck (cs_srv (retry net ck hint st))"
proof -
  have "0 < int (length (clients ck))" using assms unfolding in_range_def by linarith
  from next_server_range [OF this] show ?thesis by (simp add: in_range_def retry_sel)
qed

lemma idx_in_range: "in_range ck srv \<Longrightarrow> idx (clients ck) srv = Some (clients ck ! nat srv)"
  by (simp add: in_range_def idx_def)

lemma Get_body_range:
  assumes "in_range ck (cs_srv st)"
  shows "Get_body net ck key st = Inr st' \<Longrightarrow> in_range ck (cs_srv st')"
    "Get_body net ck key st = Inl (r, ck', w) \<Longrightarrow> r \<noteq> Panics \<and> clients ck' = clients ck \<and> in_range ck (lastLeader ck')"
  using assms
  by (auto simp: Get_body_def idx_in_range intro!: retry_range split: prod.splits option.splits if_splits)

lemma Put_body_range:
  assumes "in_range ck (cs_srv st)"
  shows "Put_body net ck key val version st = Inr st' \<Longrightarrow> in_range ck (cs_srv st')"
    "Put_body net ck key val version st = Inl (r, ck', w) \<Longrightarrow>
      r \<noteq> Panics \<and> clients ck' = clients ck \<and> in_range ck (lastLeader ck')"
  using assms
  by (auto simp: Put_body_def idx_in_range Let_def intro!: retry_range split: prod.splits option.splits if_splits)

lemma dial_all_Inr: "dial_all dial as conns = Inr conns' \<Longrightarrow> conns' = conns @ as"
  by (induction as arbitrary: conns) (fastforce split: if_splits)+

lemma NewClerk_range:
  "NewClerk dial env as = Inr ck \<Longrightarrow> as \<noteq> [] \<Longrightarrow> in_range ck (lastLeader ck)"
  by (auto simp: NewClerk_def in_range_def dest!: dial_all_Inr split: sum.splits)

lemma Clerk_Get_range:
  assumes "in_range ck (lastLeader ck)" "Clerk_Get net ck key w = Some (r, ck', w')"
  shows "r \<noteq> Panics \<and> in_range ck' (lastLeader ck')"
proof -
  have "case (r, ck', w') of (r, ck', w') \<Rightarrow> r \<noteq> Panics \<and> clients ck' = clients ck \<and> in_range ck (lastLeader ck')"
    using assms unfolding Clerk_Get_def
    by (elim go_for_rule [where I = "\<lambda>st. in_range ck (cs_srv st)"])
      (auto simp: clerk_start_def Get_body_range(1) dest: Get_body_range(2))
  then show ?thesis by (simp add: in_range_def)
qed

lemma Clerk_Put_range:
  assumes "in_range ck (lastLeader ck)" "Clerk_Put net ck key val version w = Some (r, ck', w')"
  shows "r \<noteq> Panics \<and> in_range ck' (lastLeader ck')"
proof -
  have "case (r, ck', w') of (r, ck', w') \<Rightarrow> r \<noteq> Panics \<and> clients ck' = clients ck \<and> in_range ck (lastLeader ck')"
    using assms unfolding Clerk_Put_def
    by (elim go_for_rule [where I = "\<lambda>st. in_range ck (cs_srv st)"])
      (auto simp: clerk_start_def Put_body_range(1) dest: Put_body_range(2))
  then show ?thesis by (simp add: in_range_def)
qed

lemma recording_put:
  "kv_Put (recording net) c req (w, tr) = (r, w', tr') \<longleftrightarrow> kv_Put net c req w = (r, w') \<and> tr' = tr @ [r]"
  by (auto simp: recording_def split: prod.splits)

lemma recording_sleep: "go_Sleep (recording net) d (w, tr) = (go_Sleep net d w, tr)"
  by (simp add: recording_def)

lemma retry_trace: "snd (cs_world (retry (recording net) ck hint st)) = snd (cs_world st)"
  using retry_sel(3) [of "recording net" ck hint st] by (cases "cs_world st") (auto simp: recording_sleep)

text \<open>Going to the next server, or to \<open>l\<close>, comes closer to \<open>l\<close> in the order of the round.\<close>

lemma next_server_closer:
  assumes "0 \<le> srv" "srv < n" "0 \<le> l" "l < n" "srv \<noteq> l" "\<And>h. hint = Some h \<Longrightarrow> h = l \<or> h = srv \<or> h < 0 \<or> n \<le> h"
  shows "(l - next_server n srv hint) mod n < (l - srv) mod n"
proof -
  have pos: "0 < (l - srv) mod n"
  proof (cases "srv < l")
    case True
    then show ?thesis using assms(1-4) by simp
  next
    case False
    then have "(l - srv) mod n = (l - srv + n) mod n" by simp
    also have "\<dots> = l - srv + n" using False assms(1-5) by (intro mod_pos_pos_trivial) auto
    finally show ?thesis using assms(2,3) by simp
  qed
  have "(l - (srv + 1) mod n) mod n = ((l - srv) mod n - 1) mod n"
    by (simp add: mod_diff_left_eq mod_diff_right_eq algebra_simps)
  also have "\<dots> = (l - srv) mod n - 1"
    using pos assms(1,2) pos_mod_bound [of n "l - srv"] by (intro mod_pos_pos_trivial) linarith+
  finally have "(l - (srv + 1) mod n) mod n < (l - srv) mod n" by simp
  moreover have "next_server n srv hint = l \<or> next_server n srv hint = (srv + 1) mod n"
    using assms(6) by (cases hint) (auto simp: next_server_def)
  ultimately show ?thesis using pos by auto
qed

text \<open>One failed attempt of \<open>Put\<close>.\<close>

lemma Put_body_Inr:
  assumes "Put_body (recording net) ck key val version st = Inr st'" "in_range ck (cs_srv st)"
  shows "\<exists>r req w'. fst (kv_Put net (clients ck ! nat (cs_srv st)) req w') = r \<and>
    status_of r \<noteq> Some OK \<and> status_of r \<noteq> Some ErrVersion \<and> snd (cs_world st') = snd (cs_world st) @ [r] \<and>
    cs_srv st' = next_server (int (length (clients ck))) (cs_srv st) (map_option (\<lambda>x. of_int32 (ps_LeaderHint x)) r)"
proof -
  obtain w tr where w: "cs_world st = (w, tr)" by (cases "cs_world st")
  define req where "req = \<lparr>pq_Key = key, pq_Value = val, pq_Version = version\<rparr>"
  obtain r w' where r: "kv_Put net (clients ck ! nat (cs_srv st)) req w = (r, w')" by fastforce
  then have "kv_Put (recording net) (clients ck ! nat (cs_srv st)) req (w, tr) = (r, w', tr @ [r])"
    by (simp add: recording_put)
  with assms w have "status_of r \<noteq> Some OK \<and> status_of r \<noteq> Some ErrVersion \<and> snd (cs_world st') = snd (cs_world st) @ [r] \<and>
    cs_srv st' = next_server (int (length (clients ck))) (cs_srv st) (map_option (\<lambda>x. of_int32 (ps_LeaderHint x)) r)"
    by (auto simp: Put_body_def idx_in_range req_def Let_def retry_trace retry_sel(1) status_of_def
        split: option.splits if_splits)
  with r show ?thesis by (metis fst_conv)
qed

lemma demo_Put:
  "Clerk_Put demo_net (demo_clerk [''b'', ''a''] 0) ''k'' ''v'' 0 () = Some (Returns OK, demo_clerk [''b'', ''a''] 1, ())"
  by code_simp

lemma demo_Put_recorded:
  "Clerk_Put (recording demo_net) (demo_clerk [''b'', ''a''] 0) ''k'' ''v'' 0 ((), []) =
     Some (Returns OK, demo_clerk [''b'', ''a''] 1, (), demo_trace)"
  by code_simp

section \<open>Properties\<close>

text \<open>
  (C25) A clerk never panics. A clerk of at least one address starts at a server that it has, and every \<open>Get\<close>
  and \<open>Put\<close> that returns, returns a result and leaves a clerk that again starts at a server that it has; so this
  holds over any sequence of calls, whatever the servers answer and hint at.
\<close>

theorem clerk_never_panics:
  "(\<forall>dial env as ck. NewClerk dial env as = Inr ck \<and> as \<noteq> [] \<longrightarrow> in_range ck (lastLeader ck)) \<and>
   (\<forall>ck key w r ck' w'. in_range ck (lastLeader ck) \<and> Clerk_Get net ck key w = Some (r, ck', w') \<longrightarrow>
      r \<noteq> Panics \<and> in_range ck' (lastLeader ck')) \<and>
   (\<forall>ck key val version w r ck' w'. in_range ck (lastLeader ck) \<and>
      Clerk_Put net ck key val version w = Some (r, ck', w') \<longrightarrow>
      r \<noteq> Panics \<and> in_range ck' (lastLeader ck'))"
proof (intro conjI allI impI; elim conjE)
  show "in_range ck (lastLeader ck)" if "NewClerk dial env as = Inr ck" "as \<noteq> []" for dial env as ck
    using that by (rule NewClerk_range)
next
  fix ck key w r ck' w' assume "in_range ck (lastLeader ck)" "Clerk_Get net ck key w = Some (r, ck', w')"
  from Clerk_Get_range [OF this] show "r \<noteq> Panics" "in_range ck' (lastLeader ck')" by simp_all
next
  fix ck key val version w r ck' w'
  assume "in_range ck (lastLeader ck)" "Clerk_Put net ck key val version w = Some (r, ck', w')"
  from Clerk_Put_range [OF this] show "r \<noteq> Panics" "in_range ck' (lastLeader ck')" by simp_all
qed

theorem clerk_never_panics_witness:
  "case Clerk_Put demo_net (demo_clerk [''b'', ''a''] 0) ''k'' ''v'' 0 () of
     Some (r, ck', w') \<Rightarrow> r \<noteq> Panics \<and> in_range ck' (lastLeader ck') | None \<Rightarrow> False"
proof -
  have "in_range (demo_clerk [''b'', ''a''] 0) (lastLeader (demo_clerk [''b'', ''a''] 0))"
    by (simp add: in_range_def demo_clerk_def)
  from clerk_never_panics [of demo_net, THEN conjunct2, THEN conjunct2, rule_format, OF conjI, OF this demo_Put]
  show ?thesis unfolding demo_Put by simp
qed

text \<open>
  (C23) What the result of \<open>Put\<close> says about the responses. The clerk goes on until the first response \<open>OK\<close> or
  \<open>ErrVersion\<close>, which is the last one. \<open>OK\<close> is returned exactly for \<open>OK\<close>. \<open>ErrVersion\<close> is returned
  exactly if every response before was \<open>ErrWrongLeader\<close>; if some request before was lost or got
  another response, \<open>ErrMaybe\<close> is returned.
\<close>

theorem put_result_meaning:
  assumes "in_range ck (lastLeader ck)"
    and "Clerk_Put (recording net) ck key val version (w, []) = Some (Returns e, ck', w', tr)"
  shows "\<exists>before final. tr = before @ [final] \<and>
    (\<forall>r \<in> set before. status_of r \<noteq> Some OK \<and> status_of r \<noteq> Some ErrVersion) \<and>
    (e = OK \<and> status_of final = Some OK \<or>
     e = ErrVersion \<and> status_of final = Some ErrVersion \<and> (\<forall>r \<in> set before. status_of r = Some ErrWrongLeader) \<or>
     e = ErrMaybe \<and> status_of final = Some ErrVersion \<and> (\<exists>r \<in> set before. status_of r \<noteq> Some ErrWrongLeader))"
proof -
  let ?I = "\<lambda>st. in_range ck (cs_srv st) \<and>
    (\<forall>r \<in> set (snd (cs_world st)). status_of r \<noteq> Some OK \<and> status_of r \<noteq> Some ErrVersion) \<and>
    (cs_firstAttempt st \<longleftrightarrow> (\<forall>r \<in> set (snd (cs_world st)). status_of r = Some ErrWrongLeader))"
  let ?Q = "\<lambda>(r, ck' :: Clerk, w' :: 'a, tr). \<forall>e. r = Returns e \<longrightarrow> (\<exists>before final. tr = before @ [final] \<and>
    (\<forall>r \<in> set before. status_of r \<noteq> Some OK \<and> status_of r \<noteq> Some ErrVersion) \<and>
    (e = OK \<and> status_of final = Some OK \<or>
     e = ErrVersion \<and> status_of final = Some ErrVersion \<and> (\<forall>r \<in> set before. status_of r = Some ErrWrongLeader) \<or>
     e = ErrMaybe \<and> status_of final = Some ErrVersion \<and> (\<exists>r \<in> set before. status_of r \<noteq> Some ErrWrongLeader)))"
  have "?Q (Returns e, ck', w', tr)"
  proof (rule go_for_rule [OF assms(2) [unfolded Clerk_Put_def], where I = ?I and Q = ?Q])
    show "?I (clerk_start ck (w, []))" using assms(1) by (simp add: clerk_start_def)
  next
    fix st st' assume I: "?I st" and b: "Put_body (recording net) ck key val version st = Inr st'"
    obtain w tr where w: "cs_world st = (w, tr)" by (cases "cs_world st")
    from I b w show "?I st'"
      using Put_body_range(1) [of ck st "recording net" key val version st']
      by (auto simp: Put_body_def idx_in_range recording_put Let_def retry_trace retry_sel(2) status_of_def
          split: option.splits if_splits prod.splits)
  next
    fix st r assume I: "?I st" and b: "Put_body (recording net) ck key val version st = Inl r"
    obtain w tr where w: "cs_world st = (w, tr)" by (cases "cs_world st")
    from I b w show "?Q r"
      by (auto simp: Put_body_def idx_in_range recording_put Let_def status_of_def
          split: option.splits if_splits prod.splits)
  qed
  then show ?thesis by simp
qed

theorem put_result_meaning_witness:
  "\<exists>before final. demo_trace = before @ [final] \<and> status_of final = Some OK"
proof -
  have "in_range (demo_clerk [''b'', ''a''] 0) (lastLeader (demo_clerk [''b'', ''a''] 0))"
    by (simp add: in_range_def demo_clerk_def)
  from put_result_meaning [OF this demo_Put_recorded] show ?thesis by auto
qed

text \<open>
  (C24) A \<open>Put\<close> returns. Let server \<open>l\<close> give an answer to every request, \<open>OK\<close> or a version conflict, and let the other
  servers, if they respond, hint at \<open>l\<close> or not at another server. Then a \<open>Put\<close> returns after at most
  as many requests as there are servers, wherever it starts.
\<close>

theorem put_returns:
  assumes "in_range ck (lastLeader ck)" "in_range ck l"
    and "\<And>req w. status_of (fst (kv_Put net (clients ck ! nat l) req w)) \<in> {Some OK, Some ErrVersion}"
    and "\<And>srv req w resp. in_range ck srv \<Longrightarrow> srv \<noteq> l \<Longrightarrow> fst (kv_Put net (clients ck ! nat srv) req w) = Some resp \<Longrightarrow>
       of_int32 (ps_LeaderHint resp) \<in> {l, srv} \<or> \<not> in_range ck (of_int32 (ps_LeaderHint resp))"
  shows "\<exists>e ck' w' tr. Clerk_Put (recording net) ck key val version (w, []) = Some (Returns e, ck', w', tr) \<and>
    length tr \<le> length (clients ck)"
proof -
  define n where "n = int (length (clients ck))"
  define dist where "dist st = nat ((l - cs_srv st) mod n)" for st :: "('a \<times> PutResponse option list) clerk_loop"
  define I where "I st \<longleftrightarrow> in_range ck (cs_srv st) \<and> length (snd (cs_world st)) + dist st < length (clients ck)" for st
  have n: "0 < n" using assms(2) unfolding in_range_def n_def by linarith
  have start: "I (clerk_start ck (w, []))"
    using assms(1) n pos_mod_bound [OF n] by (simp add: I_def clerk_start_def dist_def n_def nat_less_iff)
  have step: "I st' \<and> dist st' < dist st"
    if st: "I st" and b: "Put_body (recording net) ck key val version st = Inr st'" for st st'
  proof -
    have rng: "in_range ck (cs_srv st)" using st by (simp add: I_def)
    obtain r req w' where r: "fst (kv_Put net (clients ck ! nat (cs_srv st)) req w') = r"
      "status_of r \<noteq> Some OK" "status_of r \<noteq> Some ErrVersion" "snd (cs_world st') = snd (cs_world st) @ [r]"
      "cs_srv st' = next_server n (cs_srv st) (map_option (\<lambda>x. of_int32 (ps_LeaderHint x)) r)"
      using Put_body_Inr [OF b rng] unfolding n_def by blast
    have l: "cs_srv st \<noteq> l" using assms(3) [of req w'] r(1-3) by auto
    then have "(l - cs_srv st') mod n < (l - cs_srv st) mod n"
      using rng assms(2) assms(4) [OF rng l, of req w'] r(1)
      unfolding r(5) by (intro next_server_closer) (auto simp: in_range_def n_def)
    then have "dist st' < dist st"
      using pos_mod_sign [OF n, of "l - cs_srv st'"] by (simp add: dist_def nat_less_eq_zless)
    then show ?thesis using st r(4) Put_body_range(1) [OF rng b] by (simp add: I_def)
  qed
  obtain e where e: "go_for (Put_body (recording net) ck key val version) (clerk_start ck (w, [])) = Some e"
    using go_for_terminates [where I = I and m = dist, OF start step] by blast
  let ?Q = "\<lambda>(r :: Err go, ck' :: Clerk, w' :: 'a, tr). r \<noteq> Panics \<and> length tr \<le> length (clients ck)"
  have "?Q e"
  proof (rule go_for_rule [where I = I and Q = ?Q, OF e start])
    fix st x assume st: "I st" and b: "Put_body (recording net) ck key val version st = Inl x"
    obtain w tr where w: "cs_world st = (w, tr)" by (cases "cs_world st")
    show "?Q x"
      using st b w by (auto simp: I_def Put_body_def idx_in_range Let_def recording_put
          split: option.splits if_splits prod.splits)
  qed (use step in blast)
  moreover obtain r ck' w' tr where "e = (r, ck', w', tr)" by (cases e)
  ultimately show ?thesis using e unfolding Clerk_Put_def by (cases r) auto
qed

theorem put_returns_witness:
  "\<exists>e ck' w' tr. Clerk_Put (recording demo_net) (demo_clerk [''b'', ''a''] 0) ''k'' ''v'' 0 ((), []) =
     Some (Returns e, ck', w', tr) \<and> length tr \<le> length (clients (demo_clerk [''b'', ''a''] 0))"
proof (rule put_returns [where l = 1])
  show "status_of (fst (kv_Put demo_net (clients (demo_clerk [''b'', ''a''] 0) ! nat 1) req w)) \<in> {Some OK, Some ErrVersion}"
    for req w by (simp add: demo_net_def demo_clerk_def status_of_def pbStatusToErr_def)
next
  fix srv req w resp
  assume "in_range (demo_clerk [''b'', ''a''] 0) srv" "srv \<noteq> 1"
    "fst (kv_Put demo_net (clients (demo_clerk [''b'', ''a''] 0) ! nat srv) req w) = Some resp"
  moreover from this(1) have "srv = 0 \<or> srv = 1" by (auto simp: in_range_def demo_clerk_def)
  ultimately show "of_int32 (ps_LeaderHint resp) \<in> {1, srv} \<or>
      \<not> in_range (demo_clerk [''b'', ''a''] 0) (of_int32 (ps_LeaderHint resp))"
    by (auto simp: demo_net_def demo_clerk_def in_range_def of_int32_def)
qed (simp_all add: in_range_def demo_clerk_def)

text \<open>
  (C26) A \<open>Put\<close> or \<open>Get\<close> that never returns. If two servers answer that they do not lead and hint at each other, a clerk that
  comes to one of them asks these two forever, whatever the other servers, a leader among
  them, would answer.
\<close>

theorem hint_cycle_never_returns:
  assumes "in_range ck x" "in_range ck y" "x \<noteq> y" "lastLeader ck \<in> {x, y}"
    and "\<And>srv req w. srv \<in> {x, y} \<Longrightarrow> \<exists>resp w'. kv_Get net (clients ck ! nat srv) req w = (Some resp, w') \<and>
      gs_Status resp = ERR_WRONG_LEADER \<and> of_int32 (gs_LeaderHint resp) = (if srv = x then y else x)"
    and "\<And>srv req w. srv \<in> {x, y} \<Longrightarrow> \<exists>resp w'. kv_Put net (clients ck ! nat srv) req w = (Some resp, w') \<and>
      ps_Status resp = ERR_WRONG_LEADER \<and> of_int32 (ps_LeaderHint resp) = (if srv = x then y else x)"
  shows "Clerk_Get net ck key w = None \<and> Clerk_Put net ck key val version w = None"
proof
  have nx: "next_server (int (length (clients ck))) srv (Some (if srv = x then y else x)) \<in> {x, y}" if "srv \<in> {x, y}" for srv
    using that assms(1-3) by (auto simp: next_server_def in_range_def)
  have ix: "idx (clients ck) srv = Some (clients ck ! nat srv)" if "srv \<in> {x, y}" for srv
    using that assms(1,2) idx_in_range by blast
  have "\<exists>st'. Get_body net ck key st = Inr st' \<and> cs_srv st' \<in> {x, y}" if s: "cs_srv st \<in> {x, y}" for st
  proof -
    obtain resp w' where "kv_Get net (clients ck ! nat (cs_srv st)) \<lparr>gq_Key = key\<rparr> (cs_world st) = (Some resp, w')"
      "gs_Status resp = ERR_WRONG_LEADER" "of_int32 (gs_LeaderHint resp) = (if cs_srv st = x then y else x)"
      using assms(5) [OF s] by blast
    then show ?thesis using nx [OF s] by (simp add: Get_body_def ix [OF s] retry_sel(1))
  qed
  then show "Clerk_Get net ck key w = None" unfolding Clerk_Get_def
    by (intro go_for_diverges [where I = "\<lambda>st. cs_srv st \<in> {x, y}"]) (use assms(4) in \<open>auto simp: clerk_start_def\<close>)
  have "\<exists>st'. Put_body net ck key val version st = Inr st' \<and> cs_srv st' \<in> {x, y}" if s: "cs_srv st \<in> {x, y}" for st
  proof -
    obtain resp w' where "kv_Put net (clients ck ! nat (cs_srv st)) \<lparr>pq_Key = key, pq_Value = val, pq_Version = version\<rparr> (cs_world st)
        = (Some resp, w')"
      "ps_Status resp = ERR_WRONG_LEADER" "of_int32 (ps_LeaderHint resp) = (if cs_srv st = x then y else x)"
      using assms(6) [OF s] by blast
    then show ?thesis using nx [OF s] by (simp add: Put_body_def ix [OF s] retry_sel(1) Let_def pbStatusToErr_def)
  qed
  then show "Clerk_Put net ck key val version w = None" unfolding Clerk_Put_def
    by (intro go_for_diverges [where I = "\<lambda>st. cs_srv st \<in> {x, y}"]) (use assms(4) in \<open>auto simp: clerk_start_def\<close>)
qed

theorem hint_cycle_never_returns_witness:
  "Clerk_Get demo_net (demo_clerk [''a'', ''b'', ''c'', ''d''] 2) ''k'' () = None \<and>
   Clerk_Put demo_net (demo_clerk [''a'', ''b'', ''c'', ''d''] 2) ''k'' ''v'' 0 () = None"
  by (rule hint_cycle_never_returns [of _ 2 3])
    (auto simp: in_range_def demo_clerk_def demo_net_def of_int32_def)

end
