(* ===== verification/Clerk_System.thy ===== *)
theory Clerk_System
  imports Clerk System_Safety
begin

text \<open>
  Clients, the gRPC front end, the replicated state machines and Raft together. The world behind
  the connections of a clerk is a state of the service and a plan of what happens in it: for each
  request the events before it arrives, the random identifier that \<^verbatim>\<open>Submit\<close> draws, the events
  until the clerk stops waiting, and whether the response gets lost. The plan is arbitrary, so the
  theorems hold for every network, every failure and every set of other clients.
\<close>

record request_plan =
  rp_before :: "sys_event list"
  rp_id :: "64 word"
  rp_after :: "sys_event list"
  rp_lost :: bool

record sys_world =
  ws_sys :: system
  ws_plan :: "request_plan list"

text \<open>A request at server \<open>p\<close>: what \<^verbatim>\<open>Submit\<close> returns, if it returns in time.\<close>

definition serve :: "(bytes \<Rightarrow> int) \<Rightarrow> int \<Rightarrow> any \<Rightarrow> sys_world \<Rightarrow> (Err \<times> any) option \<times> sys_world" where
  "serve byte_size p req w =
     (case ws_plan w of
        [] \<Rightarrow> (None, w)
      | rp # rps \<Rightarrow>
          (case sys_exec_all byte_size (rp_before rp) (ws_sys w) of
             None \<Rightarrow> (None, w\<lparr>ws_plan := rps\<rparr>)
           | Some s1 \<Rightarrow>
               (case sys_exec_all byte_size (Call p (rp_id rp) req # rp_after rp) s1 of
                  None \<Rightarrow> (None, \<lparr>ws_sys = s1, ws_plan = rps\<rparr>)
                | Some s2 \<Rightarrow>
                    (case call_at s2 (length (calls s1)) of
                       Some (CDone r) \<Rightarrow> if rp_lost rp then None else Some r
                     | _ \<Rightarrow> None, \<lparr>ws_sys = s2, ws_plan = rps\<rparr>))))"

text \<open>
  The connections of a clerk: \<open>server_at\<close> says which server listens at an address. The handlers of
  \<^verbatim>\<open>grpc.go\<close> submit the request and turn what comes back into a response.
\<close>

definition sys_net :: "(bytes \<Rightarrow> int) \<Rightarrow> (string \<Rightarrow> int option) \<Rightarrow> sys_world KVClient" where
  "sys_net byte_size server_at =
     \<lparr>kv_Get = \<lambda>c req w.
        (case server_at c of
           None \<Rightarrow> (None, w)
         | Some p \<Rightarrow>
             let (r, w') = serve byte_size p (AnyGetArgs \<lparr>ga_Key = gq_Key req\<rparr>) w
             in (map_option (\<lambda>a. KVService_Get (\<lambda>_. a) req) r, w')),
      kv_Put = \<lambda>c req w.
        (case server_at c of
           None \<Rightarrow> (None, w)
         | Some p \<Rightarrow>
             let (r, w') = serve byte_size p (AnyPutArgs \<lparr>pa_Key = pq_Key req, pa_Value = pq_Value req,
                                                         pa_Version = pq_Version req\<rparr>) w
             in (map_option (\<lambda>a. KVService_Put (\<lambda>_. a) req) r, w')),
      go_Sleep = \<lambda>d w. w\<rparr>"

section \<open>An example\<close>

text \<open>
  Server 0 is elected and gets a \<open>Put\<close>; the request times out before it is replicated, so the clerk
  is told that the server does not lead; then the command is replicated, committed and executed. The
  clerk asks server 1, is sent back to server 0 and tries again.
\<close>

definition at_abc :: "string \<Rightarrow> int option" where
  "at_abc c = (if c = ''a'' then Some 0 else if c = ''b'' then Some 1 else if c = ''c'' then Some 2 else None)"

definition commit_and_answer :: "nat \<Rightarrow> sys_event list" where
  "commit_and_answer c =
     [Net (Replicator 0 1), Net (Run 3), Net (Run 3), Net (Apply 0),
      Reader 0, Reader 0, Reader 0, Reader 0, Reader 0, Reader 0, Decide c, Finish c]"

definition late_world :: sys_world where
  "late_world =
     \<lparr>ws_sys = sys_start,
      ws_plan =
        [\<lparr>rp_before = [Net (ElectionTimeout 0), Net (Run 0), Net (Run 0)], rp_id = 7,
          rp_after = [Timeout 0, Dump 0, Finish 0, Net (Replicator 0 1), Net (Run 3), Net (Run 3),
                      Net (Apply 0), Reader 0, Reader 0, Reader 0, Reader 0, Reader 0],
          rp_lost = False\<rparr>,
         \<lparr>rp_before = [], rp_id = 8, rp_after = [], rp_lost = False\<rparr>,
         \<lparr>rp_before = [], rp_id = 9, rp_after = commit_and_answer 2, rp_lost = False\<rparr>,
         \<lparr>rp_before = [], rp_id = 10, rp_after = commit_and_answer 3, rp_lost = False\<rparr>]\<rparr>"

definition abc_clerk :: Clerk where
  "abc_clerk = demo_clerk [''a'', ''b'', ''c''] 0"

text \<open>The same without the timeout.\<close>

definition good_world :: sys_world where
  "good_world =
     \<lparr>ws_sys = sys_start,
      ws_plan =
        [\<lparr>rp_before = [Net (ElectionTimeout 0), Net (Run 0), Net (Run 0)], rp_id = 7,
          rp_after = commit_and_answer 0, rp_lost = False\<rparr>]\<rparr>"

text \<open>The two operations as the specification \<^verbatim>\<open>KvModel\<close> sees them.\<close>

definition put_input :: KvInput where
  "put_input = \<lparr>ki_Op = 1, ki_Key = ''k'', ki_Value = ''v'', ki_Version = 0\<rparr>"

definition put_output :: KvOutput where
  "put_output = \<lparr>ko_Value = [], ko_Version = 0, ko_Err = ErrVersion\<rparr>"

definition get_input :: KvInput where
  "get_input = \<lparr>ki_Op = 0, ki_Key = ''k'', ki_Value = [], ki_Version = 0\<rparr>"

definition get_output :: KvOutput where
  "get_output = \<lparr>ko_Value = ''v'', ko_Version = 1, ko_Err = OK\<rparr>"

section \<open>Lemmas\<close>

lemma sys_exec_all_append:
  "sys_exec_all bs (es @ es') s = sys_exec_all bs es s \<bind> sys_exec_all bs es'"
  by (induction es arbitrary: s) (auto split: option.splits bind_splits)

lemma submitted_lose_calls [simp]: "map (\<lambda>w. (call_id w, call_req w)) (lose_calls p ws) = map (\<lambda>w. (call_id w, call_req w)) ws"
  by (auto simp: lose_calls_def split: call_pc.splits)

lemma submitted_grows:
  assumes "sys_exec bs e s = Some s'"
  shows "prefix (submitted s) (submitted s')"
proof -
  have "submitted s' = submitted s" if "exec_net x s = Some s'" for x
    using that by (auto simp: exec_net_def reboot_def bind_eq_Some_conv submitted_def split: option.splits)
  moreover have "submitted s' = submitted s" if "exec_reader bs p s = Some s'" for p
    using that by (auto simp: exec_reader_def Let_def bind_eq_Some_conv submitted_def [of "s\<lparr>cl := c\<rparr>" for c]
        submitted_def [of s] split: reader_pc.splits list.splits reader_rest.splits)
  moreover have "prefix (submitted s) (submitted s')" if "exec_call p i req s = Some s'" for p i req
    using that by (auto simp: exec_call_def Let_def bind_eq_Some_conv submitted_def)
  ultimately show ?thesis
    using assms by (auto simp: sys_exec_def Let_def split: sys_event.splits call_pc.splits)
qed

lemma submitted_grows_all:
  "sys_exec_all bs es s = Some s' \<Longrightarrow> prefix (submitted s) (submitted s')"
  by (induction es arbitrary: s)
    (auto simp: bind_eq_Some_conv split: if_splits dest: submitted_grows intro: prefix_order.trans)

text \<open>\<^verbatim>\<open>Submit\<close> returns \<open>OK\<close> or \<open>ErrWrongLeader\<close>.\<close>

definition codes_ok :: "system \<Rightarrow> bool" where
  "codes_ok s \<longleftrightarrow> (\<forall>w \<in> set (calls s).
     case call_pc w of CDefer r \<Rightarrow> fst r \<in> {OK, ErrWrongLeader} | CDone r \<Rightarrow> fst r \<in> {OK, ErrWrongLeader} | _ \<Rightarrow> True)"

lemma codes_ok_set_call:
  assumes "codes_ok s" "\<And>r. pc = CDefer r \<or> pc = CDone r \<Longrightarrow> fst r \<in> {OK, ErrWrongLeader}"
  shows "codes_ok (set_call w pc s)"
  using assms set_update_subset_insert [of "calls s" w "(calls s ! w)\<lparr>call_pc := pc\<rparr>"]
  by (fastforce simp: codes_ok_def set_call_def split: call_pc.splits)

lemma codes_ok_calls: "calls s' = calls s \<Longrightarrow> codes_ok s' = codes_ok s"
  by (simp add: codes_ok_def)

lemma codes_ok_lose: "codes_ok s \<Longrightarrow> calls s' = lose_calls p (calls s) \<Longrightarrow> codes_ok s'"
  by (fastforce simp: codes_ok_def lose_calls_def split: call_pc.splits)

lemma Submit_codes:
  "fst (Submit_receive rf i r) \<in> {OK, ErrWrongLeader}" "fst (Submit_timeout rf) = ErrWrongLeader"
  "Submit_enter rsm rf i req ch = Some (Inl a, x) \<Longrightarrow> fst a = ErrWrongLeader"
  by (auto simp: Submit_receive_def Submit_timeout_def Submit_enter_def bind_eq_Some_conv
      split: option.splits prod.splits if_splits)

lemma codes_ok_step:
  assumes ok: "codes_ok s" and po: "sys_possible e s" and ex: "sys_exec bs e s = Some s'"
  shows "codes_ok s'"
proof (cases e)
  case (Net x)
  with ex show ?thesis
    using ok codes_ok_calls [of s' s] codes_ok_lose [OF ok, of s']
    by (auto simp: sys_exec_def exec_net_def reboot_def bind_eq_Some_conv split: option.splits)
next
  case (Call p i req)
  with ex show ?thesis
    using ok by (auto simp: sys_exec_def exec_call_def Let_def bind_eq_Some_conv codes_ok_def
        dest!: Submit_codes(3) split: sum.splits)
next
  case (Reader p)
  with ex show ?thesis
    using ok codes_ok_calls [of s' s]
    by (auto simp: sys_exec_def exec_reader_def Let_def bind_eq_Some_conv intro!: codes_ok_set_call
        split: reader_pc.splits list.splits reader_rest.splits) (auto simp: codes_ok_def)
next
  case (Timeout w)
  with ex show ?thesis using codes_ok_set_call [OF ok, of CTimedOut] by (auto simp: sys_exec_def)
next
  case (Dump w)
  with ex show ?thesis
    using codes_ok_set_call [OF ok, of "CDefer (Submit_timeout rf)" for rf] Submit_codes(2)
    by (auto simp: sys_exec_def)
next
  case (Decide w)
  with ex show ?thesis
    using ok codes_ok_set_call [OF ok, of "CDefer (Submit_receive rf i r)" for rf i r] Submit_codes(1)
    by (auto simp: sys_exec_def split: call_pc.splits)
next
  case (Finish w)
  then obtain a where a: "w < length (calls s)" "call_pc (calls s ! w) = CDefer a"
    using po by (auto simp: sys_possible_def call_at_def split: option.splits call_pc.splits if_splits)
  then have "fst a \<in> {OK, ErrWrongLeader}" using bspec [OF ok [unfolded codes_ok_def] nth_mem [OF a(1)]] by simp
  moreover have "codes_ok (set_replica p r s)" for p r using ok by (simp add: codes_ok_def set_replica_def)
  ultimately show ?thesis using Finish ex a(2) by (auto simp: sys_exec_def Let_def intro!: codes_ok_set_call)
qed

lemma codes_ok_reachable: "sys_reachable bs n s \<Longrightarrow> codes_ok s"
proof (induction rule: sys_reachable.induct)
  case (step s e s')
  then show ?case using codes_ok_step by blast
qed (simp add: init_system_def codes_ok_def)

text \<open>What a request leaves behind, and what an answer is.\<close>

lemma serve_run:
  assumes "serve bs p req w = (r, w')"
  shows "\<exists>es. sys_exec_all bs es (ws_sys w) = Some (ws_sys w')"
proof -
  have nil: "\<exists>es. sys_exec_all bs es s = Some s" for s by (rule exI [of _ "[]"]) simp
  show ?thesis
  proof (cases "ws_plan w")
    case Nil
    then show ?thesis using assms nil by (auto simp: serve_def)
  next
    case (Cons rp rps)
    show ?thesis
    proof (cases "sys_exec_all bs (rp_before rp) (ws_sys w)")
      case None
      then show ?thesis using assms Cons nil by (auto simp: serve_def)
    next
      case (Some s1)
      note before = Some
      let ?es = "Call p (rp_id rp) req # rp_after rp"
      show ?thesis
      proof (cases "sys_exec_all bs ?es s1")
        case None
        then have "ws_sys w' = s1" using assms Cons before by (auto simp: serve_def simp del: sys_exec_all.simps)
        then show ?thesis using before by blast
      next
        case (Some s2)
        then have "ws_sys w' = s2" using assms Cons before by (auto simp: serve_def simp del: sys_exec_all.simps)
        moreover have "sys_exec_all bs (rp_before rp @ ?es) (ws_sys w) = Some s2"
          using before Some by (simp add: sys_exec_all_append del: sys_exec_all.simps)
        ultimately show ?thesis by blast
      qed
    qed
  qed
qed

lemma serve_answer:
  assumes re: "sys_reachable bs n (ws_sys w)" and sv: "serve bs p req w = (Some (e, v), w')"
  shows "e = ErrWrongLeader \<or>
    e = OK \<and> (\<exists>i. i \<notin> fst ` set (submitted (ws_sys w)) \<and> (i, req, v) \<in> set (answered (ws_sys w')))"
proof -
  obtain rp :: request_plan and s1 where s1: "sys_exec_all bs (rp_before rp) (ws_sys w) = Some s1"
    "sys_exec_all bs (Call p (rp_id rp) req # rp_after rp) s1 = Some (ws_sys w')"
    "call_at (ws_sys w') (length (calls s1)) = Some (CDone (e, v))"
    using sv by (auto simp: serve_def simp del: sys_exec_all.simps
        split: list.splits option.splits if_splits call_pc.splits)
  define c where "c = length (calls s1)"
  have c: "c < length (calls (ws_sys w'))" "call_pc (calls (ws_sys w') ! c) = CDone (e, v)"
    using s1(3) by (auto simp: call_at_def c_def split: if_splits)
  obtain s2 where s2: "sys_possible (Call p (rp_id rp) req) s1" "exec_call p (rp_id rp) req s1 = Some s2"
      "sys_exec_all bs (rp_after rp) s2 = Some (ws_sys w')"
    using s1(2) by (auto simp: bind_eq_Some_conv sys_exec_def split: if_splits)
  have "submitted s2 = submitted s1 @ [(rp_id rp, req)]"
    using s2(2) by (auto simp: exec_call_def Let_def bind_eq_Some_conv submitted_def)
  then have "prefix (submitted s1 @ [(rp_id rp, req)]) (submitted (ws_sys w'))"
    using submitted_grows_all [OF s2(3)] by simp
  then have "submitted (ws_sys w') ! c = (rp_id rp, req)"
    by (auto simp: prefix_def c_def submitted_def nth_append)
  then have id: "call_id (calls (ws_sys w') ! c) = rp_id rp" "call_req (calls (ws_sys w') ! c) = req"
    using c(1) by (simp_all add: submitted_def)
  have "sys_reachable bs n (ws_sys w')"
    using sys_exec_all_reachable [OF sys_exec_all_reachable [OF re s1(1)] s1(2)] .
  then have "e \<in> {OK, ErrWrongLeader}"
    using bspec [OF codes_ok_reachable [unfolded codes_ok_def] nth_mem [OF c(1)]] c(2) by simp
  moreover have "(rp_id rp, req, v) \<in> set (answered (ws_sys w'))" if "e = OK"
    using that c id nth_mem [OF c(1)] by (force simp: answered_def answer_of_def)
  moreover have "rp_id rp \<notin> fst ` set (submitted s1)"
    using s2(1) by (auto simp: sys_possible_def submitted_def)
  then have "rp_id rp \<notin> fst ` set (submitted (ws_sys w))"
    using set_mono_prefix [OF submitted_grows_all [OF s1(1)]] by blast
  ultimately show ?thesis by blast
qed

text \<open>The place of an answered operation among the operations of the service.\<close>

definition placed :: "system \<Rightarrow> any \<Rightarrow> any \<Rightarrow> bool" where
  "placed s req v \<longleftrightarrow> (\<exists>cmds m k. m \<le> k \<and> k < length cmds \<and> distinct (map fst cmds) \<and>
     (\<forall>p. is_node (cl s) p \<longrightarrow> (\<exists>j \<le> m. store_of s p = do_ops NewStore (map snd (take j cmds)))) \<and>
     (\<forall>(i, req', v') \<in> set (answered s). \<exists>j < m. cmds ! j = (i, req')) \<and>
     snd (cmds ! k) = req \<and> v = fst (DoOp (do_ops NewStore (map snd (take k cmds))) req))"

lemma set_call_done: "call_pc (calls s ! w) \<noteq> call_pc (calls s ! c) \<Longrightarrow> calls (set_call w pc s) ! c = calls s ! c"
  by (cases "w = c") (auto simp: set_call_def)

lemma lose_calls_done:
  "c < length ws \<Longrightarrow> call_pc (ws ! c) = CDone r \<Longrightarrow> lose_calls p ws ! c = ws ! c"
  by (simp add: lose_calls_def)

lemma done_stays:
  assumes c: "c < length (calls s)" "call_pc (calls s ! c) = CDone r"
    and po: "sys_possible e s" and ex: "sys_exec bs e s = Some s'"
  shows "calls s' ! c = calls s ! c"
proof (cases e)
  case (Net x)
  with ex c show ?thesis
    by (auto simp: sys_exec_def exec_net_def reboot_def bind_eq_Some_conv lose_calls_done split: option.splits)
next
  case (Call p i req)
  with ex c show ?thesis
    by (auto simp: sys_exec_def exec_call_def Let_def bind_eq_Some_conv nth_append)
next
  case (Reader p)
  with ex po c show ?thesis
    by (auto simp: sys_exec_def sys_possible_def reader_possible_def exec_reader_def Let_def bind_eq_Some_conv
        set_call_done split: reader_pc.splits list.splits reader_rest.splits)
next
  case (Finish w)
  then obtain a where "call_pc (calls s ! w) = CDefer a"
    using po by (auto simp: sys_possible_def call_at_def split: option.splits call_pc.splits if_splits)
  with Finish ex c show ?thesis by (auto simp: sys_exec_def Let_def set_call_done)
qed (use ex po c in \<open>auto simp: sys_exec_def sys_possible_def call_at_def set_call_done split: call_pc.splits if_splits\<close>)

lemma answered_nth:
  "x \<in> set (answered s) \<longleftrightarrow> (\<exists>c < length (calls s). \<exists>v. call_pc (calls s ! c) = CDone (OK, v) \<and>
     x = (call_id (calls s ! c), call_req (calls s ! c), v))"
  by (auto simp: answered_def answer_of_def in_set_conv_nth split: call_pc.splits if_splits) force+

lemma answered_grows:
  assumes "sys_possible e s" "sys_exec bs e s = Some s'"
  shows "set (answered s) \<subseteq> set (answered s')"
proof
  fix x assume "x \<in> set (answered s)"
  then obtain c v where c: "c < length (calls s)" "call_pc (calls s ! c) = CDone (OK, v)"
    "x = (call_id (calls s ! c), call_req (calls s ! c), v)" by (auto simp: answered_nth)
  then show "x \<in> set (answered s')"
    using done_stays [OF c(1,2) assms] calls_grow [OF assms(2)] unfolding answered_nth
    by (intro exI [of _ c]) auto
qed

lemma answered_grows_all:
  "sys_exec_all bs es s = Some s' \<Longrightarrow> set (answered s) \<subseteq> set (answered s')"
proof (induction es arbitrary: s)
  case (Cons e es)
  then obtain d where "sys_possible e s" "sys_exec bs e s = Some d" "sys_exec_all bs es d = Some s'"
    by (auto simp: bind_eq_Some_conv split: if_splits)
  with Cons.IH answered_grows show ?case by blast
qed simp

lemma placed_answer:
  assumes re: "sys_reachable bs n s0" and es: "sys_exec_all bs es s0 = Some (ws_sys w)"
    and sv: "serve bs p req w = (Some (OK, v), w')"
  shows "placed s0 req v"
proof -
  obtain es' where es': "sys_exec_all bs es' (ws_sys w) = Some (ws_sys w')" using serve_run [OF sv] by blast
  obtain i where i: "i \<notin> fst ` set (submitted (ws_sys w))" "(i, req, v) \<in> set (answered (ws_sys w'))"
    using serve_answer [OF sys_exec_all_reachable [OF re es] sv] by auto
  have new: "i \<notin> fst ` set (submitted s0)" using i(1) submitted_grows_all [OF es] by (auto simp: prefix_def)
  have run: "sys_exec_all bs (es @ es') s0 = Some (ws_sys w')" using es es' by (simp add: sys_exec_all_append)
  obtain cmds m where o: "distinct (map fst cmds)"
    "\<forall>p. is_node (cl s0) p \<longrightarrow> (\<exists>k \<le> m. store_of s0 p = do_ops NewStore (map snd (take k cmds)))"
    "\<forall>(i, req, v) \<in> set (answered (ws_sys w')). \<exists>k < length cmds. cmds ! k = (i, req) \<and>
       v = fst (DoOp (do_ops NewStore (map snd (take k cmds))) req) \<and>
       ((i, req, v) \<in> set (answered s0) \<longrightarrow> k < m) \<and> (i \<notin> fst ` set (submitted s0) \<longrightarrow> m \<le> k)"
    using linear_order [OF re run] by (elim exE conjE) (erule that)
  obtain k where k: "k < length cmds" "cmds ! k = (i, req)"
      "v = fst (DoOp (do_ops NewStore (map snd (take k cmds))) req)" "m \<le> k"
    using bspec [OF o(3) i(2), unfolded prod.case] new by blast
  have "\<exists>j < m. cmds ! j = (i', req')" if "(i', req', v') \<in> set (answered s0)" for i' req' v'
  proof -
    have "(i', req', v') \<in> set (answered (ws_sys w'))" using that answered_grows_all [OF run] by blast
    from bspec [OF o(3) this, unfolded prod.case] that show ?thesis by blast
  qed
  then have early: "\<forall>(i, req', v') \<in> set (answered s0). \<exists>j < m. cmds ! j = (i, req')" by blast
  show ?thesis unfolding placed_def
    by (rule exI [of _ cmds], rule exI [of _ m], rule exI [of _ k], intro conjI)
      (fact k(4) k(1) o(1) o(2) early k(3) | simp add: k(2))+
qed

lemma sys_net_run:
  "kv_Put (sys_net bs server_at) c preq w = (r, w') \<Longrightarrow> \<exists>es. sys_exec_all bs es (ws_sys w) = Some (ws_sys w')"
  "kv_Get (sys_net bs server_at) c greq w = (g, w') \<Longrightarrow> \<exists>es. sys_exec_all bs es (ws_sys w) = Some (ws_sys w')"
  using serve_run exI [of "\<lambda>es. sys_exec_all bs es (ws_sys w) = Some (ws_sys w)" "[]"]
  by (fastforce simp: sys_net_def Let_def split: option.splits prod.splits)+

text \<open>A definite response of a server is an answer of the store.\<close>

lemma put_response:
  assumes "kv_Put (sys_net bs server_at) c req w = (Some resp, w')"
    and "sys_reachable bs n (ws_sys w)" "pbStatusToErr (ps_Status resp) = e" "e \<in> {OK, ErrVersion}"
  shows "\<exists>p. serve bs p (AnyPutArgs \<lparr>pa_Key = pq_Key req, pa_Value = pq_Value req, pa_Version = pq_Version req\<rparr>) w =
    (Some (OK, AnyPutReply \<lparr>pr_Err = e\<rparr>), w')"
proof -
  obtain p code v where p: "serve bs p (AnyPutArgs \<lparr>pa_Key = pq_Key req, pa_Value = pq_Value req,
      pa_Version = pq_Version req\<rparr>) w = (Some (code, v), w')" "resp = KVService_Put (\<lambda>_. (code, v)) req"
    using assms(1) by (auto simp: sys_net_def Let_def split: option.splits prod.splits)
  have code: "code = OK"
    using serve_answer [OF assms(2) p(1)] assms(3,4) p(2) by (auto simp: KVService_Put_def pbStatusToErr_def)
  have "v = AnyPutReply \<lparr>pr_Err = e\<rparr>"
    using assms(3,4) p(2) code
    by (auto simp: KVService_Put_def pbStatusToErr_def errToStatus_def split: any.splits if_splits)
  with p(1) code show ?thesis by blast
qed

lemma get_response:
  assumes "kv_Get (sys_net bs server_at) c req w = (Some resp, w')"
    and "sys_reachable bs n (ws_sys w)" "gs_Status resp \<noteq> ERR_WRONG_LEADER"
  shows "\<exists>p r. serve bs p (AnyGetArgs \<lparr>ga_Key = gq_Key req\<rparr>) w = (Some (OK, AnyGetReply r), w') \<and>
    gs_Value resp = gr_Value r \<and> gs_Version resp = gr_Version r \<and> gs_Status resp = errToStatus (gr_Err r)"
proof -
  obtain p code v where p: "serve bs p (AnyGetArgs \<lparr>ga_Key = gq_Key req\<rparr>) w = (Some (code, v), w')"
      "resp = KVService_Get (\<lambda>_. (code, v)) req"
    using assms(1) by (auto simp: sys_net_def Let_def split: option.splits prod.splits)
  have code: "code = OK" using serve_answer [OF assms(2) p(1)] assms(3) p(2) by (auto simp: KVService_Get_def)
  then obtain r where "v = AnyGetReply r"
    using assms(3) p(2) by (auto simp: KVService_Get_def split: any.splits)
  with p code show ?thesis by (auto simp: KVService_Get_def)
qed

definition runs_from :: "(bytes \<Rightarrow> int) \<Rightarrow> sys_world \<Rightarrow> sys_world clerk_loop \<Rightarrow> bool" where
  "runs_from bs w st \<longleftrightarrow> (\<exists>es. sys_exec_all bs es (ws_sys w) = Some (ws_sys (cs_world st)))"

lemma runs_from_retry: "runs_from bs w st \<Longrightarrow> runs_from bs w (retry (sys_net bs server_at) ck hint st)"
  using retry_sel(3) [of "sys_net bs server_at" ck hint st] by (auto simp: runs_from_def sys_net_def)

lemma runs_from_world:
  assumes "runs_from bs w st" "sys_exec_all bs es (ws_sys (cs_world st)) = Some (ws_sys w')"
  shows "runs_from bs w (st\<lparr>cs_world := w'\<rparr>)" "runs_from bs w (st\<lparr>cs_world := w', cs_firstAttempt := b\<rparr>)"
proof -
  obtain es0 where "sys_exec_all bs es0 (ws_sys w) = Some (ws_sys (cs_world st))" using assms(1) by (auto simp: runs_from_def)
  with assms(2) have "sys_exec_all bs (es0 @ es) (ws_sys w) = Some (ws_sys w')" by (simp add: sys_exec_all_append)
  then show "runs_from bs w (st\<lparr>cs_world := w'\<rparr>)" "runs_from bs w (st\<lparr>cs_world := w', cs_firstAttempt := b\<rparr>)"
    unfolding runs_from_def by auto
qed

lemma runs_from_Put:
  assumes "runs_from bs w st" "Put_body (sys_net bs server_at) ck key val version st = Inr st'"
  shows "runs_from bs w st'"
  using assms
  by (auto simp: Put_body_def Let_def split: option.splits prod.splits if_splits
      intro!: runs_from_retry dest!: sys_net_run(1) intro: runs_from_world)

lemma runs_from_Get:
  assumes "runs_from bs w st" "Get_body (sys_net bs server_at) ck key st = Inr st'"
  shows "runs_from bs w st'"
  using assms
  by (auto simp: Get_body_def Let_def split: option.splits prod.splits if_splits
      intro!: runs_from_retry dest!: sys_net_run(2) intro: runs_from_world)

lemma start_runs_from: "runs_from bs w (clerk_start ck w)"
  unfolding runs_from_def clerk_start_def by (rule exI [of _ "[]"]) simp

lemma Put_placed:
  assumes re: "sys_reachable bs n (ws_sys w)"
    and ret: "Clerk_Put (sys_net bs server_at) ck key val version w = Some (Returns e, ck', w')"
  shows "\<exists>r. placed (ws_sys w) (AnyPutArgs \<lparr>pa_Key = key, pa_Value = val, pa_Version = version\<rparr>)
      (AnyPutReply \<lparr>pr_Err = r\<rparr>) \<and> (e = r \<and> r \<in> {OK, ErrVersion} \<or> r = ErrVersion \<and> e = ErrMaybe)" (is "?P e")
proof -
  let ?Q = "\<lambda>(r, ck' :: Clerk, w' :: sys_world). \<forall>e. r = Returns e \<longrightarrow> ?P e"
  have "?Q (Returns e, ck', w')"
  proof (rule go_for_rule [where I = "runs_from bs w" and Q = ?Q, OF ret [unfolded Clerk_Put_def] start_runs_from])
    fix st x assume st: "runs_from bs w st" and b: "Put_body (sys_net bs server_at) ck key val version st = Inl x"
    obtain es where es: "sys_exec_all bs es (ws_sys w) = Some (ws_sys (cs_world st))" using st by (auto simp: runs_from_def)
    note re' = sys_exec_all_reachable [OF re es]
    have "?P e" if x: "x = (Returns e, ck', w')" for e ck' w'
    proof -
      obtain c resp where c: "kv_Put (sys_net bs server_at) c \<lparr>pq_Key = key, pq_Value = val, pq_Version = version\<rparr>
          (cs_world st) = (Some resp, w')" and e: "pbStatusToErr (ps_Status resp) \<in> {OK, ErrVersion}"
        "e = pbStatusToErr (ps_Status resp) \<or> pbStatusToErr (ps_Status resp) = ErrVersion \<and> e = ErrMaybe"
        using b x by (auto simp: Put_body_def Let_def split: option.splits prod.splits if_splits)
      obtain p where "serve bs p (AnyPutArgs \<lparr>pa_Key = key, pa_Value = val, pa_Version = version\<rparr>) (cs_world st) =
          (Some (OK, AnyPutReply \<lparr>pr_Err = pbStatusToErr (ps_Status resp)\<rparr>), w')"
        using put_response [OF c re' refl e(1)] by auto
      from placed_answer [OF re es this] e show ?thesis by blast
    qed
    then show "?Q x" by (cases x) blast
  qed (rule runs_from_Put)
  then show ?thesis by simp
qed

lemma Get_placed:
  assumes re: "sys_reachable bs n (ws_sys w)"
    and ret: "Clerk_Get (sys_net bs server_at) ck key w = Some (Returns (val, version, e), ck', w')"
  shows "placed (ws_sys w) (AnyGetArgs \<lparr>ga_Key = key\<rparr>)
      (AnyGetReply \<lparr>gr_Value = val, gr_Version = version, gr_Err = e\<rparr>)" (is "?P val version e")
proof -
  let ?Q = "\<lambda>(r, ck' :: Clerk, w' :: sys_world). \<forall>val version e. r = Returns (val, version, e) \<longrightarrow> ?P val version e"
  have "?Q (Returns (val, version, e), ck', w')"
  proof (rule go_for_rule [where I = "runs_from bs w" and Q = ?Q, OF ret [unfolded Clerk_Get_def] start_runs_from])
    fix st x assume st: "runs_from bs w st" and b: "Get_body (sys_net bs server_at) ck key st = Inl x"
    obtain es where es: "sys_exec_all bs es (ws_sys w) = Some (ws_sys (cs_world st))" using st by (auto simp: runs_from_def)
    note re' = sys_exec_all_reachable [OF re es]
    have "?P val version e" if x: "x = (Returns (val, version, e), ck', w')" for val version e ck' w'
    proof -
      obtain c resp where c: "kv_Get (sys_net bs server_at) c \<lparr>gq_Key = key\<rparr> (cs_world st) = (Some resp, w')"
          "gs_Status resp \<noteq> ERR_WRONG_LEADER" "val = gs_Value resp" "version = gs_Version resp"
          "e = pbStatusToErr (gs_Status resp)"
        using b x by (auto simp: Get_body_def split: option.splits prod.splits if_splits)
      obtain p r where r: "serve bs p (AnyGetArgs \<lparr>ga_Key = key\<rparr>) (cs_world st) = (Some (OK, AnyGetReply r), w')"
          "gs_Value resp = gr_Value r" "gs_Version resp = gr_Version r" "gs_Status resp = errToStatus (gr_Err r)"
        using get_response [OF c(1) re' c(2)] by auto
      note pl = placed_answer [OF re es r(1)]
      then obtain S where "AnyGetReply r = getOp S \<lparr>ga_Key = key\<rparr>" by (auto simp: placed_def DoOp_def)
      then have "gr_Err r \<in> {OK, ErrNoKey}" using getOp_typed [of S "\<lparr>ga_Key = key\<rparr>"] by auto
      then have "e = gr_Err r" using c(5) r(4) by (auto simp: pbStatusToErr_def)
      then have "r = \<lparr>gr_Value = val, gr_Version = version, gr_Err = e\<rparr>" using c(3,4) r(2,3) by simp
      with pl show ?thesis by simp
    qed
    then show "?Q x" by (cases x) blast
  qed (rule runs_from_Get)
  then show ?thesis by simp
qed

lemma returns_case:
  "(case X of Some (Returns e, ck', w') \<Rightarrow> e = err \<and> P ck' w' | _ \<Rightarrow> False) \<Longrightarrow>
   \<exists>ck' w'. X = Some (Returns err, ck', w') \<and> P ck' w'"
  by (auto split: option.splits prod.splits go.split_asm)

section \<open>Properties\<close>


lemma good_put:
  "map_option fst (Clerk_Put (sys_net (\<lambda>_. 0) at_abc) abc_clerk ''k'' ''v'' 0 good_world) = Some (Returns OK)"
  by code_simp


text \<open>
  (C18) A \<open>Put\<close> that has taken effect and is reported as refused. One client writes to a new key and reads it. The first
  attempt of the \<open>Put\<close> times out inside the server, which reports \<open>ErrWrongLeader\<close> although the command
  is in the log and will be executed; the clerk, which takes this answer to mean that nothing happened, tries again,
  gets a version conflict with its own write and returns \<open>ErrVersion\<close>; \<open>Get\<close> then returns what was
  written. \<^verbatim>\<open>KvModel\<close> rejects the two results in either order: a correct clerk would return \<open>ErrMaybe\<close>.
\<close>

theorem clerk_false_conflict:
  "\<exists>ck' w'. Clerk_Put (sys_net (\<lambda>_. 0) at_abc) abc_clerk ''k'' ''v'' 0 late_world = Some (Returns ErrVersion, ck', w') \<and>
     map_option fst (Clerk_Get (sys_net (\<lambda>_. 0) at_abc) ck' ''k'' w') = Some (Returns (''v'', 1, OK)) \<and>
     \<not> model_accepts model_Init [(put_input, put_output), (get_input, get_output)] \<and>
     \<not> model_accepts model_Init [(get_input, get_output), (put_input, put_output)] \<and>
     model_accepts model_Init [(put_input, put_output\<lparr>ko_Err := ErrMaybe\<rparr>), (get_input, get_output)]"
proof -
  have "case Clerk_Put (sys_net (\<lambda>_. 0) at_abc) abc_clerk ''k'' ''v'' 0 late_world of
      Some (Returns e, ck', w') \<Rightarrow> e = ErrVersion \<and>
        map_option fst (Clerk_Get (sys_net (\<lambda>_. 0) at_abc) ck' ''k'' w') = Some (Returns (''v'', 1, OK))
    | _ \<Rightarrow> False"
    by code_simp
  then obtain ck' w' where "Clerk_Put (sys_net (\<lambda>_. 0) at_abc) abc_clerk ''k'' ''v'' 0 late_world = Some (Returns ErrVersion, ck', w')"
      "map_option fst (Clerk_Get (sys_net (\<lambda>_. 0) at_abc) ck' ''k'' w') = Some (Returns (''v'', 1, OK))"
    by (rule returns_case [THEN exE]) blast
  moreover have "\<not> model_accepts model_Init [(put_input, put_output), (get_input, get_output)]"
    "\<not> model_accepts model_Init [(get_input, get_output), (put_input, put_output)]"
    "model_accepts model_Init [(put_input, put_output\<lparr>ko_Err := ErrMaybe\<rparr>), (get_input, get_output)]"
    by code_simp+
  ultimately show ?thesis by blast
qed

end
