(* ===== verification/Disk_Crash.thy ===== *)
theory Disk_Crash
  imports System_Safety
begin

text \<open>
  What a failure or a crash during \<^verbatim>\<open>FilePersister.Save\<close> leaves on the disk, and what a server that
  is restarted on such a disk becomes.
\<close>

section \<open>Lemmas\<close>

lemma Save_trace_states:
  assumes "no_faults ps"
  shows "ps \<in> set (Save_trace ps rs sn)" "snd (Save ps rs sn) \<in> set (Save_trace ps rs sn)"
proof -
  have ne: "Save_trace ps rs sn \<noteq> []" by (simp add: Save_trace_def atomicWrite_trace_def Let_def)
  show "ps \<in> set (Save_trace ps rs sn)" by (simp add: Save_trace_def atomicWrite_trace_def Let_def)
  show "snd (Save ps rs sn) \<in> set (Save_trace ps rs sn)"
    using last_in_set [OF ne] by (simp add: Save_trace_last [OF assms])
qed

lemma saved_pair_Save:
  assumes "no_faults ps"
  shows "saved_pair (snd (Save ps rs sn)) = (Some rs, Some sn)"
  using saved_files_paths [of ps rs sn] by (simp add: saved_pair_def Save_ok [OF assms] state_path_def snapshot_path_def)

lemma Save_trace_healthy:
  assumes "no_faults ps" "q \<in> set (Save_trace ps rs sn)"
  shows "no_faults q"
proof -
  have "no_faults (snd (atomicWrite ps ''raft-state'' rs))"
    using assms(1) by (simp add: atomicWrite_ok no_faults_def)
  with assms atomicWrite_trace_files show ?thesis
    by (auto simp: Save_trace_def Let_def atomicWrite_trace_last [OF assms(1)])
qed

text \<open>Starting on a healthy disk that holds an encoded state and no snapshot.\<close>

lemma MakeRSM_without_snapshot:
  assumes "no_faults q" "saved_pair q = (Some (encodeState rf), sn)" "sn \<in> {None, Some []}" "erand \<noteq> 0"
    and "0 \<le> lastIncludedIndex rf"
  shows "\<exists>rsm rf'. MakeRSM n i q maxRaft NewStore emin erand hb = Some (rsm, rf') \<and> rsm_sm rsm = NewStore \<and>
    lastApplied rf' = lastIncludedIndex rf \<and> logs rf' = logs rf"
proof -
  have "ReadRaftState q = (Inr (encodeState rf), q)" "ReadSnapshot q = (Inr [], q)"
    using read_files [OF assms(1)] assms(2,3) by (auto simp: saved_pair_def)
  with assms(4,5) show ?thesis
    by (auto simp: MakeRSM_def Make_def MakeRSM_state_def readPersist_def encodeState_def fresh_Raft_def
        snapshot_or_nil_def Let_def)
qed

text \<open>
  \<^verbatim>\<open>Raft.persist\<close> ignores an error of \<^verbatim>\<open>ReadSnapshot\<close>: if that one read fails and the disk works
  afterwards, the snapshot is replaced by an empty one.
\<close>

lemma persist_read_error:
  assumes "\<not> killed rf" "plan (persister rf) = [OsFail k]"
  shows "\<exists>rf'. persist rf = Some rf' \<and> saved_pair (persister rf') = (Some (encodeState rf), Some [])"
proof -
  let ?ps = "(persister rf)\<lparr>plan := []\<rparr>"
  have rd: "ReadSnapshot (persister rf) = (Inl OsErr, ?ps)"
    using assms(2) by (simp add: ReadSnapshot_def os_ReadFile_def os_next_def)
  have h: "no_faults ?ps" by (simp add: no_faults_def)
  have "encodeState (rf\<lparr>persister := ?ps\<rparr>) = encodeState rf" by (simp add: encodeState_def)
  then show ?thesis
    using assms(1) rd saved_pair_Save [OF h, of "encodeState rf" "[]"]
    by (simp add: persist_def save_or_fatal_def snapshot_or_nil_def Save_ok [OF h])
qed

section \<open>Properties\<close>

text \<open>
  (C22) A crash during \<^verbatim>\<open>Save\<close>. After the system calls that have been made, none of which fails, the two files hold the old
  pair, the new pair, or the new state with the old snapshot, and each of the three occurs: each
  file is replaced atomically, the pair is not.
\<close>

theorem save_crash_states:
  assumes "no_faults ps"
  shows "saved_pair ` set (Save_trace ps rs sn) =
    {saved_pair ps, (Some rs, snd (saved_pair ps)), (Some rs, Some sn)}"
proof
  show "saved_pair ` set (Save_trace ps rs sn) \<subseteq> {saved_pair ps, (Some rs, snd (saved_pair ps)), (Some rs, Some sn)}"
    using Save_trace_pairs [OF assms] by blast
  have "saved_pair ps \<in> saved_pair ` set (Save_trace ps rs sn)"
    "(Some rs, Some sn) \<in> saved_pair ` set (Save_trace ps rs sn)"
    "(Some rs, snd (saved_pair ps)) \<in> saved_pair ` set (Save_trace ps rs sn)"
    using Save_trace_states [OF assms] saved_pair_Save [OF assms] Save_trace_torn [OF assms]
    by (metis image_eqI)+
  then show "{saved_pair ps, (Some rs, snd (saved_pair ps)), (Some rs, Some sn)} \<subseteq> saved_pair ` set (Save_trace ps rs sn)"
    by blast
qed

theorem save_crash_states_witness:
  "saved_pair ` set (Save_trace (MakeFilePersister ''d'' Map.empty) [GobInt 1] [GobInt 2]) =
    {(None, None), (Some [GobInt 1], None), (Some [GobInt 1], Some [GobInt 2])}"
proof -
  have "no_faults (MakeFilePersister ''d'' Map.empty)" "saved_pair (MakeFilePersister ''d'' Map.empty) = (None, None)"
    by (simp_all add: no_faults_def MakeFilePersister_def saved_pair_def)
  from save_crash_states [OF this(1)] this(2) show ?thesis by simp
qed

text \<open>
  (C21) Failures of the operating system during \<^verbatim>\<open>Save\<close>, in any combination. \<^verbatim>\<open>Save\<close> reports success only if
  both files hold the new values. If it reports an error, the snapshot is the old one, and the state
  is the old or the new one, never a part of it.
\<close>

theorem save_failures:
  "case Save ps rs sn of
     (None, ps') \<Rightarrow> saved_pair ps' = (Some rs, Some sn)
   | (Some _, ps') \<Rightarrow> saved_pair ps' \<in> {saved_pair ps, (Some rs, snd (saved_pair ps))}"
proof -
  obtain r ps1 where 1: "atomicWrite ps ''raft-state'' rs = (r, ps1)" by fastforce
  obtain r' ps2 where 2: "atomicWrite ps1 ''snapshot'' sn = (r', ps2)" by fastforce
  have d: "dir ps1 = dir ps" "dir ps2 = dir ps"
    using atomicWrite_dir [of ps "''raft-state''" rs] atomicWrite_dir [of ps1 "''snapshot''" sn] 1 2 by simp_all
  have f1: "files ps1 (state_path ps) = (if r = None then Some rs else files ps (state_path ps))"
    "files ps1 (snapshot_path ps) = files ps (snapshot_path ps)"
    using atomicWrite_target [of ps "''raft-state''" rs] atomicWrite_frame [of "snapshot_path ps" ps "''raft-state''" rs] 1
    by (simp_all add: state_path_def snapshot_path_def)
  have f2: "files ps2 (snapshot_path ps) = (if r' = None then Some sn else files ps1 (snapshot_path ps))"
    "files ps2 (state_path ps) = files ps1 (state_path ps)"
    using atomicWrite_target [of ps1 "''snapshot''" sn] atomicWrite_frame [of "state_path ps" ps1 "''snapshot''" sn] 2 d(1)
    by (simp_all add: state_path_def snapshot_path_def)
  show ?thesis
    using f1 f2 d 1 2 by (auto simp: Save_def saved_pair_def state_path_def snapshot_path_def split: option.splits)
qed

text \<open>
  (C20) The torn pair loses commands. \<^verbatim>\<open>Snapshot\<close> saves the shortened log together with the snapshot that
  replaces the entries it drops. If the server crashes between the two files when there was no snapshot before, then it
  starts again without an error: its store is empty, but Raft continues after the index of the
  lost snapshot, so the commands up to there are in no log entry that it will apply.
\<close>

theorem torn_save_loses_commands:
  assumes "Snapshot rf index d = Some rf2" "0 \<le> lastIncludedIndex rf" "lastIncludedIndex rf < index" "index \<le> commitIndex rf"
    and "no_faults (persister rf)" "snd (saved_pair (persister rf)) \<in> {None, Some []}" "erand \<noteq> 0"
  shows "persister rf2 = last (Save_trace (persister rf) (encodeState rf2) d) \<and>
    (\<exists>q \<in> set (Save_trace (persister rf) (encodeState rf2) d). \<exists>rsm rf'.
      MakeRSM n i q maxRaft NewStore emin erand hb = Some (rsm, rf') \<and> rsm_sm rsm = NewStore \<and>
      lastApplied rf' = index \<and> logs rf' = drop (nat (index - lastIncludedIndex rf)) (logs rf))"
proof -
  have rf2: "lastIncludedIndex rf2 = index" "logs rf2 = drop (nat (index - lastIncludedIndex rf)) (logs rf)"
      "persister rf2 = snd (Save (persister rf) (encodeState rf2) d)"
    using assms(1-4)
    by (auto simp: Snapshot_def save_or_fatal_def slice_from_def Go_Prelude.slice_def getPhysicalIndex_def
        bind_eq_Some_conv Let_def Save_ok [OF assms(5)] encodeState_def split: if_splits)
  obtain q where q: "q \<in> set (Save_trace (persister rf) (encodeState rf2) d)"
      "saved_pair q = (Some (encodeState rf2), snd (saved_pair (persister rf)))"
    using Save_trace_torn [OF assms(5)] by blast
  from MakeRSM_without_snapshot [OF Save_trace_healthy [OF assms(5) q(1)] q(2) assms(6,7)] assms(2,3) q(1) rf2
  show ?thesis by (fastforce simp: Save_trace_last [OF assms(5)])
qed

text \<open>Server 0 of the example, which has executed one \<open>Put\<close> and takes a snapshot of it.\<close>

theorem torn_save_loses_commands_witness:
  "\<exists>rf2 q rsm rf'. Snapshot (node (cl sys_demo) 0) 1 (store_Snapshot (store_of sys_demo 0)) = Some rf2 \<and>
     q \<in> set (Save_trace (persister (node (cl sys_demo) 0)) (encodeState rf2) (store_Snapshot (store_of sys_demo 0))) \<and>
     MakeRSM 3 0 q (-1) NewStore 600 400 100 = Some (rsm, rf') \<and> rsm_sm rsm = NewStore \<and> lastApplied rf' = 1 \<and>
     kv (store_of sys_demo 0) ''k'' = Some \<lparr>kv_Value = ''v'', kv_Version = 1\<rparr>"
proof -
  let ?rf = "node (cl sys_demo) 0"
  have "case Snapshot ?rf 1 (store_Snapshot (store_of sys_demo 0)) of None \<Rightarrow> False | _ \<Rightarrow> True" by code_simp
  then obtain rf2 where sn: "Snapshot ?rf 1 (store_Snapshot (store_of sys_demo 0)) = Some rf2"
    by (auto split: option.splits)
  have h: "0 \<le> lastIncludedIndex ?rf" "lastIncludedIndex ?rf < 1" "1 \<le> commitIndex ?rf" "no_faults (persister ?rf)"
      "case snd (saved_pair (persister ?rf)) of None \<Rightarrow> True | Some d \<Rightarrow> (case d of [] \<Rightarrow> True | _ \<Rightarrow> False)"
    by code_simp+
  have e: "snd (saved_pair (persister ?rf)) \<in> {None, Some []}" using h(5) by (auto split: option.splits list.splits)
  have k: "kv (store_of sys_demo 0) ''k'' = Some \<lparr>kv_Value = ''v'', kv_Version = 1\<rparr>" by code_simp
  from torn_save_loses_commands [OF sn h(1-4) e, where erand = 400 and n = 3 and i = 0 and maxRaft = "-1" and emin = 600 and hb = 100]
  show ?thesis using sn k by auto
qed

end
