(* ===== verification/Test_Network.thy ===== *)
theory Test_Network
  imports Complex_Main Transport "HOL-Library.AList"
begin

text \<open>
  The network of the test harness, \<^verbatim>\<open>kvraft/internal/testutils/network.go\<close>: servers of this
  process, connections that can be cut, and calls that may be dropped or delayed. The random
  numbers that a call draws are arguments. Writing to the connections of a server that was never
  added is a write to a nil map and panics (\<open>None\<close>).
\<close>

record Network =
  servers :: "(int \<times> Raft) list"
  net_connections :: "(int \<times> (int \<times> bool) list) list"
  dropRate :: rat
  delayRate :: rat
  maxDelayMs :: int
  isReliable :: bool
  isLongDelays :: bool
  rpcCounts :: "(int \<times> 64 word) list"

definition NewNetwork :: Network where
  "NewNetwork =
     \<lparr>servers = [], net_connections = [], dropRate = 0, delayRate = 0, maxDelayMs = 0,
      isReliable = True, isLongDelays = False, rpcCounts = []\<rparr>"

text \<open>The 64-bit floating point number next to 0.1.\<close>

definition float_tenth :: rat where
  "float_tenth = 3602879701896397 / 36028797018963968"

definition SetReliability :: "Network \<Rightarrow> bool \<Rightarrow> Network" where
  "SetReliability n reliable =
     (let n1 = n\<lparr>isReliable := reliable\<rparr>
      in if \<not> reliable then n1\<lparr>dropRate := float_tenth, delayRate := float_tenth, maxDelayMs := 200\<rparr> else n1)"

definition GetRPCCount :: "Network \<Rightarrow> int \<Rightarrow> int" where
  "GetRPCCount n i = (case map_of (rpcCounts n) i of Some c \<Rightarrow> sint c | None \<Rightarrow> 0)"

definition ResetRPCCounts :: "Network \<Rightarrow> Network" where
  "ResetRPCCounts n = n\<lparr>rpcCounts := map (\<lambda>(i, c). (i, 0)) (rpcCounts n)\<rparr>"

text \<open>\<^verbatim>\<open>n.connections[from][to]\<close>: missing entries read as false.\<close>

definition connection :: "Network \<Rightarrow> int \<Rightarrow> int \<Rightarrow> bool" where
  "connection n from to =
     (case map_of (net_connections n) from of
        None \<Rightarrow> False
      | Some m \<Rightarrow> (case map_of m to of None \<Rightarrow> False | Some b \<Rightarrow> b))"

definition set_connection :: "Network \<Rightarrow> int \<Rightarrow> int \<Rightarrow> bool \<Rightarrow> Network option" where
  "set_connection n from to b =
     (case map_of (net_connections n) from of
        None \<Rightarrow> None
      | Some m \<Rightarrow> Some (n\<lparr>net_connections := AList.update from (AList.update to b m) (net_connections n)\<rparr>))"

text \<open>
  \<^verbatim>\<open>AddServer\<close>: a new table for the server, then a connection in both directions with every other
  server. The loop visits the servers in the order of the list.
\<close>

fun connect_all :: "int \<Rightarrow> int list \<Rightarrow> Network \<Rightarrow> Network option" where
  "connect_all i [] n = Some n"
| "connect_all i (j # js) n =
     (if i \<noteq> j then
        do {
          n1 \<leftarrow> set_connection n i j True;
          n2 \<leftarrow> set_connection n1 j i True;
          connect_all i js n2
        }
      else connect_all i js n)"

definition AddServer :: "Network \<Rightarrow> int \<Rightarrow> Raft \<Rightarrow> Network option" where
  "AddServer n i server =
     (let n1 = n\<lparr>servers := AList.update i server (servers n),
                 net_connections := AList.update i [] (net_connections n),
                 rpcCounts := AList.update i 0 (rpcCounts n)\<rparr>
      in connect_all i (map fst (servers n1)) n1)"

definition Connect :: "Network \<Rightarrow> int \<Rightarrow> int \<Rightarrow> Network option" where
  "Connect n from to = set_connection n from to True"

definition Disconnect :: "Network \<Rightarrow> int \<Rightarrow> int \<Rightarrow> Network option" where
  "Disconnect n from to = set_connection n from to False"

text \<open>
  \<^verbatim>\<open>MethodByName\<close> on a Raft server and the call through reflection: no such method; a call with
  arguments that the method does not take, which panics; or the handler.
\<close>

datatype reflect_call = NoMethod | CallPanics | Called rpc_reply Raft

definition called :: "('r \<Rightarrow> rpc_reply) \<Rightarrow> (Raft \<times> 'r) option \<Rightarrow> reflect_call" where
  "called f r = (case r of None \<Rightarrow> CallPanics | Some (rf, reply) \<Rightarrow> Called (f reply) rf)"

definition call_method :: "Raft \<Rightarrow> string \<Rightarrow> rpc_args \<Rightarrow> rpc_reply \<Rightarrow> reflect_call" where
  "call_method rf name args reply =
     (if name = ''RequestVote'' then
        (case (args, reply) of (VoteArgs a, VoteRep r) \<Rightarrow> called VoteRep (RequestVote rf a) | _ \<Rightarrow> CallPanics)
      else if name = ''AppendEntries'' then
        (case (args, reply) of (AppendArgs a, AppendRep r) \<Rightarrow> called AppendRep (AppendEntries rf a) | _ \<Rightarrow> CallPanics)
      else if name = ''InstallSnapshot'' then
        (case (args, reply) of (SnapshotArgs a, SnapshotRep r) \<Rightarrow> called SnapshotRep (InstallSnapshot rf a) | _ \<Rightarrow> CallPanics)
      else if name \<in> set [''Start'', ''State'', ''Leader'', ''Snapshot'', ''PersistBytes'', ''Kill''] then CallPanics
      else NoMethod)"

text \<open>The part after the last dot.\<close>

definition method_name :: "string \<Rightarrow> string" where
  "method_name s = rev (takeWhile (\<lambda>c. c \<noteq> CHR ''.'') (rev s))"

text \<open>
  \<open>u1\<close> and \<open>u2\<close> are the values of \<^verbatim>\<open>rand.Float64()\<close>. The arguments reach the handler as a copy
  that has been encoded and decoded; the types of the commands are registered, so the copy is equal to
  them. The reply that the callers pass is zero, and the handler fills it.
  \<^verbatim>\<open>rand.Intn\<close> panics unless its bound is positive.
\<close>

definition net_Call ::
  "rat \<Rightarrow> rat \<Rightarrow> Network \<Rightarrow> int \<Rightarrow> int \<Rightarrow> string \<Rightarrow> rpc_args \<Rightarrow> rpc_reply \<Rightarrow>
   (bool \<times> rpc_reply \<times> Network) option" where
  "net_Call u1 u2 n from to method args reply =
     (let connected = connection n from to \<and> connection n to from;
          drop = (\<not> isReliable n \<and> u1 < dropRate n);
          delay = (\<not> isReliable n \<and> u2 < delayRate n)
      in case map_of (servers n) to of
           None \<Rightarrow> Some (False, reply, n)
         | Some server \<Rightarrow>
             if \<not> connected \<or> drop then Some (False, reply, n)
             else let n1 = (case map_of (rpcCounts n) to of
                              None \<Rightarrow> n
                            | Some c \<Rightarrow> n\<lparr>rpcCounts := AList.update to (c + 1) (rpcCounts n)\<rparr>)
                  in if delay \<and> maxDelayMs n \<le> 0 then None
                     else case call_method server (method_name method) args reply of
                            NoMethod \<Rightarrow> Some (False, reply, n1)
                          | CallPanics \<Rightarrow> None
                          | Called reply' server' \<Rightarrow>
                              Some (True, reply', n1\<lparr>servers := AList.update to server' (servers n1)\<rparr>))"

record MockTransport =
  mt_me :: int
  mt_peer :: int

definition MockTransport_Call ::
  "rat \<Rightarrow> rat \<Rightarrow> Network \<Rightarrow> MockTransport \<Rightarrow> string \<Rightarrow> rpc_args \<Rightarrow> rpc_reply \<Rightarrow>
   (bool \<times> rpc_reply \<times> Network) option" where
  "MockTransport_Call u1 u2 n t method args reply = net_Call u1 u2 n (mt_me t) (mt_peer t) method args reply"

definition MakeMockTransports :: "int \<Rightarrow> nat \<Rightarrow> MockTransport list" where
  "MakeMockTransports self numServers = map (\<lambda>i. \<lparr>mt_me = self, mt_peer = int i\<rparr>) [0..<numServers]"

text \<open>
  What holds of a network that was made by these operations: every server has a table of
  connections and a counter, and delays have a bound.
\<close>

definition net_ok :: "Network \<Rightarrow> bool" where
  "net_ok n \<longleftrightarrow> dom (map_of (net_connections n)) = dom (map_of (servers n)) \<and>
     dom (map_of (rpcCounts n)) = dom (map_of (servers n)) \<and> (\<not> isReliable n \<longrightarrow> 0 < maxDelayMs n)"

section \<open>Lemmas\<close>

lemma set_connection_some:
  assumes "net_ok n" "from \<in> dom (map_of (servers n))"
  shows "\<exists>n'. set_connection n from to b = Some n'"
  using assms by (auto simp: set_connection_def net_ok_def split: option.splits)

lemma dom_update_present:
  "k \<in> dom (map_of al) \<Longrightarrow> dom (map_of (AList.update k v al)) = dom (map_of al)"
  by (auto simp: update_conv' split: if_splits)

lemma set_connection_ok:
  assumes "set_connection n from to b = Some n'"
  shows "connection n' x y = (if (x, y) = (from, to) then b else connection n x y)"
    "servers n' = servers n" "net_ok n \<Longrightarrow> net_ok n'"
proof -
  obtain m where m: "map_of (net_connections n) from = Some m"
      "n' = n\<lparr>net_connections := AList.update from (AList.update to b m) (net_connections n)\<rparr>"
    using assms by (auto simp: set_connection_def split: option.splits)
  then show "connection n' x y = (if (x, y) = (from, to) then b else connection n x y)" "servers n' = servers n"
    by (auto simp: connection_def update_conv')
  have "from \<in> dom (map_of (net_connections n))" using m(1) by blast
  then show "net_ok n'" if "net_ok n" using m that by (simp add: net_ok_def dom_update_present)
qed

lemma connect_all_ok:
  assumes "net_ok n" "i \<in> dom (map_of (servers n))" "set js \<subseteq> dom (map_of (servers n))"
  shows "\<exists>n'. connect_all i js n = Some n' \<and> net_ok n' \<and> servers n' = servers n \<and>
    (\<forall>x y. connection n' x y = (connection n x y \<or> (x = i \<and> y \<in> set js \<or> y = i \<and> x \<in> set js) \<and> x \<noteq> y))"
  using assms
proof (induction js arbitrary: n)
  case (Cons j js)
  show ?case
  proof (cases "i = j")
    case True
    then show ?thesis using Cons.IH [OF Cons.prems(1,2)] Cons.prems(3) by auto
  next
    case False
    obtain n1 where n1: "set_connection n i j True = Some n1" using set_connection_some [OF Cons.prems(1,2)] by blast
    note s1 = set_connection_ok [OF n1]
    have "net_ok n1" using s1(3) Cons.prems(1) by simp
    then obtain n2 where n2: "set_connection n1 j i True = Some n2"
      using set_connection_some [of n1 j i True] Cons.prems(3) s1(2) by auto
    note s2 = set_connection_ok [OF n2]
    have "net_ok n2" using s2(3) \<open>net_ok n1\<close> by simp
    from Cons.IH [OF this] Cons.prems(2,3) False n1 n2 s1(1,2) s2(1,2) show ?thesis by fastforce
  qed
qed simp

lemma AddServer_ok:
  assumes "net_ok n"
  shows "\<exists>n'. AddServer n i rf = Some n' \<and> net_ok n' \<and> map_of (servers n') = (map_of (servers n))(i \<mapsto> rf) \<and>
    (\<forall>j \<in> dom (map_of (servers n)). j \<noteq> i \<longrightarrow> connection n' i j \<and> connection n' j i)"
proof -
  let ?n1 = "n\<lparr>servers := AList.update i rf (servers n), net_connections := AList.update i [] (net_connections n),
                 rpcCounts := AList.update i 0 (rpcCounts n)\<rparr>"
  have "net_ok ?n1" using assms by (simp add: net_ok_def update_conv')
  moreover have "i \<in> dom (map_of (servers ?n1))" by (simp add: update_conv')
  moreover have "set (map fst (servers ?n1)) \<subseteq> dom (map_of (servers ?n1))" by (simp add: dom_map_of_conv_image_fst)
  ultimately obtain n' where "connect_all i (map fst (servers ?n1)) ?n1 = Some n'" "net_ok n'" "servers n' = servers ?n1"
    "\<forall>x y. connection n' x y = (connection ?n1 x y \<or>
       (x = i \<and> y \<in> set (map fst (servers ?n1)) \<or> y = i \<and> x \<in> set (map fst (servers ?n1))) \<and> x \<noteq> y)"
    using connect_all_ok by blast
  moreover have "j \<in> set (map fst (servers ?n1))" if "j \<in> dom (map_of (servers n))" for j
    using that by (auto simp: dom_map_of_conv_image_fst dom_update)
  ultimately show ?thesis by (auto simp: AddServer_def Let_def update_conv')
qed

lemma method_names:
  "method_name ''Raft.RequestVote'' = ''RequestVote''" "method_name ''Raft.AppendEntries'' = ''AppendEntries''"
  "method_name ''Raft.InstallSnapshot'' = ''InstallSnapshot''"
  by (simp_all add: method_name_def)

lemma dom_reset: "dom (map_of (map (\<lambda>(i, c). (i, 0)) xs)) = dom (map_of xs)"
  by (simp add: dom_map_of_conv_image_fst image_image case_prod_unfold)

lemma net_ok_ops:
  "net_ok NewNetwork" "net_ok n \<Longrightarrow> net_ok (SetReliability n b)" "net_ok n \<Longrightarrow> net_ok (ResetRPCCounts n)"
  by (simp_all add: net_ok_def NewNetwork_def SetReliability_def ResetRPCCounts_def Let_def dom_reset)

lemma net_ok_count:
  assumes "net_ok n" "map_of (rpcCounts n) i = Some c"
  shows "net_ok (n\<lparr>rpcCounts := AList.update i c' (rpcCounts n)\<rparr>)"
proof -
  have "i \<in> dom (map_of (rpcCounts n))" using assms(2) by blast
  then show ?thesis using assms(1) by (simp add: net_ok_def dom_update_present)
qed

lemma net_ok_server:
  assumes "net_ok n" "map_of (servers n) i = Some rf"
  shows "net_ok (n\<lparr>servers := AList.update i rf' (servers n)\<rparr>)"
proof -
  have "i \<in> dom (map_of (servers n))" using assms(2) by blast
  then show ?thesis using assms(1) by (simp add: net_ok_def dom_update_present)
qed

lemma net_Call_ok:
  assumes "net_ok n" "net_Call u1 u2 n from to method args reply = Some (b, reply', n')"
  shows "net_ok n'"
proof (cases "map_of (servers n) to")
  case None
  then show ?thesis using assms by (simp add: net_Call_def)
next
  case (Some server)
  define n1 where "n1 = (case map_of (rpcCounts n) to of None \<Rightarrow> n
    | Some c \<Rightarrow> n\<lparr>rpcCounts := AList.update to (c + 1) (rpcCounts n)\<rparr>)"
  have n1: "servers n1 = servers n" by (simp add: n1_def split: option.splits)
  have ok1: "net_ok n1" using assms(1) net_ok_count [OF assms(1)] by (simp add: n1_def split: option.splits)
  have ok2: "net_ok (n1\<lparr>servers := AList.update to server' (servers n1)\<rparr>)" for server'
    by (rule net_ok_server [OF ok1]) (simp add: n1 Some)
  have "n' = n \<or> n' = n1 \<or> (\<exists>server'. n' = n1\<lparr>servers := AList.update to server' (servers n1)\<rparr>)"
    using assms(2) Some unfolding net_Call_def Let_def n1_def [symmetric]
    by (simp split: if_splits reflect_call.splits) blast+
  then show ?thesis using assms(1) ok1 ok2 by blast
qed

text \<open>One server has been added to an empty network, then another.\<close>

definition two_servers :: Network where
  "two_servers =
     the (AddServer NewNetwork 0 (fresh_Raft 2 0 (MakeFilePersister ''d'' Map.empty) 600 400 100) \<bind>
       (\<lambda>n. AddServer n 1 (fresh_Raft 2 1 (MakeFilePersister ''d'' Map.empty) 600 400 100)))"

section \<open>Properties\<close>

text \<open>
  (C38) The network keeps its tables. Adding servers, cutting and restoring connections of added servers, changing the
  reliability, resetting the counters and calls, in any order, keep the invariant: every server has its
  connections and its counter, and a delayed call has a bound. So adding a server never panics, and a call panics only if the
  handler does.
\<close>

theorem network_invariant:
  "net_ok NewNetwork \<and>
   (\<forall>n. net_ok n \<longrightarrow>
     (\<forall>i rf. \<exists>n'. AddServer n i rf = Some n' \<and> net_ok n' \<and>
        (\<forall>j \<in> dom (map_of (servers n)). j \<noteq> i \<longrightarrow> connection n' i j \<and> connection n' j i)) \<and>
     (\<forall>i j. i \<in> dom (map_of (servers n)) \<longrightarrow> (\<exists>n'. Connect n i j = Some n' \<and> net_ok n') \<and> (\<exists>n'. Disconnect n i j = Some n' \<and> net_ok n')) \<and>
     (\<forall>b. net_ok (SetReliability n b)) \<and> net_ok (ResetRPCCounts n) \<and>
     (\<forall>u1 u2 i j m args reply. case net_Call u1 u2 n i j m args reply of
        Some (_, _, n') \<Rightarrow> net_ok n'
      | None \<Rightarrow> \<exists>rf. map_of (servers n) j = Some rf \<and> call_method rf (method_name m) args reply = CallPanics))"
proof (intro conjI allI impI)
  fix n assume ok: "net_ok n"
  show "\<exists>n'. AddServer n i rf = Some n' \<and> net_ok n' \<and>
      (\<forall>j \<in> dom (map_of (servers n)). j \<noteq> i \<longrightarrow> connection n' i j \<and> connection n' j i)" for i rf
    using AddServer_ok [OF ok, of i rf] by blast
  show "\<exists>n'. Connect n i j = Some n' \<and> net_ok n'" "\<exists>n'. Disconnect n i j = Some n' \<and> net_ok n'"
    if "i \<in> dom (map_of (servers n))" for i j
    using set_connection_some [OF ok that] set_connection_ok(3) ok unfolding Connect_def Disconnect_def by blast+
  show "net_ok (SetReliability n b)" "net_ok (ResetRPCCounts n)" for b using net_ok_ops ok by blast+
  show "case net_Call u1 u2 n i j m args reply of
        Some (_, _, n') \<Rightarrow> net_ok n'
      | None \<Rightarrow> \<exists>rf. map_of (servers n) j = Some rf \<and> call_method rf (method_name m) args reply = CallPanics"
    for u1 u2 i j m args reply
  proof (cases "net_Call u1 u2 n i j m args reply")
    case None
    then show ?thesis using ok by (auto simp: net_Call_def net_ok_def Let_def split: option.splits if_splits reflect_call.splits)
  next
    case (Some x)
    then show ?thesis using net_Call_ok [OF ok] by (cases x) auto
  qed
qed (rule net_ok_ops)

theorem network_invariant_witness:
  "\<exists>n. AddServer NewNetwork 0 (fresh_Raft 2 0 (MakeFilePersister ''d'' Map.empty) 600 400 100) = Some n \<and> net_ok n"
proof -
  have "net_ok NewNetwork" by (rule network_invariant [THEN conjunct1])
  from network_invariant [THEN conjunct2, rule_format, OF this, THEN conjunct1] show ?thesis by blast
qed



end
