(* ===== verification/Test_Doubles.thy ===== *)
theory Test_Doubles
  imports Rsm Raft_Handlers
begin

text \<open>
  The stand-ins of the test harness: \<^verbatim>\<open>kvraft/internal/testutils/mock_raft.go\<close>, a Raft that
  commits every command at once, and \<^verbatim>\<open>mock_sm.go\<close>, a state machine that remembers the requests;
  and the interface \<^verbatim>\<open>raft.Raft\<close> as far as \<^verbatim>\<open>RSM.Submit\<close> relies on it, which the mock and the
  real Raft both implement.
\<close>

section \<open>MockPersister: sizes\<close>

definition mock_RaftStateSize :: "(bytes \<Rightarrow> int) \<Rightarrow> MockPersister \<Rightarrow> int" where
  "mock_RaftStateSize byte_size p = byte_size (mock_raftState p)"

definition mock_SnapshotSize :: "(bytes \<Rightarrow> int) \<Rightarrow> MockPersister \<Rightarrow> int" where
  "mock_SnapshotSize byte_size p = byte_size (mock_snapshot p)"

section \<open>MockRaft\<close>

text \<open>
  \<open>mr_msgQueue\<close> is the buffered channel, \<open>mr_applyCh\<close> what has been sent on \<^verbatim>\<open>applyCh\<close>, or
  \<open>None\<close> if that channel is nil.
\<close>

record MockRaft =
  mr_me :: int
  mr_applyCh :: "ApplyMsg list option"
  mr_currentTerm :: int
  mr_isLeader :: bool
  mr_currentLeader :: int
  mr_nextIndex :: int
  mr_persister :: MockPersister
  mr_msgQueue :: "ApplyMsg list"

definition NewMockRaft :: "int \<Rightarrow> ApplyMsg list option \<Rightarrow> MockPersister \<Rightarrow> MockRaft" where
  "NewMockRaft self ch ps =
     \<lparr>mr_me = self, mr_applyCh = ch, mr_currentTerm = 1, mr_isLeader = True, mr_currentLeader = self,
      mr_nextIndex = 1, mr_persister = ps, mr_msgQueue = []\<rparr>"

text \<open>One iteration of \<^verbatim>\<open>processQueue\<close>.\<close>

definition processQueue :: "MockRaft \<Rightarrow> MockRaft" where
  "processQueue m =
     (case mr_msgQueue m of
        [] \<Rightarrow> m
      | msg # q \<Rightarrow> m\<lparr>mr_msgQueue := q, mr_applyCh := map_option (\<lambda>sent. sent @ [msg]) (mr_applyCh m)\<rparr>)"

definition mock_State :: "MockRaft \<Rightarrow> int \<times> bool" where
  "mock_State m = (mr_currentTerm m, mr_isLeader m)"

definition mock_Leader :: "MockRaft \<Rightarrow> int" where
  "mock_Leader m = mr_currentLeader m"

text \<open>\<open>None\<close>: the queue of 1000 messages is full and the send blocks.\<close>

definition mock_Start :: "MockRaft \<Rightarrow> any \<Rightarrow> ((int \<times> int \<times> bool) \<times> MockRaft) option" where
  "mock_Start m command =
     (if \<not> mr_isLeader m then Some ((-1, -1, False), m)
      else if length (mr_msgQueue m) \<ge> 1000 then None
      else let index = mr_nextIndex m; term = mr_currentTerm m
           in Some ((index, term, True),
                m\<lparr>mr_nextIndex := mr_nextIndex m + 1,
                  mr_msgQueue := mr_msgQueue m @
                    [zero_ApplyMsg\<lparr>CommandValid := True, am_Command := command, CommandIndex := index\<rparr>]\<rparr>))"

definition mock_PersistBytes :: "(bytes \<Rightarrow> int) \<Rightarrow> MockRaft \<Rightarrow> int" where
  "mock_PersistBytes byte_size m = mock_RaftStateSize byte_size (mr_persister m)"

text \<open>\<open>raw\<close> is the literal \<^verbatim>\<open>"mock_raft_state"\<close>, which is not a gob stream.\<close>

definition mock_Raft_Snapshot :: "bytes \<Rightarrow> MockRaft \<Rightarrow> int \<Rightarrow> bytes \<Rightarrow> MockRaft" where
  "mock_Raft_Snapshot raw m index snapshot =
     m\<lparr>mr_persister := snd (mock_Save (mr_persister m) raw snapshot)\<rparr>"

definition mock_Kill :: "MockRaft \<Rightarrow> MockRaft" where
  "mock_Kill m = m"

definition SetLeader :: "MockRaft \<Rightarrow> bool \<Rightarrow> int \<Rightarrow> MockRaft" where
  "SetLeader m isLeader leader =
     m\<lparr>mr_isLeader := isLeader, mr_currentLeader := leader, mr_currentTerm := mr_currentTerm m + 1\<rparr>"

section \<open>MockStateMachine\<close>

record MockStateMachine =
  msm_applied :: "any list"

definition NewMockStateMachine :: MockStateMachine where
  "NewMockStateMachine = \<lparr>msm_applied = []\<rparr>"

definition mock_DoOp :: "MockStateMachine \<Rightarrow> any \<Rightarrow> any \<times> MockStateMachine" where
  "mock_DoOp m req = (req, m\<lparr>msm_applied := msm_applied m @ [req]\<rparr>)"

text \<open>A gob encoder refuses a nil element.\<close>

definition mock_sm_Snapshot :: "MockStateMachine \<Rightarrow> bytes option" where
  "mock_sm_Snapshot m = (if AnyNil \<in> set (msm_applied m) then None else Some [GobAnys (msm_applied m)])"

definition mock_sm_Restore :: "MockStateMachine \<Rightarrow> bytes \<Rightarrow> MockStateMachine option" where
  "mock_sm_Restore m data =
     (if data = [] then Some (m\<lparr>msm_applied := []\<rparr>)
      else case gob_decode_anys data of
             None \<Rightarrow> None
           | Some (as, _) \<Rightarrow> Some (m\<lparr>msm_applied := as\<rparr>))"

definition GetAppliedCount :: "MockStateMachine \<Rightarrow> int" where
  "GetAppliedCount m = int (length (msm_applied m))"

fun mock_ops :: "MockStateMachine \<Rightarrow> any list \<Rightarrow> MockStateMachine" where
  "mock_ops m [] = m"
| "mock_ops m (r # rs) = mock_ops (snd (mock_DoOp m r)) rs"

lemma mock_ops_applied: "msm_applied (mock_ops m rs) = msm_applied m @ rs"
  by (induction rs arbitrary: m) (auto simp: mock_DoOp_def)

interpretation msm: state_machine mock_DoOp mock_sm_Snapshot mock_sm_Restore NewMockStateMachine mock_ops
proof
  show "mock_sm_Restore (mock_ops NewMockStateMachine cs) d = Some (mock_ops NewMockStateMachine (cs @ cs'))"
    if "mock_sm_Snapshot (mock_ops NewMockStateMachine (cs @ cs')) = Some d" for cs cs' d
    using that mock_ops_applied [of NewMockStateMachine]
    by (auto simp: mock_sm_Snapshot_def mock_sm_Restore_def split: if_splits)
qed simp_all

section \<open>The interface of Raft\<close>

text \<open>A leader of term 1 with an empty log.\<close>

definition demo_leader :: Raft where
  "demo_leader = (fresh_Raft 3 0 (MakeFilePersister ''d'' Map.empty) 600 400 100)
     \<lparr>state := StateLeader, currentTerm := 1, votedFor := 0, currentLeader := 0\<rparr>"


text \<open>Starting commands one after the other: the indices and terms that are returned.\<close>

fun starts :: "('r \<Rightarrow> any \<Rightarrow> ((int \<times> int \<times> bool) \<times> 'r) option) \<Rightarrow> 'r \<Rightarrow> any list \<Rightarrow> ((int \<times> int \<times> bool) list \<times> 'r) option" where
  "starts start r [] = Some ([], r)"
| "starts start r (c # cs) =
     do { (a, r1) \<leftarrow> start r c; (as, r2) \<leftarrow> starts start r1 cs; Some (a # as, r2) }"

text \<open>
  What \<^verbatim>\<open>RSM.Submit\<close> relies on: a server that does not lead refuses and does not change; a
  leader assigns consecutive indices in its own term and stays leader.
\<close>

locale raft_start =
  fixes state :: "'r \<Rightarrow> int \<times> bool"
    and start :: "'r \<Rightarrow> any \<Rightarrow> ((int \<times> int \<times> bool) \<times> 'r) option"
    and index :: "'r \<Rightarrow> int"
  assumes not_leader: "\<not> snd (state r) \<Longrightarrow> start r c = Some ((-1, -1, False), r)"
    and leader: "snd (state r) \<Longrightarrow> start r c = Some (a, r') \<Longrightarrow>
      a = (index r, fst (state r), True) \<and> state r' = state r \<and> index r' = index r + 1"
begin

lemma starts_leader:
  "starts start r cs = Some (as, r') \<Longrightarrow> snd (state r) \<Longrightarrow>
   as = map (\<lambda>k. (index r + int k, fst (state r), True)) [0..<length cs]"
proof (induction cs arbitrary: r as)
  case (Cons c cs)
  then obtain a r1 as1 where 1: "start r c = Some (a, r1)" "starts start r1 cs = Some (as1, r')" "as = a # as1"
    by (auto simp: bind_eq_Some_conv)
  note l = leader [OF Cons.prems(2) 1(1)]
  then have "as1 = map (\<lambda>k. (index r + int (Suc k), fst (state r), True)) [0..<length cs]"
    using Cons.IH [OF 1(2)] Cons.prems(2) by (simp add: algebra_simps)
  then show ?case
    using l 1(3) by (simp only: length_Cons upt_conv_Cons zero_less_Suc map_Suc_upt [symmetric] list.map map_map comp_def) simp
qed simp

lemma starts_not_leader:
  "\<not> snd (state r) \<Longrightarrow> starts start r cs = Some (map (\<lambda>_. (-1, -1, False)) cs, r)"
  by (induction cs) (simp_all add: not_leader)

end

interpretation mockraft: raft_start mock_State mock_Start mr_nextIndex
  by unfold_locales (auto simp: mock_State_def mock_Start_def Let_def split: if_splits)

lemma persist_fields:
  "persist rf = Some rf' \<Longrightarrow> \<exists>ps. rf' = rf\<lparr>persister := ps\<rparr>"
  by (cases "killed rf") (auto simp: persist_def save_or_fatal_def split: prod.splits option.splits intro: exI [of _ "persister rf"])

interpretation realraft: raft_start State Start getLen
proof
  show "Start r c = Some ((-1, -1, False), r)" if "\<not> snd (State r)" for r c
    using that by (simp add: State_def Start_def)
next
  fix r c a r' assume l: "snd (State r)" and s: "Start r c = Some (a, r')"
  have "state r = StateLeader" using l by (simp add: State_def)
  with s obtain ps where "a = (getLen r, currentTerm r, True)"
      "r' = signalBroadcastReplication (r\<lparr>logs := logs r @ [\<lparr>Index = getLen r, Term = currentTerm r, Command = c\<rparr>],
              persister := ps\<rparr>) False"
    by (auto simp: Start_def Let_def bind_eq_Some_conv dest!: persist_fields)
  then show "a = (getLen r, fst (State r), True) \<and> State r' = State r \<and> getLen r' = getLen r + 1"
    by (simp add: State_def getLen_def signalBroadcastReplication_eq)
qed

section \<open>Properties\<close>

text \<open>
  (C37) The mock is a faithful stand-in for a Raft server whose leadership does not change: if both lead in the same term
  with the same next index, then the same commands get the same indices and terms, namely consecutive
  indices; and if neither leads, both refuse every command and do not change.
\<close>

theorem mock_matches_raft:
  assumes "starts Start rf cs = Some (as, rf')" "starts mock_Start m cs = Some (bs, m')"
    and "State rf = mock_State m" "getLen rf = mr_nextIndex m"
  shows "as = bs \<and>
    (if snd (State rf) then as = map (\<lambda>k. (getLen rf + int k, currentTerm rf, True)) [0..<length cs]
     else as = map (\<lambda>_. (-1, -1, False)) cs \<and> rf' = rf \<and> m' = m)"
proof (cases "snd (State rf)")
  case True
  then show ?thesis
    using realraft.starts_leader [OF assms(1)] mockraft.starts_leader [OF assms(2)] assms(3,4)
    by (simp add: State_def mock_State_def)
next
  case False
  then show ?thesis
    using realraft.starts_not_leader [of rf cs] mockraft.starts_not_leader [of m cs] assms by simp
qed

theorem mock_matches_raft_witness:
  "\<exists>rf' m'. starts Start demo_leader [AnyInt 7, AnyInt 8] = Some ([(1, 1, True), (2, 1, True)], rf') \<and>
     starts mock_Start (NewMockRaft 0 None NewMockPersister) [AnyInt 7, AnyInt 8] = Some ([(1, 1, True), (2, 1, True)], m')"
proof -
  have "case starts Start demo_leader [AnyInt 7, AnyInt 8] of None \<Rightarrow> False | Some _ \<Rightarrow> True"
    "case starts mock_Start (NewMockRaft 0 None NewMockPersister) [AnyInt 7, AnyInt 8] of None \<Rightarrow> False | Some _ \<Rightarrow> True"
    by code_simp+
  then obtain as rf' bs m' where s: "starts Start demo_leader [AnyInt 7, AnyInt 8] = Some (as, rf')"
      "starts mock_Start (NewMockRaft 0 None NewMockPersister) [AnyInt 7, AnyInt 8] = Some (bs, m')"
    by (auto split: option.splits)
  have "State demo_leader = mock_State (NewMockRaft 0 None NewMockPersister)" "snd (State demo_leader)"
    "getLen demo_leader = mr_nextIndex (NewMockRaft 0 None NewMockPersister)" "getLen demo_leader = 1" "currentTerm demo_leader = 1"
    by code_simp+
  with mock_matches_raft [OF s] have "as = bs \<and> as = [(1, 1, True), (2, 1, True)]"
    by (auto simp: upt_rec)
  with s show ?thesis by blast
qed


end
