(* ===== verification/Commands.thy ===== *)
theory Commands
  imports Clerk_System
begin

text \<open>
  The two programs: the command line client, \<^verbatim>\<open>kvraft/cmd/cli/main.go\<close>, and the server,
  \<^verbatim>\<open>kvraft/cmd/kvserver/main.go\<close>. Their arguments are those that remain after the flags
  have been parsed; what they print is a value, and so is their exit status.
\<close>

section \<open>Sscanf\<close>

text \<open>
  \<^verbatim>\<open>fmt.Sscanf(s, "%d", &u)\<close> for an unsigned 64-bit variable: blanks are skipped, a newline is an error, at least
  one digit is needed, and what follows the digits is ignored.
\<close>

definition blank :: "char \<Rightarrow> bool" where
  "blank c \<longleftrightarrow> (let n = of_char c :: nat in n = 9 \<or> n = 11 \<or> n = 12 \<or> n = 13 \<or> n = 32)"

definition Sscanf_uint :: "string \<Rightarrow> 64 word option" where
  "Sscanf_uint s =
     (let ds = takeWhile (\<lambda>c. digit c \<noteq> None) (dropWhile blank s)
      in if ds = [] then None
         else do {
           n \<leftarrow> digits 0 ds;
           if n < 2 ^ 64 then Some (word_of_int n) else None
         })"

text \<open>A flag that is given, or its default.\<close>

definition flag_value :: "'a option \<Rightarrow> 'a \<Rightarrow> 'a" where
  "flag_value f dflt = (case f of Some v \<Rightarrow> v | None \<Rightarrow> dflt)"

section \<open>cmd/cli\<close>

datatype printed =
    PrintUsage
  | PrintGetUsage
  | PrintPutUsage
  | PrintConfigError config_error
  | PrintDialError
  | PrintBadVersion
  | PrintUnknownCommand string
  | PrintGet string "64 word" Err
  | PrintPut Err

text \<open>
  What is printed, the exit status and the world afterwards; \<open>Panics\<close> if the clerk panics, \<open>None\<close> if it does not
  return.
\<close>

definition cli_run ::
  "'w KVClient \<Rightarrow> Clerk \<Rightarrow> string list \<Rightarrow> 'w \<Rightarrow> ((printed \<times> int) go \<times> 'w) option" where
  "cli_run net ck args w =
     (if hd args = ''get'' then
        (if length args \<noteq> 2 then Some (Returns (PrintGetUsage, 2), w)
         else do {
           (r, _, w1) \<leftarrow> Clerk_Get net ck (args ! 1) w;
           (case r of
              Panics \<Rightarrow> Some (Panics, w1)
            | Returns (v, ver, e) \<Rightarrow>
                Some (Returns (PrintGet v ver e, if e \<noteq> OK \<and> e \<noteq> ErrNoKey then 1 else 0), w1))
         })
      else if hd args = ''put'' then
        (if length args < 3 \<or> length args > 4 then Some (Returns (PrintPutUsage, 2), w)
         else case (if length args = 4 then Sscanf_uint (args ! 3) else Some 0) of
                None \<Rightarrow> Some (Returns (PrintBadVersion, 2), w)
              | Some ver \<Rightarrow> do {
                  (r, _, w1) \<leftarrow> Clerk_Put net ck (args ! 1) (args ! 2) ver w;
                  (case r of
                     Panics \<Rightarrow> Some (Panics, w1)
                   | Returns e \<Rightarrow> Some (Returns (PrintPut e, if e \<noteq> OK then 1 else 0), w1))
                })
      else Some (Returns (PrintUnknownCommand (hd args), 2), w))"

definition cli_main ::
  "environ \<Rightarrow> (string \<Rightarrow> config_file) \<Rightarrow> string option \<Rightarrow> (string \<Rightarrow> bool) \<Rightarrow> 'w KVClient \<Rightarrow> string list \<Rightarrow> 'w \<Rightarrow>
   ((printed \<times> int) go \<times> 'w) option" where
  "cli_main env file cfgPath dial net args w =
     (if length args < 1 then Some (Returns (PrintUsage, 2), w)
      else case Load env (file (flag_value cfgPath ''config/cluster.json'')) of
             Inl err \<Rightarrow> Some (Returns (PrintConfigError err, 1), w)
           | Inr cfg \<Rightarrow>
               (case NewClerk dial env (map node_Addr (Nodes cfg)) of
                  Inl closed \<Rightarrow> Some (Returns (PrintDialError, 1), w)
                | Inr ck \<Rightarrow> cli_run net ck args w))"

section \<open>cmd/kvserver\<close>

text \<open>
  The flags, with the environment for their defaults; those that only choose how to log are left
  out.
\<close>

record server_flags =
  fl_config :: "string option"
  fl_id :: "int option"
  fl_datadir :: "string option"
  fl_maxraftstate :: "int option"

datatype server_end =
    ServerUsage
  | ServerConfigError config_error
  | ServerStartError start_error
  | ServerRuns server RSM Raft

text \<open>
  The exit status, and how the program got there: an error, or a server that ran until a signal
  arrived and \<^verbatim>\<open>Stop\<close> ended it. \<open>file\<close> is what is at a path, \<open>disk\<close> opens a data directory.
\<close>

definition kvserver_main ::
  "environ \<Rightarrow> server_flags \<Rightarrow> (string \<Rightarrow> config_file) \<Rightarrow> (string \<Rightarrow> FilePersister option) \<Rightarrow>
   (string \<Rightarrow> bool) \<Rightarrow> (string \<Rightarrow> bool) \<Rightarrow> (int \<times> server_end) option" where
  "kvserver_main env fl file disk dial listen =
     (let cfgPath = flag_value (fl_config fl) (GetEnv env ''CONFIG_PATH'' ''cluster.json'');
          nodeID = flag_value (fl_id fl) (GetEnvInt env ''NODE_ID'' (-1));
          dataDir = flag_value (fl_datadir fl) (GetEnv env ''DATA_DIR'' []);
          maxRaft = flag_value (fl_maxraftstate fl) (GetEnvInt env ''MAX_RAFT_STATE'' (-1))
      in if nodeID < 0 \<or> dataDir = [] then Some (2, ServerUsage)
         else case Load env (file cfgPath) of
                Inl err \<Rightarrow> Some (1, ServerConfigError err)
              | Inr cfg \<Rightarrow> do {
                  (inst, r) \<leftarrow> StartNode cfg nodeID (disk dataDir) maxRaft dial listen;
                  (case r of
                     Inl err \<Rightarrow> Some (1, ServerStartError err)
                   | Inr srv \<Rightarrow> do { (rsm, rf) \<leftarrow> inst; Some (0, ServerRuns srv rsm rf) })
                })"

text \<open>A start of node 2 of the example.\<close>

definition demo_flags :: server_flags where
  "demo_flags = \<lparr>fl_config = None, fl_id = Some 2, fl_datadir = Some ''data'', fl_maxraftstate = None\<rparr>"

section \<open>Lemmas\<close>

lemma Load_nodes:
  assumes "Load env f = Inr cfg"
  shows "Nodes cfg \<noteq> []"
proof -
  obtain v where v: "f = Document v" using assms by (cases f) (simp_all add: Load_def)
  have "length (Nodes cfg) \<ge> 3" using assms [unfolded v Load_Inr] by auto
  then show ?thesis by auto
qed

text \<open>What a run of the client that ends with status 0 has done.\<close>

definition cli_done :: "system \<Rightarrow> string list \<Rightarrow> printed \<Rightarrow> bool" where
  "cli_done s args out \<longleftrightarrow>
     (\<exists>key val ver e. args = [''get'', key] \<and> out = PrintGet val ver e \<and> e \<in> {OK, ErrNoKey} \<and>
        placed s (AnyGetArgs \<lparr>ga_Key = key\<rparr>) (AnyGetReply \<lparr>gr_Value = val, gr_Version = ver, gr_Err = e\<rparr>)) \<or>
     (\<exists>key val ver rest. args = ''put'' # key # val # rest \<and> out = PrintPut OK \<and>
        (rest = [] \<and> ver = 0 \<or> (\<exists>txt. rest = [txt] \<and> Sscanf_uint txt = Some ver)) \<and>
        placed s (AnyPutArgs \<lparr>pa_Key = key, pa_Value = val, pa_Version = ver\<rparr>) (AnyPutReply \<lparr>pr_Err = OK\<rparr>))"

lemma cli_get_ok:
  assumes "sys_reachable bs n (ws_sys w)" "in_range ck (lastLeader ck)"
    and "cli_run (sys_net bs server_at) ck (''get'' # rest) w = Some (r, w')"
  shows "r \<noteq> Panics \<and> (\<forall>out. r = Returns (out, 0) \<longrightarrow> cli_done (ws_sys w) (''get'' # rest) out)"
proof (cases "length rest = 1")
  case False
  then show ?thesis using assms(3) by (auto simp: cli_run_def)
next
  case True
  then obtain key where rest: "rest = [key]" by (auto simp: length_Suc_conv)
  with assms(3) obtain g ck' w1 where g: "Clerk_Get (sys_net bs server_at) ck key w = Some (g, ck', w1)"
    and r: "(case g of Panics \<Rightarrow> Some (Panics, w1)
       | Returns (v, ver, e) \<Rightarrow> Some (Returns (PrintGet v ver e, if e \<noteq> OK \<and> e \<noteq> ErrNoKey then 1 else 0), w1)) = Some (r, w')"
    by (auto simp: cli_run_def bind_eq_Some_conv)
  have "g \<noteq> Panics" using Clerk_Get_range [OF assms(2) g] by simp
  then obtain v ver e where v: "g = Returns (v, ver, e)" by (metis go.exhaust prod_cases3)
  from Get_placed [OF assms(1) g [unfolded v]] r v rest show ?thesis
    by (auto simp: cli_done_def split: if_splits)
qed

lemma cli_put_ok:
  assumes "sys_reachable bs n (ws_sys w)" "in_range ck (lastLeader ck)"
    and "cli_run (sys_net bs server_at) ck (''put'' # rest) w = Some (r, w')"
  shows "r \<noteq> Panics \<and> (\<forall>out. r = Returns (out, 0) \<longrightarrow> cli_done (ws_sys w) (''put'' # rest) out)"
proof (cases "length rest = 2 \<or> length rest = 3")
  case False
  then have "length rest < 2 \<or> 3 < length rest" by linarith
  then have "cli_run (sys_net bs server_at) ck (''put'' # rest) w = Some (Returns (PrintPutUsage, 2), w)"
    by (simp add: cli_run_def)
  then show ?thesis using assms(3) by auto
next
  case True
  then obtain key val more where rest: "rest = key # val # more" "length more \<le> 1"
    by (auto simp: numeral_2_eq_2 numeral_3_eq_3 length_Suc_conv)
  define ver where "ver = (if length more = 1 then Sscanf_uint (hd more) else Some 0)"
  have more: "more = [] \<or> (\<exists>txt. more = [txt])" using rest(2) by (cases more) auto
  have eq: "cli_run (sys_net bs server_at) ck (''put'' # rest) w = (case ver of
      None \<Rightarrow> Some (Returns (PrintBadVersion, 2), w)
    | Some ver \<Rightarrow> Clerk_Put (sys_net bs server_at) ck key val ver w \<bind> (\<lambda>(r, _, w1). case r of
        Panics \<Rightarrow> Some (Panics, w1) | Returns e \<Rightarrow> Some (Returns (PrintPut e, if e \<noteq> OK then 1 else 0), w1)))"
    using more by (auto simp: cli_run_def rest ver_def split: option.split)
  show ?thesis
  proof (cases ver)
    case None
    then show ?thesis using assms(3) eq by auto
  next
    case (Some u)
    with assms(3) eq obtain g ck' w1 where g: "Clerk_Put (sys_net bs server_at) ck key val u w = Some (g, ck', w1)"
      and r: "(case g of Panics \<Rightarrow> Some (Panics, w1)
         | Returns e \<Rightarrow> Some (Returns (PrintPut e, if e \<noteq> OK then 1 else 0), w1)) = Some (r, w')"
      by (auto simp: bind_eq_Some_conv)
    have "g \<noteq> Panics" using Clerk_Put_range [OF assms(2) g] by simp
    then obtain e where e: "g = Returns e" by (metis go.exhaust)
    have "placed (ws_sys w) (AnyPutArgs \<lparr>pa_Key = key, pa_Value = val, pa_Version = u\<rparr>) (AnyPutReply \<lparr>pr_Err = OK\<rparr>)"
      if "e = OK" using Put_placed [OF assms(1) g [unfolded e]] that by auto
    with r e rest more Some show ?thesis by (auto simp: cli_done_def ver_def split: if_splits)
  qed
qed

lemma cli_run_ok:
  assumes "sys_reachable bs n (ws_sys w)" "in_range ck (lastLeader ck)" "args \<noteq> []"
    and "cli_run (sys_net bs server_at) ck args w = Some (r, w')"
  shows "r \<noteq> Panics \<and> (\<forall>out. r = Returns (out, 0) \<longrightarrow> cli_done (ws_sys w) args out)"
proof -
  obtain c rest where args: "args = c # rest" using assms(3) by (cases args) auto
  show ?thesis
  proof (cases "c = ''get'' \<or> c = ''put''")
    case True
    then show ?thesis
    proof
      assume "c = ''get''"
      then show ?thesis using cli_get_ok [OF assms(1,2)] assms(4) args by simp
    next
      assume "c = ''put''"
      then show ?thesis using cli_put_ok [OF assms(1,2)] assms(4) args by simp
    qed
  next
    case False
    then show ?thesis using assms(4) args by (auto simp: cli_run_def)
  qed
qed

section \<open>Properties\<close>


lemma good_cli:
  "map_option fst (cli_main Map.empty (\<lambda>_. Document demo_file) None (\<lambda>_. True) (sys_net (\<lambda>_. 0) at_abc)
     [''put'', ''k'', ''v''] good_world) = Some (Returns (PrintPut OK, 0))"
  by code_simp



lemma demo_status:
  "map_option fst (kvserver_main Map.empty demo_flags (\<lambda>_. Document demo_file)
     (\<lambda>d. Some (MakeFilePersister d Map.empty)) (\<lambda>_. True) (\<lambda>_. True)) = Some 0"
  by code_simp


end
