(* ===== verification/Spec2Isabelle.thy ===== *)
theory Spec2Isabelle
  imports Kv_Store Raft_Safety System_Safety Transport Kv_Service Kv_Config Clerk Clerk_System
    Disk_Crash Test_Network Test_Doubles Commands
begin

text \<open>
  \<^bold>\<open>The program.\<close> A key/value store that is replicated by the Raft consensus algorithm, written in
  Go (\<^verbatim>\<open>src/kvraft\<close>). A client asks a server over gRPC; the server submits the request to its
  replicated state machine, which hands it to Raft as a log entry; once a majority has the entry
  it is committed, every server applies it to its own store, and the server that was asked answers.

  \<^bold>\<open>Conventions.\<close> Go structs are records, panics and fatal errors are \<open>None\<close> (\<^verbatim>\<open>Monad_Syntax\<close>), \<^verbatim>\<open>int\<close> is
  \<open>int\<close>, \<^verbatim>\<open>uint64\<close> and \<^verbatim>\<open>int64\<close> identifiers are \<open>64 word\<close>, \<^verbatim>\<open>int32\<close> is \<open>32 word\<close>. The bytes of
  \<^verbatim>\<open>encoding/gob\<close> are lists of the values that were encoded. Failures of the operating system are a
  plan in the persister. Goroutines that a function starts are effects that it returns.

  \<^bold>\<open>Theories, in the order of the code.\<close>
  \<^item> \<open>Go_Prelude\<close>: slices, indices and loops of Go, generic lemmas. \<open>Kv_Types\<close>: \<^verbatim>\<open>api/kv.go\<close>, the
    messages of \<^verbatim>\<open>raft/raft.go\<close>, gob values.
  \<^item> \<open>Kv_Store\<close>: \<^verbatim>\<open>internal/kvserver/store.go\<close> and the specification \<^verbatim>\<open>testutils/kvmodel.go\<close>; the locale
    \<open>state_machine\<close> for \<^verbatim>\<open>sm/sm.go\<close>.
  \<^item> \<open>Persister\<close>: \<^verbatim>\<open>internal/raft/disk_persister.go\<close> and \<^verbatim>\<open>testutils/persister.go\<close> under the locale
    \<open>persister_iface\<close>. \<open>Disk_Crash\<close>: failures and crashes inside \<^verbatim>\<open>Save\<close>.
  \<^item> \<open>Raft_Node\<close>: \<^verbatim>\<open>raft.go\<close>, \<^verbatim>\<open>storage.go\<close>, \<^verbatim>\<open>log_replication.go\<close> and \<^verbatim>\<open>ticker.go\<close> of
    \<^verbatim>\<open>internal/raft\<close>, one definition per function. \<open>Raft_Node_Props\<close> and \<open>Raft_Handlers\<close>: what each
    handler does, in closed form.
  \<^item> \<open>Raft_Cluster\<close>: servers, messages in flight, and the events \<open>exec\<close> that the servers and the network
    can perform; \<open>reachable\<close> states.
  \<^item> \<open>Raft_Abstract\<close>: the protocol on whole logs, with its invariant. \<open>Raft_Relation\<close>, \<open>Raft_Simulation\<close>,
    \<open>Raft_Leader_Sim\<close>, \<open>Raft_Refinement\<close>: every event of the cluster is a sequence of steps of the
    protocol. \<open>Raft_Safety\<close>: the safety theorems. \<open>Raft_Frame\<close>: what events do to the applied messages.
  \<^item> \<open>Rsm\<close>: \<^verbatim>\<open>internal/rsm/rsm.go\<close>, split where the code takes or releases its lock or uses a channel.
    \<open>System\<close>: the cluster with the replicated state machines, their readers and all calls of
    \<^verbatim>\<open>Submit\<close>. \<open>System_Inv\<close>, \<open>System_Step\<close>: its invariant. \<open>System_Safety\<close>: the theorems about the service.
  \<^item> \<open>Transport\<close>: \<^verbatim>\<open>raftransport\<close>. \<open>Kv_Service\<close>: \<^verbatim>\<open>internal/kvserver/grpc.go\<close>.
  \<^item> \<open>Kv_Config\<close>: \<^verbatim>\<open>config/config.go\<close> and \<^verbatim>\<open>internal/kvserver/node.go\<close>.
  \<^item> \<open>Clerk\<close>: \<^verbatim>\<open>pkg/clerk/clerk.go\<close>. \<open>Clerk_System\<close>: clerks, front end and service together.
    \<open>Commands\<close>: the programs \<^verbatim>\<open>cmd/cli\<close> and \<^verbatim>\<open>cmd/kvserver\<close>.
  \<^item> \<open>Test_Network\<close>, \<open>Test_Doubles\<close>: \<^verbatim>\<open>network.go\<close>, \<^verbatim>\<open>mock_raft.go\<close> and \<^verbatim>\<open>mock_sm.go\<close> of
    \<^verbatim>\<open>internal/testutils\<close>; the locale \<open>raft_start\<close> for what \<^verbatim>\<open>Submit\<close> relies on, interpreted for the mock and
    for Raft.

  \<^bold>\<open>What is proved.\<close>
  \<^item> Raft: election safety, votes that are kept, log matching, leader completeness, agreement on committed
    entries and on applied commands, append-only leaders, recovery of the persistent state, absence of
    panics, and that the cluster refines the abstract protocol, over all runs with any number of servers, crashes,
    and messages that are lost, delayed and reordered.
  \<^item> The service: every answer is the one of a single sequence of operations that all replicas execute
    and that respects real time; no step panics; the same for what clerks and the command line client return.
  \<^item> The store: refinement of the sequential specification, at-most-once writes, snapshots.
  \<^item> The edges: round trips and bounds of the wire format, meaning and termination of a clerk's
    \<open>Put\<close>, agreement of configured servers on their numbers, error paths, exit statuses, test doubles.
  \<^item> Defects: a clerk that reports a refusal for a write that took effect, a replica that blocks for ever after a late
    timeout, commands that are lost when a crash separates the two files of a save, a read error that erases the
    snapshot, clerks that follow hints in a circle, terms beyond 32 bits.

  \<^bold>\<open>Assumptions of the system theorems.\<close> In \<open>reachable\<close> and \<open>sys_reachable\<close> disks work and a \<open>Save\<close>
  is atomic (\<open>Disk_Crash\<close> shows what happens otherwise); a critical section is one step, and a crash may come between any
  two steps and between the two saves of an election and of an installed snapshot; a request is
  delivered at most once; identifiers that \<^verbatim>\<open>randValue\<close> draws are fresh and not \<open>-1\<close>; RPC values reach the handlers
  unchanged, which \<open>grpc_transparent\<close> proves for values of 32 bits. The size of encoded bytes is the
  argument \<open>byte_size\<close>.

  \<^bold>\<open>Loops and bounds.\<close> Loops that end are recursive functions with a termination proof. The loops of a clerk may run
  for ever; they are a \<open>partial_function (option)\<close>, with a theorem when they return and one when they do not. No fuel is
  used. The queue of \<open>MockRaft\<close> has the 1000 places of the code.

  \<^bold>\<open>Not modelled.\<close> Logging, metrics and their HTTP server (output only); generated protocol buffer code and gRPC itself
  (parameters of the model: \<open>RaftClient\<close>, \<open>KVClient\<close>, \<open>dial\<close>, \<open>listen\<close>); the parsing of flags and of JSON text (the model starts
  from the parsed document); real time (timers may fire at any moment, delays take none); the porcupine
  checker and random test data; the Java client and the Python scripts.
\<close>

end
